(* ===== verification/Prelude.thy ===== *)
theory Prelude imports "HOL-Library.Word" "HOL-Library.Monad_Syntax" begin

text \<open>
  Shared vocabulary of the development.

  \<^item> Machine types: \<open>u64\<close> for \<^verbatim>\<open>std::uint64_t\<close> and
    \<^verbatim>\<open>std::size_t\<close> where the wrap-around matters, \<open>u32\<close> for
    \<^verbatim>\<open>std::uint32_t\<close>; pointers into a slab are slot numbers (\<open>ptr\<close>).
  \<^item> Partial operations live in the option monad: \<open>None\<close> is "the C++ program has
    no defined result here" (an out-of-range vector access, a dereference of a dead slot, a
    failed \<^verbatim>\<open>assert\<close>, or a loop that does not end).
  \<^item> Checked vector access \<open>nth_opt\<close> and \<open>upd_opt\<close>.
  \<^item> Cyclic arithmetic: bit-masked words and the forward distance \<open>cdist\<close> on a
    circle of \<open>n\<close> slots.
\<close>

unbundle bit_operations_syntax

type_synonym u64 = "64 word"
type_synonym u32 = "32 word"
type_synonym ptr = nat

named_theorems run_simps "unfolding equations of the partial operations, for evaluation"
named_theorems rep_defs "definitions of the representation invariants"

subsection \<open>Checked vector access\<close>

definition nth_opt :: "'a list \<Rightarrow> nat \<Rightarrow> 'a option" where
  "nth_opt xs i = (if i < length xs then Some (xs ! i) else None)"

definition upd_opt :: "'a list \<Rightarrow> nat \<Rightarrow> 'a \<Rightarrow> 'a list option" where
  "upd_opt xs i v = (if i < length xs then Some (xs[i := v]) else None)"

lemma nth_opt_in [simp]: "i < length xs \<Longrightarrow> nth_opt xs i = Some (xs ! i)"
  by (simp add: nth_opt_def)

lemma nth_opt_out [simp]: "\<not> i < length xs \<Longrightarrow> nth_opt xs i = None"
  by (simp add: nth_opt_def)

lemma upd_opt_in [simp]: "i < length xs \<Longrightarrow> upd_opt xs i v = Some (xs[i := v])"
  by (simp add: upd_opt_def)

lemma nth_opt_eq_Some: "nth_opt xs i = Some x \<longleftrightarrow> i < length xs \<and> xs ! i = x"
  by (simp add: nth_opt_def)

lemma upd_opt_eq_Some: "upd_opt xs i v = Some ys \<longleftrightarrow> i < length xs \<and> ys = xs[i := v]"
  by (auto simp: upd_opt_def)

lemma map_eqI: "(\<And>k v. m k = Some v \<longleftrightarrow> m' k = Some v) \<Longrightarrow> m = m'"
  by (rule ext) (metis not_None_eq)

subsection \<open>Bit masks as remainders\<close>

lemma unat_and_mask: "unat ((w::u64) AND (2 ^ k - 1)) = unat w mod 2 ^ k"
  by (metis mask_eq_exp_minus_1 take_bit_eq_mask take_bit_eq_mod unsigned_take_bit_eq)

lemma and_not_diff: "(x::u64) AND NOT m = x - (x AND m)"
proof -
  have "NOT x AND (x AND m) = 0" by (rule bit_word_eqI) (auto simp: bit_simps)
  then have "x - (x AND m) = x AND NOT (x AND m)" by (rule disjunctive_diff_eq_and_not)
  also have "\<dots> = x AND NOT m" by (rule bit_word_eqI) (auto simp: bit_simps)
  finally show ?thesis by simp
qed

lemma unat_and_not_mask: "unat ((x::u64) AND NOT (2 ^ k - 1)) = unat x - unat x mod 2 ^ k"
proof -
  have "x AND (2 ^ k - 1) \<le> x"
    by (simp add: word_le_nat_alt unat_and_mask)
  then show ?thesis by (simp add: and_not_diff unat_sub unat_and_mask)
qed

lemma unat_of_nat64: "n < 2 ^ 64 \<Longrightarrow> unat (of_nat n :: u64) = n"
  by (simp add: unsigned_of_nat take_bit_nat_eq_self)

lemma unat_add_mod_pow2:
  assumes "k \<le> 64"
  shows "unat (a + b :: u64) mod 2 ^ k = (unat a + unat b) mod 2 ^ k"
proof -
  have "unat (a + b) = (unat a + unat b) mod 2 ^ 64"
    by (simp add: unat_word_ariths)
  then show ?thesis
    using mod_mod_cancel [OF le_imp_power_dvd [OF assms, of "2::nat"]] by simp
qed

subsection \<open>Forward distance on a circle\<close>

definition cdist :: "nat \<Rightarrow> nat \<Rightarrow> nat \<Rightarrow> nat" where
  "cdist n a b = (b + n - a) mod n"

lemma cdist_less [simp]: "0 < n \<Longrightarrow> cdist n a b < n"
  by (simp add: cdist_def)

lemma cdist_self [simp]: "cdist n a a = 0"
  by (simp add: cdist_def)

lemma cdist_cases:
  assumes "a < n" "b < n"
  shows "cdist n a b = (if a \<le> b then b - a else b + n - a)"
proof (cases "a \<le> b")
  case True
  then have e: "b + n - a = (b - a) + n" by simp
  have "((b - a) + n) mod n = b - a" using assms by simp
  then show ?thesis using True by (simp only: cdist_def e if_True)
next
  case False
  with assms show ?thesis by (simp add: cdist_def)
qed

lemma cdist_eq_0: "a < n \<Longrightarrow> b < n \<Longrightarrow> cdist n a b = 0 \<longleftrightarrow> a = b"
  by (auto simp: cdist_cases)

lemma cdist_inj: "a < n \<Longrightarrow> x < n \<Longrightarrow> y < n \<Longrightarrow> cdist n a x = cdist n a y \<longleftrightarrow> x = y"
  by (auto simp: cdist_cases)

lemma cdist_split:
  "a < n \<Longrightarrow> x < n \<Longrightarrow> b < n \<Longrightarrow> cdist n a x \<le> cdist n a b \<Longrightarrow> cdist n a b = cdist n a x + cdist n x b"
  by (auto simp: cdist_cases split: if_splits)

lemma succ_mod_cases: "(a::nat) < n \<Longrightarrow> Suc a mod n = (if Suc a = n then 0 else Suc a)"
  by auto

lemma cdist_succ_right:
  assumes "a < n" "b < n" "cdist n a b + 1 < n"
  shows "cdist n a ((b + 1) mod n) = cdist n a b + 1"
  using assms by (auto simp: succ_mod_cases cdist_cases split: if_splits)

lemma cdist_succ_left:
  assumes "a < n" "b < n" "a \<noteq> b"
  shows "cdist n a b = cdist n ((a + 1) mod n) b + 1"
  using assms by (auto simp: succ_mod_cases cdist_cases split: if_splits)

lemma unat_sub_mask:
  assumes k: "k \<le> 64" and "unat a < 2 ^ k" "unat b < 2 ^ k"
  shows "unat ((a - b :: u64) AND (2 ^ k - 1)) = cdist (2 ^ k) (unat b) (unat a)"
proof -
  have "unat (a - b) mod 2 ^ k = (unat a + 2 ^ k - unat b) mod 2 ^ k"
  proof (cases "unat b \<le> unat a")
    case True
    then have "unat a + 2 ^ k - unat b = unat (a - b) + 2 ^ k"
      by (simp add: unat_sub_if')
    then show ?thesis by simp
  next
    case False
    obtain c :: nat where c: "(2::nat) ^ 64 = 2 ^ k * c"
      using le_imp_power_dvd [OF k, of "2::nat"] by (rule dvdE)
    have "c \<noteq> 0" using c by (cases c) auto
    then obtain c' where c': "c = Suc c'" by (cases c) auto
    have "unat (a - b) = unat a + 2 ^ 64 - unat b"
      using False by (simp add: unat_sub_if')
    also have "\<dots> = (unat a + 2 ^ k - unat b) + c' * 2 ^ k"
      using assms(3) unfolding c c' by (simp add: algebra_simps)
    finally show ?thesis by simp
  qed
  then show ?thesis by (simp add: unat_and_mask cdist_def)
qed

lemma unat_succ_mask:
  assumes "k \<le> 64"
  shows "unat ((a + 1 :: u64) AND (2 ^ k - 1)) = (unat a + 1) mod 2 ^ k"
  using unat_add_mod_pow2 [OF assms, of a 1] by (simp add: unat_and_mask)

subsection \<open>Counting loops\<close>

text \<open>\<^verbatim>\<open>for (j = lo; j < hi; ++j) body\<close> over a state; the body may be undefined.\<close>

function for_range :: "nat \<Rightarrow> nat \<Rightarrow> (nat \<Rightarrow> 's \<Rightarrow> 's option) \<Rightarrow> 's \<Rightarrow> 's option" where
  "for_range lo hi body s =
     (if lo < hi then do { s' \<leftarrow> body lo s; for_range (Suc lo) hi body s' } else Some s)"
  by pat_completeness auto

termination by (relation "measure (\<lambda>(lo, hi, _). hi - lo)") auto

declare for_range.simps [simp del]

lemma for_range_done [simp]: "\<not> lo < hi \<Longrightarrow> for_range lo hi body s = Some s"
  by (simp add: for_range.simps)

lemma for_range_step [run_simps]:
  "lo < hi \<Longrightarrow> for_range lo hi body s = do { s' \<leftarrow> body lo s; for_range (Suc lo) hi body s' }"
  by (subst for_range.simps) (simp only: if_True)

text \<open>The total-correctness rule: an invariant that the body keeps.\<close>

lemma for_range_invariant:
  assumes "lo \<le> hi" "I lo s"
    and "\<And>j s. lo \<le> j \<Longrightarrow> j < hi \<Longrightarrow> I j s \<Longrightarrow> \<exists>s'. body j s = Some s' \<and> I (Suc j) s'"
  shows "\<exists>s'. for_range lo hi body s = Some s' \<and> I hi s'"
  using assms
proof (induction "hi - lo" arbitrary: lo s)
  case 0
  then show ?case by simp
next
  case (Suc n)
  then have lt: "lo < hi" by simp
  then obtain s1 where s1: "body lo s = Some s1" "I (Suc lo) s1" using Suc.prems by blast
  have "\<exists>s'. for_range (Suc lo) hi body s1 = Some s' \<and> I hi s'"
    using Suc.hyps(2) lt s1(2) by (intro Suc.hyps(1)) (auto intro: Suc.prems(3))
  then show ?case using lt s1(1) by (simp add: for_range_step)
qed

text \<open>A loop that meets an undefined round is undefined.\<close>

lemma for_range_undefined:
  assumes "lo \<le> m" "m < hi" "I lo s"
    and "\<And>j s. lo \<le> j \<Longrightarrow> j < m \<Longrightarrow> I j s \<Longrightarrow> \<exists>s'. body j s = Some s' \<and> I (Suc j) s'"
    and "\<And>s. I m s \<Longrightarrow> body m s = None"
  shows "for_range lo hi body s = None"
  using assms
proof (induction "m - lo" arbitrary: lo s)
  case 0
  then have "lo = m" by simp
  with 0 show ?case by (simp add: for_range_step)
next
  case (Suc n)
  then have lt: "lo < m" by simp
  then obtain s1 where s1: "body lo s = Some s1" "I (Suc lo) s1" using Suc.prems by blast
  have "for_range (Suc lo) hi body s1 = None"
    using Suc.hyps(2) lt s1(2) Suc.prems(2,5) by (intro Suc.hyps(1)) (auto intro: Suc.prems(4))
  then show ?case using lt s1(1) Suc.prems(2) by (simp add: for_range_step)
qed

text \<open>A preorder that every round respects relates the start of a loop to its end.\<close>

lemma for_range_preorder:
  assumes "for_range lo hi body s = Some s'" "\<And>i s s'. body i s = Some s' \<Longrightarrow> R s s'"
    "\<And>s. R s s" "\<And>s t u. R s t \<Longrightarrow> R t u \<Longrightarrow> R s u"
  shows "R s s'"
  using assms(1)
proof (induction "hi - lo" arbitrary: lo s)
  case 0
  then show ?case using assms(3) by simp
next
  case (Suc n)
  then have lt: "lo < hi" by simp
  with Suc.prems obtain s1 where s1: "body lo s = Some s1" "for_range (Suc lo) hi body s1 = Some s'"
    by (auto simp: for_range_step split: bind_splits)
  have "n = hi - Suc lo" using Suc.hyps(2) by simp
  from Suc.hyps(1) [OF this s1(2)] have "R s1 s'" .
  with assms(2) [OF s1(1)] show ?case by (rule assms(4))
qed

text \<open>Two loops whose bodies keep a relation; the second is defined where the first is.\<close>

lemma for_range_related:
  assumes "for_range lo hi f s = Some s'" "R s t"
    and "\<And>i s t s'. f i s = Some s' \<Longrightarrow> R s t \<Longrightarrow> \<exists>t'. g i t = Some t' \<and> R s' t'"
  shows "\<exists>t'. for_range lo hi g t = Some t' \<and> R s' t'"
  using assms(1,2)
proof (induction "hi - lo" arbitrary: lo s t)
  case 0
  then show ?case by simp
next
  case (Suc n)
  then have lt: "lo < hi" by simp
  with Suc.prems(1) obtain s1 where s1: "f lo s = Some s1" "for_range (Suc lo) hi f s1 = Some s'"
    by (auto simp: for_range_step split: bind_splits)
  obtain t1 where t1: "g lo t = Some t1" "R s1 t1" using assms(3) [OF s1(1) Suc.prems(2)] by blast
  have "n = hi - Suc lo" using Suc.hyps(2) by simp
  from Suc.hyps(1) [OF this s1(2) t1(2)] show ?case using lt t1(1) by (simp add: for_range_step)
qed

end
