(* ===== verification/Spsc_Ring.thy ===== *)
theory Spsc_Ring imports Prelude begin

text \<open>
  The single-producer single-consumer ring of \<^verbatim>\<open>cpp/core/spsc_ring.hpp\<close>, twice.

  \<^item> \<open>TryPush\<close> and \<open>TryPop\<close> as whole calls on the ring's members, with 64-bit
    indices that wrap. They implement a bounded queue that drops the newest element when full
    (locale \<open>bounded_queue\<close> and its interpretation).
  \<^item> The same two bodies cut at every access to shared memory (\<open>ring_step\<close>): producer and
    consumer interleave freely, and an acquire load of the other side's index may return any value
    the index has had since this side last looked, which is what acquire/release ordering allows.
    The invariant gives FIFO order without loss or duplication, and freedom from data races on the
    slots, so the plain (non-atomic) slot accesses are defined.

  The template parameter \<^verbatim>\<open>Capacity\<close> is the field \<open>rg_capacity\<close>.
\<close>

section \<open>State and whole calls\<close>

record 'a ring =
  rg_capacity :: u64
  rg_write_idx :: u64
  rg_read_idx :: u64
  rg_dropped :: u64
  rg_storage :: "'a list"

text \<open>\<open>z\<close> is the value-initialised \<^verbatim>\<open>T\<close> of \<^verbatim>\<open>storage_ = {}\<close>.\<close>

definition SpscRing :: "u64 \<Rightarrow> 'a \<Rightarrow> 'a ring" where
  "SpscRing Capacity z = \<lparr>rg_capacity = Capacity, rg_write_idx = 0, rg_read_idx = 0, rg_dropped = 0,
     rg_storage = replicate (unat Capacity) z\<rparr>"

text \<open>The static assertions on \<^verbatim>\<open>Capacity\<close>.\<close>

definition capacity_ok :: "u64 \<Rightarrow> bool" where
  "capacity_ok Capacity \<longleftrightarrow> Capacity > 0 \<and> Capacity AND (Capacity - 1) = 0"

definition kMask :: "'a ring \<Rightarrow> u64" where
  "kMask R = rg_capacity R - 1"

definition TryPush :: "'a \<Rightarrow> 'a ring \<Rightarrow> (bool \<times> 'a ring) option" where
  "TryPush v R =
     (let w = rg_write_idx R; r = rg_read_idx R in
      if w - r \<ge> rg_capacity R then Some (False, R\<lparr>rg_dropped := rg_dropped R + 1\<rparr>)
      else do {
        st \<leftarrow> upd_opt (rg_storage R) (unat (w AND kMask R)) v;
        Some (True, R\<lparr>rg_storage := st, rg_write_idx := w + 1\<rparr>)
      })"

text \<open>The out-parameter is part of the result.\<close>

definition TryPop :: "'a ring \<Rightarrow> ('a option \<times> 'a ring) option" where
  "TryPop R =
     (let r = rg_read_idx R; w = rg_write_idx R in
      if r = w then Some (None, R)
      else do {
        v \<leftarrow> nth_opt (rg_storage R) (unat (r AND kMask R));
        Some (Some v, R\<lparr>rg_read_idx := r + 1\<rparr>)
      })"

definition dropped_messages :: "'a ring \<Rightarrow> u64" where "dropped_messages R = rg_dropped R"
definition size_approx :: "'a ring \<Rightarrow> u64" where "size_approx R = rg_write_idx R - rg_read_idx R"
definition empty_approx :: "'a ring \<Rightarrow> bool" where "empty_approx R \<longleftrightarrow> size_approx R = 0"

definition kCapacity :: "'a ring \<Rightarrow> u64" where "kCapacity R = rg_capacity R"

section \<open>Layout\<close>

text \<open>Members are laid out in their order, each at the next multiple of its alignment;
  a member is its alignment and its size.\<close>

definition kSpscCacheLine :: nat where "kSpscCacheLine = 64"

fun offsets :: "nat \<Rightarrow> (nat \<times> nat) list \<Rightarrow> nat list" where
  "offsets end [] = []"
| "offsets end ((al, sz) # ms) = (let at = (end + al - 1) div al * al in at # offsets (at + sz) ms)"

definition member_offsets :: "nat \<Rightarrow> u64 \<Rightarrow> nat list" where
  "member_offsets sizeof_T Capacity = offsets 0
     [(kSpscCacheLine, 8), (kSpscCacheLine, 8), (kSpscCacheLine, 8), (kSpscCacheLine, unat Capacity * sizeof_T)]"

definition write_index_offset_for_testing :: "nat \<Rightarrow> u64 \<Rightarrow> nat" where
  "write_index_offset_for_testing sizeof_T Capacity = member_offsets sizeof_T Capacity ! 0"
definition read_index_offset_for_testing :: "nat \<Rightarrow> u64 \<Rightarrow> nat" where
  "read_index_offset_for_testing sizeof_T Capacity = member_offsets sizeof_T Capacity ! 1"
definition dropped_offset_for_testing :: "nat \<Rightarrow> u64 \<Rightarrow> nat" where
  "dropped_offset_for_testing sizeof_T Capacity = member_offsets sizeof_T Capacity ! 2"

text \<open>No two of the members the threads write, and no slot, share a cache line, in an object aligned as
  the class demands.\<close>

lemma member_offsets_list: "member_offsets sizeof_T Capacity = [0, 64, 128, 192]"
  by (simp add: member_offsets_def kSpscCacheLine_def)

lemma member_offsets_lines:
  assumes "j < 4"
  shows "member_offsets sizeof_T Capacity ! j = kSpscCacheLine * j"
proof -
  consider "j = 0" | "j = 1" | "j = 2" | "j = 3" using assms by linarith
  then show ?thesis by cases (simp_all add: member_offsets_list kSpscCacheLine_def)
qed

lemma no_false_sharing:
  assumes "j < i" "i < 4" "kSpscCacheLine dvd base" "b < 8"
  shows "(base + member_offsets sizeof_T Capacity ! j + b) div kSpscCacheLine
    < (base + member_offsets sizeof_T Capacity ! i) div kSpscCacheLine"
proof -
  obtain m where "base = 64 * m" using assms(3) by (auto simp: kSpscCacheLine_def)
  then show ?thesis using assms by (simp add: member_offsets_lines kSpscCacheLine_def)
qed

section \<open>Queue interfaces\<close>

text \<open>What a producer needs: pushing always returns, with an answer it may ignore.\<close>

locale event_queue =
  fixes push :: "'a \<Rightarrow> 's \<Rightarrow> (bool \<times> 's) option"
    and inv :: "'s \<Rightarrow> bool"
  assumes push_total: "inv s \<Longrightarrow> \<exists>ok s'. push v s = Some (ok, s') \<and> inv s'"

text \<open>Pushing a list of values, with the answers.\<close>

fun push_run :: "('a \<Rightarrow> 's \<Rightarrow> (bool \<times> 's) option) \<Rightarrow> 'a list \<Rightarrow> 's \<Rightarrow> (bool list \<times> 's) option" where
  "push_run push [] s = Some ([], s)"
| "push_run push (v # vs) s = do {
     (ok, s1) \<leftarrow> push v s; (oks, s2) \<leftarrow> push_run push vs s1; Some (ok # oks, s2) }"

lemma push_run_append:
  "push_run push (vs @ ws) s = do {
     (oks, s1) \<leftarrow> push_run push vs s; (oks', s2) \<leftarrow> push_run push ws s1; Some (oks @ oks', s2) }"
  by (induction vs arbitrary: s) (auto simp: case_prod_beta split: bind_splits)

context event_queue begin

lemma push_run_total: "inv s \<Longrightarrow> \<exists>oks s'. push_run push vs s = Some (oks, s') \<and> inv s'"
proof (induction vs arbitrary: s)
  case (Cons v vs)
  then obtain ok s1 where "push v s = Some (ok, s1)" "inv s1" using push_total by blast
  with Cons.IH [of s1] show ?case by auto
qed simp

end

text \<open>A bounded first-in first-out queue that refuses when full.\<close>

locale bounded_queue =
  fixes push :: "'a \<Rightarrow> 's \<Rightarrow> (bool \<times> 's) option"
    and pop :: "'s \<Rightarrow> ('a option \<times> 's) option"
    and items :: "'s \<Rightarrow> 'a list"
    and inv :: "'s \<Rightarrow> bool"
    and cap :: "'s \<Rightarrow> nat"
    and lost :: "'s \<Rightarrow> u64"
  assumes bounded: "inv s \<Longrightarrow> length (items s) \<le> cap s"
    and push_room: "inv s \<Longrightarrow> length (items s) < cap s \<Longrightarrow> \<exists>s'. push v s = Some (True, s') \<and> inv s'
      \<and> items s' = items s @ [v] \<and> cap s' = cap s \<and> lost s' = lost s"
    and push_full: "inv s \<Longrightarrow> length (items s) = cap s \<Longrightarrow> \<exists>s'. push v s = Some (False, s') \<and> inv s'
      \<and> items s' = items s \<and> cap s' = cap s \<and> lost s' = lost s + 1"
    and pop_empty: "inv s \<Longrightarrow> items s = [] \<Longrightarrow> pop s = Some (None, s)"
    and pop_first: "inv s \<Longrightarrow> items s = v # vs \<Longrightarrow> \<exists>s'. pop s = Some (Some v, s') \<and> inv s'
      \<and> items s' = vs \<and> cap s' = cap s \<and> lost s' = lost s"

sublocale bounded_queue \<subseteq> event_queue push inv
proof
  fix s v assume s: "inv s"
  show "\<exists>ok s'. push v s = Some (ok, s') \<and> inv s'"
    using push_room [OF s] push_full [OF s] bounded [OF s] by (meson le_neq_implies_less)
qed

text \<open>Client scripts: every call and its answer, against a plain list of at most \<open>c\<close> items.\<close>

datatype 'a q_op = QPush 'a | QPop
datatype 'a q_ans = Pushed bool | Popped "'a option"

fun q_run :: "('a \<Rightarrow> 's \<Rightarrow> (bool \<times> 's) option) \<Rightarrow> ('s \<Rightarrow> ('a option \<times> 's) option) \<Rightarrow> 'a q_op list \<Rightarrow> 's
    \<Rightarrow> ('a q_ans list \<times> 's) option" where
  "q_run push pop [] s = Some ([], s)"
| "q_run push pop (QPush v # ops) s = do {
     (ok, s1) \<leftarrow> push v s; (as, s2) \<leftarrow> q_run push pop ops s1; Some (Pushed ok # as, s2) }"
| "q_run push pop (QPop # ops) s = do {
     (r, s1) \<leftarrow> pop s; (as, s2) \<leftarrow> q_run push pop ops s1; Some (Popped r # as, s2) }"

fun q_spec :: "nat \<Rightarrow> 'a q_op list \<Rightarrow> 'a list \<Rightarrow> 'a q_ans list \<times> 'a list" where
  "q_spec c [] xs = ([], xs)"
| "q_spec c (QPush v # ops) xs =
     (let (as, ys) = q_spec c ops (if length xs < c then xs @ [v] else xs)
      in (Pushed (length xs < c) # as, ys))"
| "q_spec c (QPop # ops) xs =
     (case xs of
        [] \<Rightarrow> let (as, ys) = q_spec c ops [] in (Popped None # as, ys)
      | x # xs' \<Rightarrow> let (as, ys) = q_spec c ops xs' in (Popped (Some x) # as, ys))"

definition drops :: "'a q_ans list \<Rightarrow> nat" where
  "drops as = length (filter (\<lambda>a. a = Pushed False) as)"

lemma drops_simps [simp]: "drops [] = 0"
  "drops (a # as) = (if a = Pushed False then Suc (drops as) else drops as)"
  by (simp_all add: drops_def)

context bounded_queue begin

lemma run_fifo:
  assumes "inv s"
  shows "\<exists>s'. q_run push pop ops s = Some (fst (q_spec (cap s) ops (items s)), s') \<and> inv s'
    \<and> items s' = snd (q_spec (cap s) ops (items s)) \<and> cap s' = cap s
    \<and> lost s' = lost s + of_nat (drops (fst (q_spec (cap s) ops (items s))))"
  using assms
proof (induction ops arbitrary: s)
  case Nil
  then show ?case by simp
next
  case (Cons x ops)
  show ?case
  proof (cases x)
    case (QPush v)
    show ?thesis
    proof (cases "length (items s) < cap s")
      case True
      from push_room [OF Cons.prems True, of v] obtain s1 where s1: "push v s = Some (True, s1)" "inv s1"
        "items s1 = items s @ [v]" "cap s1 = cap s" "lost s1 = lost s" by blast
      from Cons.IH [OF s1(2)] s1 True QPush show ?thesis by (auto simp: Let_def case_prod_beta)
    next
      case False
      with bounded [OF Cons.prems] have "length (items s) = cap s" by simp
      from push_full [OF Cons.prems this, of v] obtain s1 where s1: "push v s = Some (False, s1)" "inv s1"
        "items s1 = items s" "cap s1 = cap s" "lost s1 = lost s + 1" by blast
      from Cons.IH [OF s1(2)] s1 False QPush show ?thesis by (auto simp: Let_def case_prod_beta)
    qed
  next
    case QPop
    show ?thesis
    proof (cases "items s")
      case Nil
      from Cons.IH [OF Cons.prems] pop_empty [OF Cons.prems Nil] Nil QPop show ?thesis
        by (auto simp: Let_def case_prod_beta)
    next
      case (Cons v vs)
      from pop_first [OF Cons.prems Cons] obtain s1 where s1: "pop s = Some (Some v, s1)" "inv s1"
        "items s1 = vs" "cap s1 = cap s" "lost s1 = lost s" by blast
      from Cons.IH [OF s1(2)] s1 QPop Cons show ?thesis by (auto simp: Let_def case_prod_beta)
    qed
  qed
qed

end

lemma push_run_q_run:
  "q_run push pop (map QPush vs) s = map_option (\<lambda>(oks, s'). (map Pushed oks, s')) (push_run push vs s)"
  by (induction vs arbitrary: s) (auto simp: case_prod_beta split: bind_splits)

section \<open>The ring is a bounded queue\<close>

definition ring_shape :: "nat \<Rightarrow> 'a ring \<Rightarrow> bool" where
  "ring_shape k R \<longleftrightarrow> k < 64 \<and> rg_capacity R = 2 ^ k \<and> length (rg_storage R) = 2 ^ k"

definition ring_inv :: "'a ring \<Rightarrow> bool" where
  "ring_inv R \<longleftrightarrow> (\<exists>k. ring_shape k R \<and> unat (rg_write_idx R - rg_read_idx R) \<le> 2 ^ k)"

text \<open>Slot of the \<open>i\<close>-th oldest item, and the items.\<close>

definition slot_of :: "'a ring \<Rightarrow> nat \<Rightarrow> nat" where
  "slot_of R i = unat ((rg_read_idx R + of_nat i) AND kMask R)"

definition items :: "'a ring \<Rightarrow> 'a list" where
  "items R = map (\<lambda>i. rg_storage R ! slot_of R i) [0..<unat (size_approx R)]"

definition ring_cap :: "'a ring \<Rightarrow> nat" where
  "ring_cap R = unat (rg_capacity R)"

lemma unat_two_power: "k < 64 \<Longrightarrow> unat (2 ^ k :: u64) = 2 ^ k"
  using unat_of_nat64 [of "2 ^ k"] power_strict_increasing [of k 64 "2::nat"] by simp

lemma mask_slot: "ring_shape k R \<Longrightarrow> unat (w AND kMask R) = unat w mod 2 ^ k"
  by (simp add: kMask_def ring_shape_def unat_and_mask)

lemma mask_slot_less: "ring_shape k R \<Longrightarrow> unat (w AND kMask R) < length (rg_storage R)"
  by (simp add: mask_slot) (simp add: ring_shape_def)

text \<open>Slots of indices less than a capacity apart are different, also across the wrap at 2^64.\<close>

lemma mod_wrap:
  assumes "k < 64"
  shows "unat (r + of_nat i :: u64) mod 2 ^ k = (unat r + i) mod 2 ^ k"
proof -
  have "(2::nat) ^ k dvd 2 ^ 64" using assms by (intro le_imp_power_dvd) simp
  moreover have "unat (r + of_nat i :: u64) = (unat r + i) mod 2 ^ 64"
    by (simp add: unat_word_ariths unat_of_nat mod_add_right_eq)
  ultimately show ?thesis by (simp only: mod_mod_cancel)
qed

lemma slot_of_mod: "ring_shape k R \<Longrightarrow> slot_of R i = (unat (rg_read_idx R) + i) mod 2 ^ k"
  by (simp add: slot_of_def mask_slot) (simp add: mod_wrap ring_shape_def)

lemma add_mod_inj:
  assumes "(a + i) mod n = (a + j) mod n" "i < n" "j < (n::nat)"
  shows "i = j"
proof -
  have "i = j" if "i \<le> j" "j < n" "(a + i) mod n = (a + j) mod n" for i j
  proof -
    have "n dvd (a + j) - (a + i)" using that by (metis add_le_cancel_left mod_eq_dvd_iff_nat)
    then have "n dvd j - i" by simp
    then show ?thesis using that by (metis diff_diff_cancel diff_less_mono2 diff_zero dvd_imp_le
        le_antisym less_imp_diff_less linorder_not_less nat_less_le zero_less_diff)
  qed
  from this [of i j] this [of j i] assms show ?thesis by (cases "i \<le> j") auto
qed

lemma write_slot:
  assumes "ring_shape k R"
  shows "unat (rg_write_idx R AND kMask R) = slot_of R (unat (size_approx R))"
proof -
  have "rg_read_idx R + of_nat (unat (size_approx R)) = rg_write_idx R"
    by (simp add: size_approx_def)
  then show ?thesis by (simp add: slot_of_def)
qed

lemma size_less_cap: "ring_inv R \<Longrightarrow> length (items R) \<le> ring_cap R"
  by (auto simp: ring_inv_def items_def ring_cap_def size_approx_def ring_shape_def unat_two_power)

lemma TryPush_room:
  assumes inv: "ring_inv R" and room: "length (items R) < ring_cap R"
  shows "\<exists>R'. TryPush v R = Some (True, R') \<and> ring_inv R' \<and> items R' = items R @ [v]
    \<and> ring_cap R' = ring_cap R \<and> rg_dropped R' = rg_dropped R"
proof -
  obtain k where k: "ring_shape k R" using inv by (auto simp: ring_inv_def)
  let ?n = "unat (size_approx R)" and ?w = "rg_write_idx R"
  have n: "?n < 2 ^ k" using room k by (simp add: items_def ring_cap_def ring_shape_def unat_two_power)
  have c: "\<not> ?w - rg_read_idx R \<ge> rg_capacity R"
    using n k by (simp add: size_approx_def ring_shape_def word_le_nat_alt unat_two_power)
  let ?st = "(rg_storage R)[unat (?w AND kMask R) := v]"
  let ?R = "R\<lparr>rg_storage := ?st, rg_write_idx := ?w + 1\<rparr>"
  have push: "TryPush v R = Some (True, ?R)"
    using c mask_slot_less [OF k, of ?w] by (simp add: TryPush_def Let_def)
  have "k < 64" using k by (simp add: ring_shape_def)
  then have "(2::nat) ^ k < 2 ^ 64" by (rule power_strict_increasing) simp
  moreover have "size_approx ?R = size_approx R + 1" by (simp add: size_approx_def)
  moreover have "unat (size_approx R + 1) = (?n + 1) mod 2 ^ 64" by (simp add: unat_word_ariths)
  ultimately have sz: "unat (size_approx ?R) = ?n + 1" using n by simp
  have k': "ring_shape k ?R" using k by (simp add: ring_shape_def)
  have so: "slot_of ?R i = slot_of R i" for i by (simp add: slot_of_def kMask_def)
  have ws: "unat (?w AND kMask R) = slot_of R ?n" by (rule write_slot [OF k])
  have ne: "slot_of R ?n \<noteq> slot_of R i" if "i < ?n" for i
    using add_mod_inj [of "unat (rg_read_idx R)" i "2 ^ k" ?n] that n slot_of_mod [OF k] by auto
  have "slot_of R ?n < length (rg_storage R)" using mask_slot_less [OF k, of ?w] ws by simp
  moreover have "map (\<lambda>i. ?st ! slot_of R i) [0..<?n] = items R"
    unfolding items_def by (rule map_cong) (simp_all add: ws ne)
  ultimately have "items ?R = items R @ [v]"
    using ws unfolding items_def [of ?R] sz so by simp
  moreover have "ring_inv ?R" using k' sz n by (auto simp: ring_inv_def size_approx_def)
  ultimately show ?thesis using push by (simp add: ring_cap_def)
qed

lemma TryPush_full:
  assumes "ring_inv R" "length (items R) = ring_cap R"
  shows "TryPush v R = Some (False, R\<lparr>rg_dropped := rg_dropped R + 1\<rparr>)"
proof -
  have "rg_write_idx R - rg_read_idx R \<ge> rg_capacity R"
    using assms(2) by (simp add: items_def ring_cap_def size_approx_def word_le_nat_alt)
  then show ?thesis by (simp add: TryPush_def)
qed

lemma items_dropped [simp]: "items (R\<lparr>rg_dropped := d\<rparr>) = items R" "ring_inv (R\<lparr>rg_dropped := d\<rparr>) = ring_inv R"
  by (simp_all add: items_def slot_of_def kMask_def size_approx_def ring_inv_def ring_shape_def)

lemma TryPop_first:
  assumes inv: "ring_inv R" and it: "items R = v # vs"
  shows "\<exists>R'. TryPop R = Some (Some v, R') \<and> ring_inv R' \<and> items R' = vs
    \<and> ring_cap R' = ring_cap R \<and> rg_dropped R' = rg_dropped R"
proof -
  obtain k where k: "ring_shape k R" "unat (size_approx R) \<le> 2 ^ k"
    using inv by (auto simp: ring_inv_def size_approx_def)
  let ?r = "rg_read_idx R"
  obtain n where n: "unat (size_approx R) = Suc n"
    using it by (cases "unat (size_approx R)") (auto simp: items_def)
  have ne: "?r \<noteq> rg_write_idx R" using n by (auto simp: size_approx_def)
  let ?R = "R\<lparr>rg_read_idx := ?r + 1\<rparr>"
  have cons: "items R = rg_storage R ! slot_of R 0 # map (\<lambda>i. rg_storage R ! slot_of R (Suc i)) [0..<n]"
    unfolding items_def n by (simp only: upt_rec [of 0 "Suc n"] map_Suc_upt [symmetric]) (simp add: o_def)
  then have v: "v = rg_storage R ! slot_of R 0" "vs = map (\<lambda>i. rg_storage R ! slot_of R (Suc i)) [0..<n]"
    using it by auto
  have pop: "TryPop R = Some (Some v, ?R)"
    using ne mask_slot_less [OF k(1), of ?r] v(1) by (simp add: TryPop_def Let_def slot_of_def)
  have "size_approx ?R = size_approx R - 1" by (simp add: size_approx_def)
  moreover have "size_approx R \<noteq> 0" using n by auto
  ultimately have sz: "unat (size_approx ?R) = n" using n by (simp add: unat_minus_one)
  have so: "slot_of ?R i = slot_of R (Suc i)" for i by (simp add: slot_of_def kMask_def add.assoc)
  have "items ?R = vs" unfolding items_def sz so v(2) by simp
  moreover have "ring_inv ?R"
    using k sz n by (auto simp: ring_inv_def ring_shape_def size_approx_def)
  ultimately show ?thesis using pop by (simp add: ring_cap_def)
qed

lemma TryPop_empty: "items R = [] \<Longrightarrow> TryPop R = Some (None, R)"
  by (simp add: items_def TryPop_def size_approx_def unat_eq_zero)

interpretation rq: bounded_queue TryPush TryPop items ring_inv ring_cap dropped_messages
proof (unfold_locales, goal_cases)
  case (1 s)
  then show ?case by (rule size_less_cap)
next
  case (2 s v)
  then show ?case unfolding dropped_messages_def by (rule TryPush_room)
next
  case (3 s v)
  then show ?case using TryPush_full [of s v] by (auto simp: dropped_messages_def ring_cap_def)
next
  case (4 s)
  then show ?case by (simp add: TryPop_empty)
next
  case (5 s v vs)
  then show ?case unfolding dropped_messages_def by (rule TryPop_first)
qed

text \<open>The constructor's ring is empty, for every capacity its static assertion allows.\<close>

lemma new_ring:
  assumes "k < 64"
  shows "ring_inv (SpscRing (2 ^ k) z)" "items (SpscRing (2 ^ k) z) = []" "dropped_messages (SpscRing (2 ^ k) z) = 0"
    "ring_cap (SpscRing (2 ^ k) z) = 2 ^ k"
proof -
  have sh: "ring_shape k (SpscRing (2 ^ k) z)"
    using assms unat_two_power [of k] by (simp add: ring_shape_def SpscRing_def)
  show "ring_inv (SpscRing (2 ^ k) z)" unfolding ring_inv_def
    by (intro exI [of _ k]) (use sh in \<open>simp add: SpscRing_def\<close>)
  show "items (SpscRing (2 ^ k) z) = []" by (simp add: items_def size_approx_def SpscRing_def)
  show "dropped_messages (SpscRing (2 ^ k) z) = 0" by (simp add: dropped_messages_def SpscRing_def)
  show "ring_cap (SpscRing (2 ^ k) z) = 2 ^ k" using assms unat_two_power [of k] by (simp add: ring_cap_def SpscRing_def)
qed

text \<open>The static assertions admit exactly the powers of two.\<close>

lemma power_of_two_below:
  assumes "(C :: u64) \<noteq> 0"
  obtains k where "2 ^ k \<le> unat C" "unat C < 2 ^ (k + 1)" "k < 64"
proof -
  have "1 \<le> unat C" using assms by (simp add: Suc_le_eq unat_gt_0)
  then obtain k where k: "2 ^ k \<le> unat C" "unat C < 2 ^ (k + 1)" using ex_power_ivl1 [of 2 "unat C"] by auto
  have "unat C < 2 ^ 64" using unsigned_less [of C] by simp
  with k(1) have "(2 :: nat) ^ k < 2 ^ 64" by linarith
  then have "k < 64" by (rule power_less_imp_less_exp [rotated]) simp
  with k that show ?thesis by blast
qed

lemma capacity_ok_power:
  assumes "capacity_ok C"
  obtains k where "C = 2 ^ k" "k < 64"
proof -
  have C: "C \<noteq> 0" "C AND (C - 1) = 0" using assms by (auto simp: capacity_ok_def)
  obtain k where k: "2 ^ k \<le> unat C" "unat C < 2 ^ (k + 1)" "k < 64" using C(1) by (rule power_of_two_below)
  have top: "bit w k" if "2 ^ k \<le> unat w" "unat w < 2 ^ (k + 1)" for w :: u64
  proof -
    have "unat w div 2 ^ k = 1" using that by (intro div_nat_eqI) simp_all
    then have "bit (unat w) k" by (simp add: bit_iff_odd)
    then show ?thesis by (simp add: bit_unsigned_iff)
  qed
  have "unat C = 2 ^ k"
  proof (rule ccontr)
    assume "unat C \<noteq> 2 ^ k"
    moreover have "unat (C - 1) = unat C - 1" using C(1) by (simp add: unat_minus_one)
    ultimately have "bit (C AND (C - 1)) k" using top k(1,2) by (auto simp: bit_and_iff)
    then show False using C(2) by simp
  qed
  then have "C = 2 ^ k" using unat_two_power [OF k(3)] by (simp add: word_unat_eq_iff)
  with k(3) that show ?thesis by blast
qed

lemma new_ring_ok:
  assumes "capacity_ok C"
  shows "ring_inv (SpscRing C z)" "items (SpscRing C z) = []" "dropped_messages (SpscRing C z) = 0"
    "ring_cap (SpscRing C z) = unat C"
proof -
  obtain k where k: "C = 2 ^ k" "k < 64" using assms by (rule capacity_ok_power)
  show "ring_inv (SpscRing C z)" "items (SpscRing C z) = []" "dropped_messages (SpscRing C z) = 0"
    "ring_cap (SpscRing C z) = unat C"
    using new_ring [OF k(2), of z] unat_two_power [OF k(2)] by (simp_all add: k(1))
qed

section \<open>Interleaved execution\<close>

text \<open>
  Where each thread is inside its call; the arguments are the locals it holds. \<open>PGotR v w r\<close>
  is before the fullness test, \<open>PWrote v w\<close> between the slot write and the release store;
  \<open>CGotW r w\<close> is before the emptiness test, \<open>CCopied r v\<close> between the slot read and the
  release store. \<open>cv\<close> and \<open>pv\<close> count the pushes the consumer and the pops the producer
  has seen; \<open>pushed\<close> and \<open>popped\<close> record the completed calls.
\<close>

datatype 'a producer = PIdle | PGotW 'a u64 | PGotR 'a u64 u64 | PWrote 'a u64
datatype 'a consumer = CIdle | CGotR u64 | CGotW u64 u64 | CCopied u64 'a

record 'a conc =
  cr_ring :: "'a ring"
  cr_prod :: "'a producer"
  cr_cons :: "'a consumer"
  pv :: nat
  cv :: nat
  pushed :: "'a list"
  popped :: "'a list"

inductive ring_step :: "'a conc \<Rightarrow> 'a conc \<Rightarrow> bool" where
  p_load_w: "cr_prod S = PIdle \<Longrightarrow>
    ring_step S (S\<lparr>cr_prod := PGotW v (rg_write_idx (cr_ring S))\<rparr>)"
| p_load_r: "cr_prod S = PGotW v w \<Longrightarrow> pv S \<le> n \<Longrightarrow> n \<le> length (popped S) \<Longrightarrow>
    ring_step S (S\<lparr>cr_prod := PGotR v w (of_nat n), pv := n\<rparr>)"
| p_drop: "cr_prod S = PGotR v w r \<Longrightarrow> w - r \<ge> rg_capacity (cr_ring S) \<Longrightarrow>
    ring_step S (S\<lparr>cr_prod := PIdle,
      cr_ring := (cr_ring S)\<lparr>rg_dropped := rg_dropped (cr_ring S) + 1\<rparr>\<rparr>)"
| p_store: "cr_prod S = PGotR v w r \<Longrightarrow> \<not> w - r \<ge> rg_capacity (cr_ring S) \<Longrightarrow>
    upd_opt (rg_storage (cr_ring S)) (unat (w AND kMask (cr_ring S))) v = Some st \<Longrightarrow>
    ring_step S (S\<lparr>cr_prod := PWrote v w, cr_ring := (cr_ring S)\<lparr>rg_storage := st\<rparr>\<rparr>)"
| p_publish: "cr_prod S = PWrote v w \<Longrightarrow>
    ring_step S (S\<lparr>cr_prod := PIdle, cr_ring := (cr_ring S)\<lparr>rg_write_idx := w + 1\<rparr>,
      pushed := pushed S @ [v]\<rparr>)"
| c_load_r: "cr_cons S = CIdle \<Longrightarrow>
    ring_step S (S\<lparr>cr_cons := CGotR (rg_read_idx (cr_ring S))\<rparr>)"
| c_load_w: "cr_cons S = CGotR r \<Longrightarrow> cv S \<le> n \<Longrightarrow> n \<le> length (pushed S) \<Longrightarrow>
    ring_step S (S\<lparr>cr_cons := CGotW r (of_nat n), cv := n\<rparr>)"
| c_empty: "cr_cons S = CGotW r w \<Longrightarrow> r = w \<Longrightarrow> ring_step S (S\<lparr>cr_cons := CIdle\<rparr>)"
| c_copy: "cr_cons S = CGotW r w \<Longrightarrow> r \<noteq> w \<Longrightarrow>
    nth_opt (rg_storage (cr_ring S)) (unat (r AND kMask (cr_ring S))) = Some v \<Longrightarrow>
    ring_step S (S\<lparr>cr_cons := CCopied r v\<rparr>)"
| c_release: "cr_cons S = CCopied r v \<Longrightarrow>
    ring_step S (S\<lparr>cr_cons := CIdle, cr_ring := (cr_ring S)\<lparr>rg_read_idx := r + 1\<rparr>,
      popped := popped S @ [v]\<rparr>)"

definition conc_init :: "u64 \<Rightarrow> 'a \<Rightarrow> 'a conc" where
  "conc_init C z = \<lparr>cr_ring = SpscRing C z, cr_prod = PIdle, cr_cons = CIdle, pv = 0, cv = 0,
     pushed = [], popped = []\<rparr>"

inductive conc_reachable :: "u64 \<Rightarrow> 'a \<Rightarrow> 'a conc \<Rightarrow> bool" for C z where
  conc_start: "conc_reachable C z (conc_init C z)"
| conc_step: "conc_reachable C z S \<Longrightarrow> ring_step S S' \<Longrightarrow> conc_reachable C z S'"

text \<open>The invariant; \<open>k\<close> is the logarithm of the capacity.\<close>

fun prod_at :: "nat \<Rightarrow> nat \<Rightarrow> nat \<Rightarrow> 'a list \<Rightarrow> 'a producer \<Rightarrow> bool" where
  "prod_at k np seen st PIdle = True"
| "prod_at k np seen st (PGotW v w) = (w = of_nat np)"
| "prod_at k np seen st (PGotR v w r) = (w = of_nat np \<and> r = of_nat seen)"
| "prod_at k np seen st (PWrote v w) = (w = of_nat np \<and> np < seen + 2 ^ k \<and> st ! (np mod 2 ^ k) = v)"

fun cons_at :: "nat \<Rightarrow> nat \<Rightarrow> 'a list \<Rightarrow> 'a consumer \<Rightarrow> bool" where
  "cons_at nc seen xs CIdle = True"
| "cons_at nc seen xs (CGotR r) = (r = of_nat nc)"
| "cons_at nc seen xs (CGotW r w) = (r = of_nat nc \<and> w = of_nat seen)"
| "cons_at nc seen xs (CCopied r v) = (r = of_nat nc \<and> nc < seen \<and> v = xs ! nc)"

definition prod_inv :: "nat \<Rightarrow> 'a conc \<Rightarrow> bool" where
  "prod_inv k S \<longleftrightarrow> prod_at k (length (pushed S)) (pv S) (rg_storage (cr_ring S)) (cr_prod S)"

definition cons_inv :: "'a conc \<Rightarrow> bool" where
  "cons_inv S \<longleftrightarrow> cons_at (length (popped S)) (cv S) (pushed S) (cr_cons S)"

lemma cons_at_append: "cons_at nc seen xs c \<Longrightarrow> seen \<le> length xs \<Longrightarrow> cons_at nc seen (xs @ [v]) c"
  by (cases c) (auto simp: nth_append)

definition conc_inv :: "nat \<Rightarrow> 'a conc \<Rightarrow> bool" where
  "conc_inv k S \<longleftrightarrow> ring_shape k (cr_ring S)
     \<and> rg_write_idx (cr_ring S) = of_nat (length (pushed S))
     \<and> rg_read_idx (cr_ring S) = of_nat (length (popped S))
     \<and> pv S \<le> length (popped S) \<and> length (popped S) \<le> cv S \<and> cv S \<le> length (pushed S)
     \<and> length (pushed S) \<le> pv S + 2 ^ k
     \<and> popped S = take (length (popped S)) (pushed S)
     \<and> (\<forall>i. length (popped S) \<le> i \<and> i < length (pushed S)
          \<longrightarrow> rg_storage (cr_ring S) ! (i mod 2 ^ k) = pushed S ! i)
     \<and> prod_inv k S \<and> cons_inv S"

lemmas conc_defs = conc_inv_def prod_inv_def cons_inv_def

lemma index_diff:
  assumes "n \<le> m" "m \<le> n + 2 ^ k" "k < 64"
  shows "unat (of_nat m - of_nat n :: u64) = m - n"
proof -
  have "(2::nat) ^ k < 2 ^ 64" using assms(3) by (rule power_strict_increasing) simp
  then have "m - n < 2 ^ 64" using assms(2) by linarith
  moreover have "(of_nat m - of_nat n :: u64) = of_nat (m - n)" using assms(1) by (simp add: of_nat_diff)
  ultimately show ?thesis using unat_of_nat64 [of "m - n"] by simp
qed

lemma index_eq:
  assumes "n \<le> m" "m \<le> n + 2 ^ k" "k < 64"
  shows "(of_nat n :: u64) = of_nat m \<longleftrightarrow> n = m"
proof
  assume "(of_nat n :: u64) = of_nat m"
  then have "unat (of_nat m - of_nat n :: u64) = 0" by simp
  with index_diff [OF assms] assms(1) show "n = m" by simp
qed simp

lemma index_slot: "ring_shape k R \<Longrightarrow> unat (of_nat n AND kMask R) = n mod 2 ^ k"
  using mod_wrap [of k 0 n] by (simp add: mask_slot) (simp add: ring_shape_def)

lemma mod_neq:
  assumes "i < j" "j < i + (n::nat)"
  shows "i mod n \<noteq> j mod n"
proof
  assume "i mod n = j mod n"
  then have "n dvd j - i" using assms(1) by (metis mod_eq_dvd_iff_nat nat_less_le)
  moreover have "0 < j - i" "j - i < n" using assms by auto
  ultimately show False using dvd_imp_le by fastforce
qed

lemma conc_invD:
  assumes "conc_inv k S"
  shows "ring_shape k (cr_ring S)" "rg_write_idx (cr_ring S) = of_nat (length (pushed S))"
    "rg_read_idx (cr_ring S) = of_nat (length (popped S))"
    "pv S \<le> length (popped S)" "length (popped S) \<le> cv S" "cv S \<le> length (pushed S)"
    "length (pushed S) \<le> pv S + 2 ^ k" "popped S = take (length (popped S)) (pushed S)"
    "length (popped S) \<le> i \<Longrightarrow> i < length (pushed S) \<Longrightarrow>
       rg_storage (cr_ring S) ! (i mod 2 ^ k) = pushed S ! i"
    "prod_inv k S" "cons_inv S"
  using assms by (auto simp: conc_inv_def)

lemma ring_shape_upd [simp]:
  "ring_shape k (R\<lparr>rg_dropped := d\<rparr>) = ring_shape k R"
  "ring_shape k (R\<lparr>rg_write_idx := w\<rparr>) = ring_shape k R"
  "ring_shape k (R\<lparr>rg_read_idx := r\<rparr>) = ring_shape k R"
  by (simp_all add: ring_shape_def)

text \<open>The fullness test reads the true occupancy the producer knows of.\<close>

lemma room_test:
  assumes "conc_inv k S" "cr_prod S = PGotR v w r"
  shows "w - r \<ge> rg_capacity (cr_ring S) \<longleftrightarrow> length (pushed S) \<ge> pv S + 2 ^ k"
proof -
  note I = conc_invD [OF assms(1)]
  have p: "w = of_nat (length (pushed S))" "r = of_nat (pv S)"
    using I(10) assms(2) by (auto simp: prod_inv_def)
  have k: "k < 64" "unat (rg_capacity (cr_ring S)) = 2 ^ k"
    using I(1) unat_two_power by (auto simp: ring_shape_def)
  have "unat (w - r) = length (pushed S) - pv S"
    unfolding p using index_diff [of "pv S" "length (pushed S)" k] I(4-7) k(1) by simp
  then show ?thesis unfolding word_le_nat_alt k(2) using I(4-7) by linarith
qed

lemma store_inv:
  assumes inv: "conc_inv k S" and p: "cr_prod S = PGotR v w r"
    and room: "\<not> w - r \<ge> rg_capacity (cr_ring S)"
    and st: "upd_opt (rg_storage (cr_ring S)) (unat (w AND kMask (cr_ring S))) v = Some st"
  shows "conc_inv k (S\<lparr>cr_prod := PWrote v w, cr_ring := (cr_ring S)\<lparr>rg_storage := st\<rparr>\<rparr>)"
proof -
  note I = conc_invD [OF inv]
  let ?n = "length (pushed S)" and ?R = "cr_ring S"
  have w: "w = of_nat ?n" using I(10) p by (simp add: prod_inv_def)
  have lt: "?n < pv S + 2 ^ k" using room_test [OF inv p] room by simp
  have s: "st = (rg_storage ?R)[?n mod 2 ^ k := v]"
    using st index_slot [OF I(1), of ?n] w by (auto simp: upd_opt_eq_Some)
  have len: "?n mod 2 ^ k < length (rg_storage ?R)" using I(1) by (simp add: ring_shape_def)
  have old: "st ! (i mod 2 ^ k) = pushed S ! i" if i: "length (popped S) \<le> i" "i < ?n" for i
  proof -
    have "i mod 2 ^ k \<noteq> ?n mod 2 ^ k" using mod_neq [of i ?n "2 ^ k"] i lt I(4) by linarith
    then show ?thesis using I(9) [OF i] s by simp
  qed
  have "ring_shape k (?R\<lparr>rg_storage := st\<rparr>)" using I(1) s by (simp add: ring_shape_def)
  moreover have "st ! (?n mod 2 ^ k) = v" using s len by simp
  ultimately show ?thesis
    using I(2-8,11) old w lt by (simp add: conc_inv_def prod_inv_def cons_inv_def)
qed

lemma publish_inv:
  assumes inv: "conc_inv k S" and p: "cr_prod S = PWrote v w"
  shows "conc_inv k (S\<lparr>cr_prod := PIdle, cr_ring := (cr_ring S)\<lparr>rg_write_idx := w + 1\<rparr>,
      pushed := pushed S @ [v]\<rparr>)"
proof -
  note I = conc_invD [OF inv]
  let ?n = "length (pushed S)" and ?R = "cr_ring S"
  have w: "w = of_nat ?n" "?n < pv S + 2 ^ k" "rg_storage ?R ! (?n mod 2 ^ k) = v"
    using I(10) p by (auto simp: prod_inv_def)
  have st: "rg_storage ?R ! (i mod 2 ^ k) = (pushed S @ [v]) ! i"
    if "length (popped S) \<le> i" "i < Suc ?n" for i
    using that I(9) [of i] w(3) by (cases "i = ?n") (auto simp: nth_append)
  have c: "cons_inv (S\<lparr>cr_prod := PIdle, cr_ring := ?R\<lparr>rg_write_idx := w + 1\<rparr>, pushed := pushed S @ [v]\<rparr>)"
    using I(6,11) cons_at_append by (simp add: cons_inv_def)
  have t: "popped S = take (length (popped S)) (pushed S @ [v])"
    using I(5,6,8) by simp
  show ?thesis
    using I(1,3-6) w(1,2) st c t by (simp add: conc_inv_def prod_inv_def add.commute)
qed

lemma load_w_inv:
  assumes inv: "conc_inv k S" and c: "cr_cons S = CGotR r" and n: "cv S \<le> n" "n \<le> length (pushed S)"
  shows "conc_inv k (S\<lparr>cr_cons := CGotW r (of_nat n), cv := n\<rparr>)"
  using conc_invD(1-8,10,11) [OF inv] conc_invD(9) [OF inv] c n
  by (auto simp: conc_inv_def prod_inv_def cons_inv_def)

lemma load_r_inv:
  assumes inv: "conc_inv k S" and p: "cr_prod S = PGotW v w" and n: "pv S \<le> n" "n \<le> length (popped S)"
  shows "conc_inv k (S\<lparr>cr_prod := PGotR v w (of_nat n), pv := n\<rparr>)"
  using conc_invD(1-8,10,11) [OF inv] conc_invD(9) [OF inv] p n
  by (auto simp: conc_inv_def prod_inv_def cons_inv_def)

lemma copy_inv:
  assumes inv: "conc_inv k S" and c: "cr_cons S = CGotW r w" "r \<noteq> w"
    and v: "nth_opt (rg_storage (cr_ring S)) (unat (r AND kMask (cr_ring S))) = Some v"
  shows "conc_inv k (S\<lparr>cr_cons := CCopied r v\<rparr>)"
proof -
  note I = conc_invD [OF inv]
  have r: "r = of_nat (length (popped S))" "w = of_nat (cv S)" using I(11) c by (auto simp: cons_inv_def)
  then have "length (popped S) < cv S" using c(2) I(5) by (cases "length (popped S) = cv S") auto
  moreover from this have "v = pushed S ! length (popped S)"
    using v r(1) index_slot [OF I(1), of "length (popped S)"] I(6) I(9) [of "length (popped S)"]
    by (auto simp: nth_opt_eq_Some)
  ultimately show ?thesis using I(1-8,10) I(9) r(1) by (simp add: conc_inv_def prod_inv_def cons_inv_def)
qed

lemma release_inv:
  assumes inv: "conc_inv k S" and c: "cr_cons S = CCopied r v"
  shows "conc_inv k (S\<lparr>cr_cons := CIdle, cr_ring := (cr_ring S)\<lparr>rg_read_idx := r + 1\<rparr>,
      popped := popped S @ [v]\<rparr>)"
proof -
  note I = conc_invD [OF inv]
  have r: "r = of_nat (length (popped S))" "length (popped S) < cv S" "v = pushed S ! length (popped S)"
    using I(11) c by (auto simp: cons_inv_def)
  have t: "popped S @ [v] = take (Suc (length (popped S))) (pushed S)"
    using I(8) r(2,3) I(6) by (simp add: take_Suc_conv_app_nth)
  show ?thesis
    using I(1,2,4,6,7,10) I(9) r t by (simp add: conc_inv_def prod_inv_def cons_inv_def add.commute)
qed

lemma conc_inv_step: "ring_step S S' \<Longrightarrow> conc_inv k S \<Longrightarrow> conc_inv k S'"
proof (induction rule: ring_step.induct)
  case (p_load_w S v)
  then show ?case by (simp add: conc_inv_def prod_inv_def cons_inv_def)
next
  case (p_load_r S v w n)
  then show ?case by (simp add: load_r_inv)
next
  case (p_drop S v w r)
  then show ?case by (simp add: conc_inv_def prod_inv_def cons_inv_def)
next
  case (p_store S v w r st)
  show ?case by (rule store_inv [OF p_store(4,1-3)])
next
  case (p_publish S v w)
  then show ?case by (simp add: publish_inv)
next
  case (c_load_r S)
  then show ?case by (simp add: conc_inv_def prod_inv_def cons_inv_def)
next
  case (c_load_w S r n)
  then show ?case by (simp add: load_w_inv)
next
  case (c_empty S r w)
  then show ?case by (simp add: conc_inv_def prod_inv_def cons_inv_def)
next
  case (c_copy S r w v)
  show ?case by (rule copy_inv [OF c_copy(4,1-3)])
next
  case (c_release S r v)
  then show ?case by (simp add: release_inv)
qed

lemma reachable_conc_inv:
  assumes "conc_reachable (2 ^ k) z S" "k < 64"
  shows "conc_inv k S"
  using assms(1)
proof (induction rule: conc_reachable.induct)
  case conc_start
  show ?case
    using assms(2) unat_two_power [of k]
    by (simp add: conc_init_def SpscRing_def conc_inv_def prod_inv_def cons_inv_def ring_shape_def)
next
  case (conc_step S S')
  then show ?case using conc_inv_step by blast
qed

section \<open>Correctness\<close>

text \<open>C18: called from one thread, the ring is a bounded FIFO that drops the newest element when
  full. From any well-formed ring, whatever its indices (so also across their wrap at 2^64), every
  script of pushes and pops gets the answers of a plain list bounded by the capacity, leaves the
  list's items in the ring, and counts each refused push once.\<close>

theorem ring_is_bounded_fifo:
  assumes "ring_inv R"
  shows "\<exists>R'. q_run TryPush TryPop ops R = Some (fst (q_spec (ring_cap R) ops (items R)), R')
    \<and> ring_inv R' \<and> items R' = snd (q_spec (ring_cap R) ops (items R))
    \<and> dropped_messages R' = dropped_messages R + of_nat (drops (fst (q_spec (ring_cap R) ops (items R))))"
  using rq.run_fifo [OF assms, of ops] by blast

theorem ring_is_bounded_fifo_witness:
  "\<exists>R'. q_run TryPush TryPop [QPush 5, QPush 6, QPush 7, QPop, QPop, QPop]
      \<lparr>rg_capacity = 2, rg_write_idx = - 1, rg_read_idx = - 1, rg_dropped = 0, rg_storage = [0, 0]\<rparr>
    = Some ([Pushed True, Pushed True, Pushed False, Popped (Some 5), Popped (Some 6), Popped (None :: nat option)], R')
    \<and> items R' = [] \<and> dropped_messages R' = 1"
proof -
  let ?R = "\<lparr>rg_capacity = 2, rg_write_idx = - 1, rg_read_idx = - 1, rg_dropped = 0, rg_storage = [0, 0 :: nat]\<rparr>"
  have "ring_shape 1 ?R" by (simp add: ring_shape_def)
  then have "ring_inv ?R" unfolding ring_inv_def by (intro exI [of _ 1]) simp
  let ?ops = "[QPush (5 :: nat), QPush 6, QPush 7, QPop, QPop, QPop]"
  let ?as = "[Pushed True, Pushed True, Pushed False, Popped (Some 5), Popped (Some 6), Popped (None :: nat option)]"
  have "ring_cap ?R = 2" "items ?R = []" "dropped_messages ?R = 0"
    by (simp_all add: items_def size_approx_def ring_cap_def dropped_messages_def)
  moreover have "q_spec 2 ?ops [] = (?as, [])" by simp
  ultimately show ?thesis
    using ring_is_bounded_fifo [OF \<open>ring_inv ?R\<close>, of ?ops] by (auto simp del: q_run.simps q_spec.simps)
qed

text \<open>C15: under any interleaving of one producer and one consumer, and however stale their acquire
  loads are, the consumer's elements are a prefix of the pushed ones, in order, with nothing lost,
  duplicated or torn; what is pushed and not yet popped sits unharmed in the ring's slots, and is
  never more than the capacity. It holds for every capacity the static assertions admit.\<close>

theorem ring_concurrent_fifo:
  assumes "conc_reachable C z S" "capacity_ok C"
  shows "pushed S = popped S @ map (\<lambda>i. rg_storage (cr_ring S) ! (i mod unat C))
        [length (popped S)..<length (pushed S)]
    \<and> length (pushed S) - length (popped S) \<le> unat C"
proof -
  obtain k where k: "C = 2 ^ k" "k < 64" using assms(2) by (rule capacity_ok_power)
  note I = conc_invD [OF reachable_conc_inv [OF assms(1) [unfolded k(1)] k(2)]]
  have "drop (length (popped S)) (pushed S)
      = map (\<lambda>i. rg_storage (cr_ring S) ! (i mod 2 ^ k)) [length (popped S)..<length (pushed S)]"
    by (rule nth_equalityI) (simp_all add: I(9))
  moreover have "pushed S = take (length (popped S)) (pushed S) @ drop (length (popped S)) (pushed S)" by simp
  ultimately show ?thesis using I(4,7,8) by (simp add: k(1) unat_two_power [OF k(2)])
qed

text \<open>C16: no data race on a slot. When the producer has passed the fullness test and is about to
  write (or has written and not yet published) while the consumer has passed the emptiness test and
  is about to read (or has read and not yet released), the two are at different slots; and neither
  slot access is out of range.\<close>

theorem ring_no_data_race:
  assumes "conc_reachable C z S" "capacity_ok C"
    and "(cr_prod S = PGotR v w r \<and> \<not> w - r \<ge> rg_capacity (cr_ring S)) \<or> cr_prod S = PWrote v w"
    and "(cr_cons S = CGotW r' w' \<and> r' \<noteq> w') \<or> cr_cons S = CCopied r' v'"
  shows "unat (w AND kMask (cr_ring S)) \<noteq> unat (r' AND kMask (cr_ring S))
    \<and> unat (w AND kMask (cr_ring S)) < length (rg_storage (cr_ring S))
    \<and> unat (r' AND kMask (cr_ring S)) < length (rg_storage (cr_ring S))"
proof -
  obtain k where k: "C = 2 ^ k" "k < 64" using assms(2) by (rule capacity_ok_power)
  note inv = reachable_conc_inv [OF assms(1) [unfolded k(1)] k(2)]
  note I = conc_invD [OF inv]
  have w: "w = of_nat (length (pushed S))" "length (pushed S) < pv S + 2 ^ k"
    using assms(3) I(10) room_test [OF inv] by (auto simp: prod_inv_def not_le)
  have r: "r' = of_nat (length (popped S))" "length (popped S) < cv S"
    using assms(4) I(5,11) by (auto simp: cons_inv_def order_less_le)
  have "length (popped S) mod 2 ^ k \<noteq> length (pushed S) mod 2 ^ k"
    using mod_neq [of "length (popped S)" "length (pushed S)" "2 ^ k"] w(2) r(2) I(4,6) by linarith
  moreover have "unat (w AND kMask (cr_ring S)) = length (pushed S) mod 2 ^ k"
    unfolding w(1) by (rule index_slot [OF I(1)])
  moreover have "unat (r' AND kMask (cr_ring S)) = length (popped S) mod 2 ^ k"
    unfolding r(1) by (rule index_slot [OF I(1)])
  ultimately show ?thesis
    using mask_slot_less [OF I(1), of w] mask_slot_less [OF I(1), of r'] by simp
qed

text \<open>How many more steps of its own a call needs at most.\<close>

primrec push_left :: "'a producer \<Rightarrow> nat" where
  "push_left PIdle = 0" | "push_left (PGotW v w) = 3" | "push_left (PGotR v w r) = 2" | "push_left (PWrote v w) = 1"

primrec pop_left :: "'a consumer \<Rightarrow> nat" where
  "pop_left CIdle = 0" | "pop_left (CGotR r) = 3" | "pop_left (CGotW r w) = 2" | "pop_left (CCopied r v) = 1"

lemma producer_moves:
  assumes "conc_inv k S"
  shows "\<exists>S'. ring_step S S' \<and> cr_cons S' = cr_cons S \<and> cr_prod S' \<noteq> cr_prod S"
proof (cases "cr_prod S")
  case PIdle
  then show ?thesis using p_load_w [OF PIdle, of undefined] by force
next
  case (PGotW v w)
  then show ?thesis using p_load_r [OF PGotW order_refl conc_invD(4) [OF assms]] by force
next
  case (PGotR v w r)
  note slot = mask_slot_less [OF conc_invD(1) [OF assms], of w]
  show ?thesis
  proof (cases "w - r \<ge> rg_capacity (cr_ring S)")
    case True
    then show ?thesis using p_drop [OF PGotR True] PGotR by force
  next
    case False
    have "upd_opt (rg_storage (cr_ring S)) (unat (w AND kMask (cr_ring S))) v
        = Some ((rg_storage (cr_ring S))[unat (w AND kMask (cr_ring S)) := v])"
      using slot by (simp add: upd_opt_def)
    from p_store [OF PGotR False this] PGotR show ?thesis by force
  qed
next
  case (PWrote v w)
  then show ?thesis using p_publish [OF PWrote] by force
qed

lemma consumer_moves:
  assumes "conc_inv k S"
  shows "\<exists>S'. ring_step S S' \<and> cr_prod S' = cr_prod S \<and> cr_cons S' \<noteq> cr_cons S"
proof (cases "cr_cons S")
  case CIdle
  then show ?thesis using c_load_r [OF CIdle] by force
next
  case (CGotR r)
  then show ?thesis using c_load_w [OF CGotR order_refl conc_invD(6) [OF assms]] by force
next
  case (CGotW r w)
  note slot = mask_slot_less [OF conc_invD(1) [OF assms], of r]
  show ?thesis
  proof (cases "r = w")
    case True
    then show ?thesis using c_empty [OF CGotW True] CGotW by force
  next
    case False
    have "nth_opt (rg_storage (cr_ring S)) (unat (r AND kMask (cr_ring S)))
        = Some (rg_storage (cr_ring S) ! unat (r AND kMask (cr_ring S)))"
      using slot by (simp add: nth_opt_eq_Some)
    from c_copy [OF CGotW False this] CGotW show ?thesis by force
  qed
next
  case (CCopied r v)
  then show ?thesis using c_release [OF CCopied] by force
qed

inductive_cases ring_stepE: "ring_step S S'"

text \<open>C17: the ring is wait-free. In every reachable state each thread can make its next step, whatever
  the other is doing, and also when the ring is full or empty; a step belongs to one thread; and each
  step of a call in progress brings it nearer to its end, which it reaches in at most three of its own
  steps after the first: there is no retry and no waiting for the other side.\<close>

theorem ring_wait_free:
  assumes "conc_reachable C z S" "capacity_ok C"
  shows "(\<exists>S'. ring_step S S' \<and> cr_cons S' = cr_cons S \<and> cr_prod S' \<noteq> cr_prod S)
    \<and> (\<exists>S'. ring_step S S' \<and> cr_prod S' = cr_prod S \<and> cr_cons S' \<noteq> cr_cons S)
    \<and> (\<forall>S'. ring_step S S' \<longrightarrow>
         cr_prod S' = cr_prod S \<and> (cr_cons S = CIdle \<and> pop_left (cr_cons S') = 3 \<or> pop_left (cr_cons S') < pop_left (cr_cons S))
       \<or> cr_cons S' = cr_cons S \<and> (cr_prod S = PIdle \<and> push_left (cr_prod S') = 3 \<or> push_left (cr_prod S') < push_left (cr_prod S)))"
proof -
  obtain k where k: "C = 2 ^ k" "k < 64" using assms(2) by (rule capacity_ok_power)
  note inv = reachable_conc_inv [OF assms(1) [unfolded k(1)] k(2)]
  have "cr_prod S' = cr_prod S \<and> (cr_cons S = CIdle \<and> pop_left (cr_cons S') = 3 \<or> pop_left (cr_cons S') < pop_left (cr_cons S))
      \<or> cr_cons S' = cr_cons S \<and> (cr_prod S = PIdle \<and> push_left (cr_prod S') = 3 \<or> push_left (cr_prod S') < push_left (cr_prod S))"
    if "ring_step S S'" for S'
    using that by (elim ring_stepE) simp_all
  with producer_moves [OF inv] consumer_moves [OF inv] show ?thesis by blast
qed

text \<open>A run for the witnesses: the producer stores a second element while the consumer reads the first.\<close>

lemma small_run:
  "\<exists>S. conc_reachable 2 (0 :: nat) S \<and> cr_prod S = PGotR 8 1 0 \<and> cr_cons S = CGotW 0 1
    \<and> rg_capacity (cr_ring S) = 2 \<and> pushed S = [7] \<and> popped S = []"
proof -
  let ?c = "\<lambda>w d st p c v m. \<lparr>cr_ring = \<lparr>rg_capacity = 2, rg_write_idx = w, rg_read_idx = 0, rg_dropped = d,
    rg_storage = st\<rparr>, cr_prod = p, cr_cons = c, pv = 0, cv = v, pushed = m, popped = []\<rparr>"
  have two: "replicate 2 x = [x, x]" for x :: nat by (simp add: numeral_2_eq_2)
  have 0: "conc_reachable 2 (0 :: nat) (?c 0 0 [0, 0] PIdle CIdle 0 [])"
    using conc_start [of 2 "0 :: nat"] two by (simp add: conc_init_def SpscRing_def)
  have 1: "conc_reachable 2 (0 :: nat) (?c 0 0 [0, 0] (PGotW 7 0) CIdle 0 [])"
    using conc_step [OF 0 p_load_w [of _ 7]] by simp
  have 2: "conc_reachable 2 (0 :: nat) (?c 0 0 [0, 0] (PGotR 7 0 0) CIdle 0 [])"
    using conc_step [OF 1 p_load_r [of _ 7 0 0]] by simp
  have 3: "conc_reachable 2 (0 :: nat) (?c 0 0 [7, 0] (PWrote 7 0) CIdle 0 [])"
    using conc_step [OF 2 p_store [of _ 7 0 0 "[7, 0]"]] by (simp add: kMask_def)
  have 4: "conc_reachable 2 (0 :: nat) (?c 1 0 [7, 0] PIdle CIdle 0 [7])"
    using conc_step [OF 3 p_publish [of _ 7 0]] by simp
  have 5: "conc_reachable 2 (0 :: nat) (?c 1 0 [7, 0] (PGotW 8 1) CIdle 0 [7])"
    using conc_step [OF 4 p_load_w [of _ 8]] by simp
  have 6: "conc_reachable 2 (0 :: nat) (?c 1 0 [7, 0] (PGotR 8 1 0) CIdle 0 [7])"
    using conc_step [OF 5 p_load_r [of _ 8 1 0]] by simp
  have 7: "conc_reachable 2 (0 :: nat) (?c 1 0 [7, 0] (PGotR 8 1 0) (CGotR 0) 0 [7])"
    using conc_step [OF 6 c_load_r] by simp
  have 8: "conc_reachable 2 (0 :: nat) (?c 1 0 [7, 0] (PGotR 8 1 0) (CGotW 0 1) 1 [7])"
    using conc_step [OF 7 c_load_w [of _ 0 1]] by simp
  show ?thesis by (rule exI, rule conjI, rule 8) simp
qed

theorem ring_concurrent_fifo_witness:
  "\<exists>S. conc_reachable 2 (0 :: nat) S \<and> pushed S = [7]
     \<and> [7] = popped S @ map (\<lambda>i. rg_storage (cr_ring S) ! (i mod 2)) [0..<1]"
proof -
  obtain S where S: "conc_reachable 2 (0 :: nat) S" "pushed S = [7]" "popped S = []"
    using small_run by blast
  from ring_concurrent_fifo [OF S(1)] S show ?thesis by (intro exI [of _ S]) (simp add: capacity_ok_def)
qed

theorem ring_no_data_race_witness:
  "\<exists>S. conc_reachable 2 (0 :: nat) S \<and> cr_prod S = PGotR 8 1 0 \<and> cr_cons S = CGotW 0 1
     \<and> unat (1 AND kMask (cr_ring S)) \<noteq> unat (0 AND kMask (cr_ring S))"
proof -
  obtain S where S: "conc_reachable 2 (0 :: nat) S" "cr_prod S = PGotR 8 1 0" "cr_cons S = CGotW 0 1"
    "rg_capacity (cr_ring S) = 2"
    using small_run by blast
  from ring_no_data_race [OF S(1), of 8 1 0 0 1] S show ?thesis
    by (intro exI [of _ S]) (simp add: capacity_ok_def word_le_nat_alt)
qed

theorem ring_wait_free_witness:
  "\<exists>S. conc_reachable 2 (0 :: nat) S \<and> cr_prod S = PGotR 8 1 0
     \<and> (\<exists>S'. ring_step S S' \<and> cr_cons S' = cr_cons S \<and> cr_prod S' \<noteq> cr_prod S)"
proof -
  obtain S where S: "conc_reachable 2 (0 :: nat) S" "cr_prod S = PGotR 8 1 0" using small_run by blast
  from ring_wait_free [OF S(1)] S show ?thesis by (intro exI [of _ S]) (simp add: capacity_ok_def)
qed

end
