(* ===== verification/Slab_Allocator.thy ===== *)
theory Slab_Allocator imports Prelude begin

text \<open>
  The fixed-size block allocator of \<^verbatim>\<open>cpp/core/slab_allocator.hpp\<close>.

  A slot is a datatype: \<open>FreeNode\<close> when its storage holds the intrusive free-list link,
  \<open>Raw\<close> after \<^verbatim>\<open>Allocate\<close> and before an object is stored in it,
  \<open>Obj\<close> afterwards. A \<^verbatim>\<open>T*\<close> into the pool is the slot's number;
  \<open>slot_address\<close> gives its address, and \<open>Owns\<close> the address test of the code.
  Reading or writing an object through a dead slot is \<open>None\<close>, as is a failed
  \<^verbatim>\<open>assert\<close>. The two locales state what a pool promises its clients; the
  interpretation at the end discharges them for this allocator.
\<close>

section \<open>State and operations\<close>

datatype 'a slot = FreeNode "ptr option" | Raw | Obj 'a

record 'a slab =
  sl_capacity :: nat
  sl_storage :: "'a slot list"
  sl_free_head :: "ptr option"
  sl_in_use :: nat

text \<open>\<^verbatim>\<open>kSlotSize\<close> rounds \<^verbatim>\<open>sizeof(T)\<close> up to whole cache lines with the
  bit trick of the source.\<close>

definition kCacheLine :: u64 where "kCacheLine = 64"

definition kSlotSize :: "u64 \<Rightarrow> u64" where
  "kSlotSize szof = (szof + kCacheLine - 1) AND NOT (kCacheLine - 1)"

text \<open>
  The constructor. The buffer has \<^verbatim>\<open>capacity * kSlotSize\<close> bytes, computed in 64 bits, and
  \<open>sl_storage\<close> holds the slots that fit into it whole; threading a slot beyond them is \<open>None\<close>.
\<close>

definition thread_slot :: "nat \<Rightarrow> 'a slab \<Rightarrow> 'a slab option" where
  "thread_slot i s = do {
     st \<leftarrow> upd_opt (sl_storage s) i (FreeNode (sl_free_head s));
     Some (s\<lparr>sl_storage := st, sl_free_head := Some i\<rparr>)
   }"

definition SlabAllocator :: "u64 \<Rightarrow> u64 \<Rightarrow> 'a slab option" where
  "SlabAllocator szof cap =
     (let slots = unat (cap * kSlotSize szof) div unat (kSlotSize szof) in
      for_range 0 (unat cap) thread_slot
        \<lparr>sl_capacity = unat cap, sl_storage = replicate slots Raw, sl_free_head = None, sl_in_use = 0\<rparr>)"

definition Allocate :: "'a slab \<Rightarrow> (ptr option \<times> 'a slab) option" where
  "Allocate s =
     (case sl_free_head s of
        None \<Rightarrow> Some (None, s)
      | Some node \<Rightarrow>
          (case nth_opt (sl_storage s) node of
             Some (FreeNode nxt) \<Rightarrow>
               Some (Some node, s\<lparr>sl_free_head := nxt, sl_in_use := sl_in_use s + 1,
                                 sl_storage := (sl_storage s)[node := Raw]\<rparr>)
           | _ \<Rightarrow> None))"

definition Deallocate :: "ptr option \<Rightarrow> 'a slab \<Rightarrow> 'a slab option" where
  "Deallocate p s =
     (case p of
        None \<Rightarrow> None
      | Some node \<Rightarrow>
          if node < sl_capacity s \<and> sl_in_use s > 0 then
            do {
              st \<leftarrow> upd_opt (sl_storage s) node (FreeNode (sl_free_head s));
              Some (s\<lparr>sl_storage := st, sl_free_head := Some node, sl_in_use := sl_in_use s - 1\<rparr>)
            }
          else None)"

text \<open>Object access through a pointer: \<^verbatim>\<open>*p\<close> and \<^verbatim>\<open>*p = v\<close>.\<close>

definition deref :: "'a slab \<Rightarrow> ptr \<Rightarrow> 'a option" where
  "deref s p = (case nth_opt (sl_storage s) p of Some (Obj v) \<Rightarrow> Some v | _ \<Rightarrow> None)"

definition assign :: "ptr \<Rightarrow> 'a \<Rightarrow> 'a slab \<Rightarrow> 'a slab option" where
  "assign p v s =
     (case nth_opt (sl_storage s) p of
        None \<Rightarrow> None
      | Some (FreeNode _) \<Rightarrow> None
      | _ \<Rightarrow> Some (s\<lparr>sl_storage := (sl_storage s)[p := Obj v]\<rparr>))"

definition New :: "'a \<Rightarrow> 'a slab \<Rightarrow> (ptr option \<times> 'a slab) option" where
  "New v s = do {
     (raw, s1) \<leftarrow> Allocate s;
     case raw of
       None \<Rightarrow> Some (None, s1)
     | Some p \<Rightarrow> do { s2 \<leftarrow> assign p v s1; Some (Some p, s2) }
   }"

definition Delete :: "ptr option \<Rightarrow> 'a slab \<Rightarrow> 'a slab option" where
  "Delete p s = (case p of None \<Rightarrow> Some s | Some _ \<Rightarrow> Deallocate p s)"

definition capacity :: "'a slab \<Rightarrow> nat" where
  "capacity s = sl_capacity s"

definition in_use :: "'a slab \<Rightarrow> nat" where
  "in_use s = sl_in_use s"

definition available :: "'a slab \<Rightarrow> nat" where
  "available s = sl_capacity s - sl_in_use s"

section \<open>Addresses\<close>

text \<open>Addresses are the byte offsets of \<^verbatim>\<open>storage_\<close>.\<close>

definition SlotAt :: "u64 \<Rightarrow> nat \<Rightarrow> nat \<Rightarrow> nat" where
  "SlotAt szof base i = base + i * unat (kSlotSize szof)"

text \<open>\<open>base\<close> is \<open>None\<close> for the null \<^verbatim>\<open>storage_\<close> of an empty pool.\<close>

definition Owns :: "u64 \<Rightarrow> nat option \<Rightarrow> nat \<Rightarrow> nat option \<Rightarrow> bool" where
  "Owns szof base cap p =
     (case (p, base) of
        (Some raw, Some b) \<Rightarrow>
          if raw < b \<or> raw \<ge> b + cap * unat (kSlotSize szof) then False
          else (raw - b) mod unat (kSlotSize szof) = 0
      | _ \<Rightarrow> False)"

section \<open>The pool interface\<close>

text \<open>
  What a client may rely on: allocation hands out a slot that was not live, deallocation gives
  back exactly the slot named, and neither touches another live slot's object.
\<close>

locale allocator =
  fixes alloc :: "'s \<Rightarrow> (ptr option \<times> 's) option"
    and free :: "ptr \<Rightarrow> 's \<Rightarrow> 's option"
    and inv :: "'s \<Rightarrow> bool"
    and live :: "'s \<Rightarrow> ptr set"
    and cap :: "'s \<Rightarrow> nat"
  assumes live_bounded: "inv s \<Longrightarrow> finite (live s) \<and> card (live s) \<le> cap s"
    and alloc_fresh: "inv s \<Longrightarrow> card (live s) < cap s \<Longrightarrow>
      \<exists>p s'. alloc s = Some (Some p, s') \<and> p \<notin> live s \<and> live s' = insert p (live s)
        \<and> inv s' \<and> cap s' = cap s"
    and alloc_full: "inv s \<Longrightarrow> card (live s) = cap s \<Longrightarrow> alloc s = Some (None, s)"
    and free_live: "inv s \<Longrightarrow> p \<in> live s \<Longrightarrow>
      \<exists>s'. free p s = Some s' \<and> live s' = live s - {p} \<and> inv s' \<and> cap s' = cap s"

locale object_pool = allocator alloc free inv live cap
  for alloc :: "'s \<Rightarrow> (ptr option \<times> 's) option" and free inv live cap +
  fixes get :: "'s \<Rightarrow> ptr \<Rightarrow> 'v option"
    and put :: "ptr \<Rightarrow> 'v \<Rightarrow> 's \<Rightarrow> 's option"
  assumes get_live: "inv s \<Longrightarrow> get s p = Some v \<Longrightarrow> p \<in> live s"
    and alloc_frame: "inv s \<Longrightarrow> alloc s = Some (Some p, s') \<Longrightarrow> q \<in> live s \<Longrightarrow> get s' q = get s q"
    and free_frame: "inv s \<Longrightarrow> p \<in> live s \<Longrightarrow> free p s = Some s' \<Longrightarrow> q \<noteq> p \<Longrightarrow> get s' q = get s q"
    and put_live: "inv s \<Longrightarrow> p \<in> live s \<Longrightarrow>
      \<exists>s'. put p v s = Some s' \<and> inv s' \<and> live s' = live s \<and> cap s' = cap s
        \<and> get s' = (get s)(p \<mapsto> v)"


text \<open>
  A client script: allocate, or give back the \<open>k\<close>-th pointer it holds. It frees only what
  it holds, which is the contract \<^verbatim>\<open>Deallocate\<close> states.
\<close>

datatype pool_op = PAlloc | PFree nat

fun pool_run :: "('s \<Rightarrow> (ptr option \<times> 's) option) \<Rightarrow> (ptr \<Rightarrow> 's \<Rightarrow> 's option) \<Rightarrow> pool_op list
    \<Rightarrow> 's \<Rightarrow> ptr list \<Rightarrow> ('s \<times> ptr list) option" where
  "pool_run alloc free [] s held = Some (s, held)"
| "pool_run alloc free (PAlloc # ops) s held =
     (case alloc s of
        None \<Rightarrow> None
      | Some (None, s') \<Rightarrow> pool_run alloc free ops s' held
      | Some (Some p, s') \<Rightarrow> pool_run alloc free ops s' (p # held))"
| "pool_run alloc free (PFree k # ops) s held =
     (if k < length held then
        (case free (held ! k) s of
           None \<Rightarrow> None
         | Some s' \<Rightarrow> pool_run alloc free ops s' (take k held @ drop (Suc k) held))
      else pool_run alloc free ops s held)"

lemma drop_one:
  assumes "distinct xs" "k < length xs"
  shows "distinct (take k xs @ drop (Suc k) xs)"
    and "set (take k xs @ drop (Suc k) xs) = set xs - {xs ! k}"
proof -
  have e: "xs = take k xs @ xs ! k # drop (Suc k) xs"
    using assms(2) by (simp add: id_take_nth_drop)
  have d: "distinct (take k xs @ xs ! k # drop (Suc k) xs)"
    using assms(1) e by simp
  then show "distinct (take k xs @ drop (Suc k) xs)" by auto
  have "set xs = set (take k xs @ xs ! k # drop (Suc k) xs)" using e by simp
  then show "set (take k xs @ drop (Suc k) xs) = set xs - {xs ! k}" using d by auto
qed

context allocator begin

lemma alloc_cases:
  assumes "inv s"
  shows "(\<exists>p s'. alloc s = Some (Some p, s') \<and> p \<notin> live s \<and> live s' = insert p (live s)
        \<and> inv s' \<and> cap s' = cap s) \<or> alloc s = Some (None, s)"
  using live_bounded [OF assms] alloc_fresh [OF assms] alloc_full [OF assms]
  by (cases "card (live s) < cap s") auto

lemma run_safe:
  assumes "inv s" "distinct held" "set held = live s"
  shows "\<exists>s' held'. pool_run alloc free ops s held = Some (s', held') \<and> inv s' \<and> distinct held'
      \<and> set held' = live s' \<and> length held' \<le> cap s"
  using assms
proof (induction ops arbitrary: s held)
  case Nil
  then show ?case using live_bounded [of s] distinct_card [of held] by auto
next
  case (Cons x ops)
  show ?case
  proof (cases x)
    case PAlloc
    from alloc_cases [OF Cons.prems(1)] show ?thesis
    proof
      assume "\<exists>p s'. alloc s = Some (Some p, s') \<and> p \<notin> live s \<and> live s' = insert p (live s)
        \<and> inv s' \<and> cap s' = cap s"
      then obtain p s' where a: "alloc s = Some (Some p, s')" "p \<notin> live s"
        "live s' = insert p (live s)" "inv s'" "cap s' = cap s" by blast
      have "distinct (p # held)" "set (p # held) = live s'" using Cons.prems a by auto
      from Cons.IH [OF a(4) this] a PAlloc show ?thesis by simp
    next
      assume "alloc s = Some (None, s)"
      with Cons.IH [OF Cons.prems] PAlloc show ?thesis by simp
    qed
  next
    case (PFree k)
    show ?thesis
    proof (cases "k < length held")
      case True
      then have "held ! k \<in> live s" using Cons.prems(3) nth_mem by auto
      from free_live [OF Cons.prems(1) this] obtain s' where f: "free (held ! k) s = Some s'"
        "live s' = live s - {held ! k}" "inv s'" "cap s' = cap s" by blast
      have "distinct (take k held @ drop (Suc k) held)"
        "set (take k held @ drop (Suc k) held) = live s'"
        using drop_one [OF Cons.prems(2) True] Cons.prems(3) f(2) by auto
      from Cons.IH [OF f(3) this] f PFree True show ?thesis by simp
    next
      case False
      with Cons.IH [OF Cons.prems] PFree show ?thesis by simp
    qed
  qed
qed

end

section \<open>The invariant of the free list\<close>

fun chain :: "'a slot list \<Rightarrow> ptr option \<Rightarrow> ptr list \<Rightarrow> bool" where
  "chain st h [] = (h = None)"
| "chain st h (p # ps) =
     (h = Some p \<and> p < length st \<and> (case st ! p of FreeNode nxt \<Rightarrow> chain st nxt ps | _ \<Rightarrow> False))"

fun is_free :: "'a slot \<Rightarrow> bool" where
  "is_free (FreeNode _) = True"
| "is_free _ = False"

definition live :: "'a slab \<Rightarrow> ptr set" where
  "live s = {p. p < sl_capacity s \<and> \<not> is_free (sl_storage s ! p)}"

definition free_list :: "'a slab \<Rightarrow> ptr list \<Rightarrow> bool" where
  "free_list s fs \<longleftrightarrow>
     length (sl_storage s) = sl_capacity s \<and> chain (sl_storage s) (sl_free_head s) fs \<and> distinct fs
     \<and> (\<forall>p < sl_capacity s. is_free (sl_storage s ! p) \<longleftrightarrow> p \<in> set fs)
     \<and> sl_in_use s + length fs = sl_capacity s"

definition slab_inv :: "'a slab \<Rightarrow> bool" where
  "slab_inv s \<longleftrightarrow> (\<exists>fs. free_list s fs)"

lemma chain_bound: "chain st h fs \<Longrightarrow> set fs \<subseteq> {..<length st}"
  by (induction fs arbitrary: h) (auto split: slot.splits)

lemma chain_update: "p \<notin> set fs \<Longrightarrow> chain (st[p := x]) h fs = chain st h fs"
  by (induction fs arbitrary: h) (auto split: slot.splits)

lemma card_live:
  assumes "free_list s fs"
  shows "card (live s) = sl_in_use s"
proof -
  have sub: "set fs \<subseteq> {..<sl_capacity s}"
    using assms chain_bound [of "sl_storage s" "sl_free_head s" fs] by (simp add: free_list_def)
  have "live s = {..<sl_capacity s} - set fs"
    using assms by (auto simp: live_def free_list_def)
  then have "card (live s) = sl_capacity s - length fs"
    using assms sub by (simp add: card_Diff_subset distinct_card free_list_def)
  then show ?thesis using assms unfolding free_list_def by linarith
qed

lemma slab_inv_in_use: "slab_inv s \<Longrightarrow> sl_in_use s = card (live s)"
  by (auto simp: slab_inv_def card_live)

lemma live_finite [simp]: "finite (live s)"
  by (rule finite_subset [of _ "{..<sl_capacity s}"]) (auto simp: live_def)

lemma card_live_le: "slab_inv s \<Longrightarrow> card (live s) \<le> sl_capacity s"
  by (metis card_live free_list_def le_add1 slab_inv_def)

subsection \<open>Construction\<close>

text \<open>The pool after \<open>m\<close> rounds: its free list starts at the highest slot threaded.\<close>

definition threaded :: "nat \<Rightarrow> nat \<Rightarrow> nat \<Rightarrow> 'a slab" where
  "threaded n k m = \<lparr>sl_capacity = n,
     sl_storage = map (\<lambda>i. FreeNode (if i = 0 then None else Some (i - 1))) [0..<m] @ replicate (k - m) Raw,
     sl_free_head = (if m = 0 then None else Some (m - 1)), sl_in_use = 0\<rparr>"

lemma thread_slot_threaded: "m < k \<Longrightarrow> thread_slot m (threaded n k m) = Some (threaded n k (Suc m))"
proof -
  assume "m < k"
  then have "replicate (k - m) (Raw :: 'a slot) = Raw # replicate (k - Suc m) Raw"
    by (metis Suc_diff_Suc replicate_Suc)
  then show ?thesis by (simp add: thread_slot_def threaded_def list_update_append)
qed

lemma thread_slot_outside: "thread_slot k (threaded n k k) = None"
  by (simp add: thread_slot_def threaded_def upd_opt_def)

definition new_slab :: "nat \<Rightarrow> 'a slab" where
  "new_slab n = threaded n n n"

text \<open>The buffer holds the slots when its size in bytes does not wrap; when it does wrap, the loop
  leaves the buffer.\<close>

lemma slots_fit:
  assumes "0 < unat k"
  shows "unat c * unat k < 2 ^ 64 \<Longrightarrow> unat (c * k) div unat k = unat c"
    "\<not> unat c * unat k < 2 ^ 64 \<Longrightarrow> unat (c * k) div unat k < unat (c :: u64)"
proof -
  have w: "unat (c * k) = unat c * unat k mod 2 ^ 64" by (simp add: unat_word_ariths)
  show "unat (c * k) div unat k = unat c" if "unat c * unat k < 2 ^ 64" using assms that by (simp add: w)
  show "unat (c * k) div unat k < unat c" if "\<not> unat c * unat k < 2 ^ 64"
  proof -
    have "unat (c * k) < 2 ^ 64" using unsigned_less [of "c * k"] by simp
    with that have "unat (c * k) < unat c * unat k" by linarith
    then show ?thesis using assms by (simp add: less_mult_imp_div_less)
  qed
qed

lemma SlabAllocator_eq:
  assumes "0 < unat (kSlotSize szof)"
  shows "SlabAllocator szof c = (if unat c * unat (kSlotSize szof) < 2 ^ 64 then Some (new_slab (unat c)) else None)"
proof -
  let ?k = "unat (c * kSlotSize szof) div unat (kSlotSize szof)"
  let ?s = "\<lparr>sl_capacity = unat c, sl_storage = replicate ?k Raw, sl_free_head = None, sl_in_use = 0\<rparr>"
  have s0: "?s = threaded (unat c) ?k 0" by (simp add: threaded_def)
  show ?thesis
  proof (cases "unat c * unat (kSlotSize szof) < 2 ^ 64")
    case True
    then have k: "?k = unat c" by (rule slots_fit(1) [OF assms])
    have "\<exists>s'. for_range 0 (unat c) thread_slot ?s = Some s' \<and> s' = threaded (unat c) ?k (unat c)"
      by (rule for_range_invariant [where I = "\<lambda>m s. s = threaded (unat c) ?k m"])
        (use k s0 in \<open>auto simp: thread_slot_threaded\<close>)
    with True k show ?thesis by (simp add: SlabAllocator_def Let_def new_slab_def)
  next
    case False
    then have k: "?k < unat c" by (rule slots_fit(2) [OF assms])
    have "for_range 0 (unat c) thread_slot ?s = None"
      by (rule for_range_undefined [where m = ?k and I = "\<lambda>m s. s = threaded (unat c) ?k m"])
        (use k s0 in \<open>auto simp: thread_slot_threaded thread_slot_outside\<close>)
    with False show ?thesis by (simp add: SlabAllocator_def Let_def)
  qed
qed

lemma new_slab_fields:
  "sl_capacity (new_slab n) = n" "sl_in_use (new_slab n) = 0"
  "sl_free_head (new_slab n) = (if n = 0 then None else Some (n - 1))"
  "sl_storage (new_slab n) = map (\<lambda>i. FreeNode (if i = 0 then None else Some (i - 1))) [0..<n]"
  by (simp_all add: new_slab_def threaded_def)

lemma chain_descending:
  assumes "m \<le> n"
  shows "chain (map (\<lambda>i. FreeNode (if i = 0 then None else Some (i - 1))) [0..<n])
           (if m = 0 then None else Some (m - 1)) (rev [0..<m])"
  using assms by (induction m) auto

lemma new_slab_free_list: "free_list (new_slab n) (rev [0..<n])"
  using chain_descending [of n n] by (auto simp: free_list_def new_slab_fields)

lemma new_slab_inv [simp]: "slab_inv (new_slab n)"
  using new_slab_free_list slab_inv_def by blast

lemma new_slab_live [simp]: "live (new_slab n) = {}"
  by (auto simp: live_def new_slab_fields)

subsection \<open>Operations keep the invariant\<close>

lemma Allocate_full:
  assumes "slab_inv s" "card (live s) = sl_capacity s"
  shows "Allocate s = Some (None, s)"
proof -
  obtain fs where f: "free_list s fs" using assms(1) slab_inv_def by blast
  then have "fs = []" using card_live [OF f] assms(2) by (simp add: free_list_def)
  with f show ?thesis by (simp add: free_list_def Allocate_def)
qed

lemma Allocate_pop:
  assumes "free_list s (p # ps)"
  shows "\<exists>s'. Allocate s = Some (Some p, s') \<and> free_list s' ps \<and> p \<notin> live s
    \<and> live s' = insert p (live s) \<and> sl_capacity s' = sl_capacity s
    \<and> (\<forall>q. q \<noteq> p \<longrightarrow> deref s' q = deref s q)"
proof -
  from assms obtain nxt where n: "sl_free_head s = Some p" "p < length (sl_storage s)"
    "sl_storage s ! p = FreeNode nxt" "chain (sl_storage s) nxt ps" "p \<notin> set ps"
    by (auto simp: free_list_def split: slot.splits)
  define s' where "s' = s\<lparr>sl_free_head := nxt, sl_in_use := sl_in_use s + 1,
    sl_storage := (sl_storage s)[p := Raw]\<rparr>"
  have a: "Allocate s = Some (Some p, s')" using n by (simp add: Allocate_def s'_def)
  have "free_list s' ps"
    using assms n by (auto simp: free_list_def s'_def chain_update nth_list_update)
  moreover have "live s' = insert p (live s)" "p \<notin> live s"
    using assms n by (auto simp: live_def s'_def nth_list_update free_list_def)
  moreover have "\<forall>q. q \<noteq> p \<longrightarrow> deref s' q = deref s q"
    by (simp add: deref_def s'_def nth_opt_def)
  ultimately show ?thesis using a by (auto simp: s'_def)
qed

lemma Allocate_fresh:
  assumes "slab_inv s" "card (live s) < sl_capacity s"
  shows "\<exists>p s'. Allocate s = Some (Some p, s') \<and> p \<notin> live s \<and> live s' = insert p (live s)
    \<and> slab_inv s' \<and> sl_capacity s' = sl_capacity s \<and> (\<forall>q. q \<noteq> p \<longrightarrow> deref s' q = deref s q)"
proof -
  obtain fs where f: "free_list s fs" using assms(1) slab_inv_def by blast
  then have "fs \<noteq> []" using card_live [OF f] assms(2) by (auto simp: free_list_def)
  then obtain p ps where "fs = p # ps" by (cases fs) auto
  with f Allocate_pop [of s p ps] show ?thesis unfolding slab_inv_def by blast
qed

lemma Deallocate_live:
  assumes "slab_inv s" "p \<in> live s"
  shows "\<exists>s'. Deallocate (Some p) s = Some s' \<and> live s' = live s - {p} \<and> slab_inv s'
    \<and> sl_capacity s' = sl_capacity s \<and> (\<forall>q. q \<noteq> p \<longrightarrow> deref s' q = deref s q)"
proof -
  obtain fs where f: "free_list s fs" using assms(1) slab_inv_def by blast
  have u: "sl_in_use s > 0"
    using card_live [OF f] assms(2) by (metis card_gt_0_iff empty_iff live_finite)
  have p: "p < sl_capacity s" "p < length (sl_storage s)" "p \<notin> set fs"
    using assms(2) f by (auto simp: live_def free_list_def)
  define s' where "s' = s\<lparr>sl_storage := (sl_storage s)[p := FreeNode (sl_free_head s)],
    sl_free_head := Some p, sl_in_use := sl_in_use s - 1\<rparr>"
  have a: "Deallocate (Some p) s = Some s'" using p u by (simp add: Deallocate_def s'_def)
  have "free_list s' (p # fs)"
    using f p u by (auto simp: free_list_def s'_def chain_update nth_list_update)
  moreover have "live s' = live s - {p}"
    using f p by (auto simp: live_def s'_def nth_list_update free_list_def)
  moreover have "\<forall>q. q \<noteq> p \<longrightarrow> deref s' q = deref s q"
    by (simp add: deref_def s'_def nth_opt_def)
  ultimately show ?thesis using a by (auto simp: slab_inv_def s'_def)
qed

lemma deref_live: "slab_inv s \<Longrightarrow> deref s p = Some v \<Longrightarrow> p \<in> live s"
  by (auto simp: deref_def nth_opt_def live_def slab_inv_def free_list_def
      split: option.splits slot.splits if_splits)

lemma assign_live:
  assumes "slab_inv s" "p \<in> live s"
  shows "\<exists>s'. assign p v s = Some s' \<and> slab_inv s' \<and> live s' = live s
    \<and> sl_capacity s' = sl_capacity s \<and> deref s' = (deref s)(p \<mapsto> v)"
proof -
  obtain fs where f: "free_list s fs" using assms(1) slab_inv_def by blast
  have p: "p < sl_capacity s" "p < length (sl_storage s)" "p \<notin> set fs"
    "\<not> is_free (sl_storage s ! p)"
    using assms(2) f by (auto simp: live_def free_list_def)
  define s' where "s' = s\<lparr>sl_storage := (sl_storage s)[p := Obj v]\<rparr>"
  have a: "assign p v s = Some s'"
    using p by (cases "sl_storage s ! p") (auto simp: assign_def s'_def)
  have "free_list s' fs"
    using f p by (auto simp: free_list_def s'_def chain_update nth_list_update)
  moreover have "live s' = live s"
    using f p by (auto simp: live_def s'_def nth_list_update free_list_def)
  moreover have "deref s' = (deref s)(p \<mapsto> v)"
    using p by (auto simp: deref_def s'_def nth_opt_def fun_eq_iff)
  ultimately show ?thesis using a by (auto simp: slab_inv_def s'_def)
qed

interpretation pool: object_pool Allocate "\<lambda>p. Deallocate (Some p)" slab_inv live sl_capacity
  deref assign
proof (unfold_locales, goal_cases)
  case (1 s)
  then show ?case by (simp add: card_live_le)
next
  case (2 s)
  then show ?case using Allocate_fresh [of s] by blast
next
  case (3 s)
  then show ?case by (rule Allocate_full)
next
  case (4 s p)
  then show ?case using Deallocate_live [of s p] by blast
next
  case (5 s p v)
  then show ?case by (rule deref_live)
next
  case (6 s p s' q)
  have "card (live s) \<noteq> sl_capacity s" using Allocate_full [OF 6(1)] 6(2) by auto
  then have "card (live s) < sl_capacity s" using card_live_le [OF 6(1)] by simp
  with Allocate_fresh [OF 6(1)] 6(2,3) show ?case by auto
next
  case (7 s p s' q)
  with Deallocate_live [OF 7(1,2)] show ?case by auto
next
  case (8 s p v)
  then show ?case by (rule assign_live)
qed


section \<open>Correctness\<close>

lemma kSlotSize_nat:
  assumes "unat szof + 63 < 2 ^ 64"
  shows "unat (kSlotSize szof) = 64 * ((unat szof + 63) div 64)"
proof -
  have "kSlotSize szof = (szof + 63) AND NOT (2 ^ 6 - 1)"
    by (simp add: kSlotSize_def kCacheLine_def add_diff_eq [symmetric])
  moreover have "unat (szof + 63) = unat szof + 63"
    using assms by (simp add: unat_word_ariths)
  ultimately have "unat (kSlotSize szof) = (unat szof + 63) - (unat szof + 63) mod 64"
    by (simp only: unat_and_not_mask) simp
  then show ?thesis by (simp add: minus_mod_eq_mult_div)
qed

lemma kSlotSize_pos: "0 < unat szof \<Longrightarrow> unat szof + 63 < 2 ^ 64 \<Longrightarrow> 0 < unat (kSlotSize szof)"
  by (simp add: kSlotSize_nat div_greater_zero_iff)

lemma SlotAt_disjoint_lines:
  assumes "unat szof + 63 < 2 ^ 64" "base mod 64 = 0" "i \<noteq> j"
    "SlotAt szof base i \<le> x" "x < SlotAt szof base i + unat (kSlotSize szof)"
    "SlotAt szof base j \<le> y" "y < SlotAt szof base j + unat (kSlotSize szof)"
  shows "x div 64 \<noteq> y div 64"
proof -
  define c where "c = (unat szof + 63) div 64"
  obtain b where b: "base = 64 * b" using assms(2) by (auto simp: mod_eq_0_iff_dvd dvd_def)
  have s: "SlotAt szof base k = 64 * (b + k * c)" for k
    by (simp add: SlotAt_def kSlotSize_nat [OF assms(1)] b c_def algebra_simps)
  have z: "unat (kSlotSize szof) = 64 * c" by (simp add: kSlotSize_nat [OF assms(1)] c_def)
  have x: "b + i * c \<le> x div 64" "x div 64 < b + i * c + c"
    using assms(4,5) unfolding s z by auto
  have y: "b + j * c \<le> y div 64" "y div 64 < b + j * c + c"
    using assms(6,7) unfolding s z by auto
  have o: "k * c + c \<le> l * c" if "k < l" for k l :: nat
    using mult_le_mono1 [of "Suc k" l c] that by simp
  show ?thesis using x y o [of i j] o [of j i] assms(3) by (cases "i < j") auto
qed

lemma Owns_iff:
  assumes "0 < unat (kSlotSize szof)"
  shows "Owns szof (Some base) cap (Some a) \<longleftrightarrow> (\<exists>i<cap. a = SlotAt szof base i)"
proof -
  define z where "z = unat (kSlotSize szof)"
  have z: "0 < z" using assms by (simp add: z_def)
  have "(\<not> (a < base \<or> a \<ge> base + cap * z) \<and> (a - base) mod z = 0) \<longleftrightarrow> (\<exists>i<cap. a = base + i * z)"
  proof
    assume h: "\<not> (a < base \<or> a \<ge> base + cap * z) \<and> (a - base) mod z = 0"
    then obtain i where i: "a - base = z * i" by (auto simp: mod_eq_0_iff_dvd dvd_def)
    have a: "a = base + i * z" using h unfolding mult.commute [of i] i [symmetric] by linarith
    with h have "i * z < cap * z" by simp
    then have "i < cap" by simp
    with a show "\<exists>i<cap. a = base + i * z" by blast
  next
    assume "\<exists>i<cap. a = base + i * z"
    then show "\<not> (a < base \<or> a \<ge> base + cap * z) \<and> (a - base) mod z = 0"
      using z by auto
  qed
  then show ?thesis by (auto simp: Owns_def SlotAt_def z_def)
qed

lemma pool_run_PAllocs:
  assumes "free_list s (rev [0..<m])" "k \<le> m"
  shows "\<exists>s'. pool_run Allocate (\<lambda>p. Deallocate (Some p)) (replicate k PAlloc) s held
    = Some (s', [m - k..<m] @ held)"
  using assms
proof (induction k arbitrary: s m held)
  case 0
  then show ?case by simp
next
  case (Suc k)
  then obtain m' where m: "m = Suc m'" by (cases m) auto
  with Suc.prems have "free_list s (m' # rev [0..<m'])" by simp
  from Allocate_pop [OF this] obtain s' where s': "Allocate s = Some (Some m', s')"
    "free_list s' (rev [0..<m'])" by blast
  from Suc.IH [OF s'(2), of "m' # held"] Suc.prems m s'(1) show ?case by auto
qed

text \<open>C11: a pool is safe, and it exists exactly where its size fits. For a type whose size can be
  rounded up to cache lines, the constructor is defined exactly when \<^verbatim>\<open>capacity * kSlotSize\<close>
  does not wrap around 64 bits (where it wraps, the buffer is too small and the loop over the slots
  runs out of it). Where it is defined, and the
  buffer could be allocated, any client script that frees only the pointers it holds runs without undefined
  behaviour on the new pool; the pointers it holds at the end are distinct, are exactly the live
  slots, are as many as \<^verbatim>\<open>in_use()\<close> says and never more than the capacity.\<close>

theorem slab_script_safe:
  assumes "0 < unat szof" "unat szof + 63 < 2 ^ 64"
  shows "if unat n * unat (kSlotSize szof) < 2 ^ 64
    then \<exists>s0 s held. SlabAllocator szof n = Some (s0 :: 'a slab)
      \<and> pool_run Allocate (\<lambda>p. Deallocate (Some p)) ops s0 [] = Some (s, held)
      \<and> distinct held \<and> set held = live s \<and> in_use s = length held \<and> length held \<le> unat n
    else SlabAllocator szof n = (None :: 'a slab option)"
proof -
  note new = SlabAllocator_eq [OF kSlotSize_pos [OF assms], of n]
  obtain s :: "'a slab" and held where
    r: "pool_run Allocate (\<lambda>p. Deallocate (Some p)) ops (new_slab (unat n)) [] = Some (s, held)"
    "slab_inv s" "distinct held" "set held = live s" "length held \<le> unat n"
    using pool.run_safe [of "new_slab (unat n)" "[]" ops] by (auto simp: new_slab_fields)
  then have "in_use s = length held"
    by (metis in_use_def slab_inv_in_use distinct_card)
  with r new show ?thesis by auto
qed

theorem slab_script_safe_witness:
  "(\<exists>s0 s held. SlabAllocator 48 2 = Some (s0 :: nat slab)
      \<and> pool_run Allocate (\<lambda>p. Deallocate (Some p)) [PAlloc, PAlloc, PFree 0, PAlloc, PAlloc] s0 [] = Some (s, held)
      \<and> distinct held \<and> length held \<le> 2)
    \<and> SlabAllocator 48 (2 ^ 58) = (None :: nat slab option)"
proof -
  have k: "unat (kSlotSize 48) = 64" by (simp add: kSlotSize_nat)
  show ?thesis
    using slab_script_safe [of 48 2 "[PAlloc, PAlloc, PFree 0, PAlloc, PAlloc]", where 'a = nat]
      slab_script_safe [of 48 "2 ^ 58", where 'a = nat]
    by (auto simp: k)
qed

text \<open>A new pool hands out its slots from the highest address downwards: \<open>k\<close> allocations
  return slots \<open>n - 1, \<dots>, n - k\<close>, the latest (and lowest) held first.\<close>

lemma slab_allocates_descending:
  assumes "0 < unat szof" "unat szof + 63 < 2 ^ 64" "SlabAllocator szof n = Some s0" "k \<le> unat n"
  shows "\<exists>s. pool_run Allocate (\<lambda>p. Deallocate (Some p)) (replicate k PAlloc) s0 [] = Some (s, [unat n - k..<unat n])"
proof -
  have "s0 = new_slab (unat n)"
    using assms(3) unfolding SlabAllocator_eq [OF kSlotSize_pos [OF assms(1,2)]] by (simp split: if_splits)
  then show ?thesis using pool_run_PAllocs [OF new_slab_free_list assms(4), of "[]"] by simp
qed

text \<open>\<^verbatim>\<open>Owns\<close> accepts exactly the addresses of the pool's slots: for a non-empty
  type whose size can be rounded up without wrap-around, an address is owned iff it is the
  start of slot \<open>i\<close> for some \<open>i\<close> below the capacity.\<close>

theorem slab_Owns_exact:
  assumes "0 < unat szof" "unat szof + 63 < 2 ^ 64"
  shows "Owns szof (Some base) cap (Some a) \<longleftrightarrow> (\<exists>i<cap. a = SlotAt szof base i)"
  by (rule Owns_iff [OF kSlotSize_pos [OF assms]])

theorem slab_Owns_exact_witness:
  "\<not> Owns 48 (Some 4096) 2 (Some 4224) \<and> Owns 48 (Some 4096) 2 (Some 4160)"
proof -
  have z: "unat (kSlotSize 48) = 64" by (simp add: kSlotSize_nat)
  show ?thesis
    using slab_Owns_exact [of 48 4096 2 4224] slab_Owns_exact [of 48 4096 2 4160]
    by (auto simp: SlotAt_def z)
qed

text \<open>No two slots share a cache line: when the pool's base is cache-line aligned, any byte
  of slot \<open>i\<close> and any byte of another slot \<open>j\<close> lie on different 64-byte lines.\<close>

theorem slab_no_shared_line:
  assumes "unat szof + 63 < 2 ^ 64" "base mod 64 = 0" "i \<noteq> j"
    "SlotAt szof base i \<le> x" "x < SlotAt szof base i + unat (kSlotSize szof)"
    "SlotAt szof base j \<le> y" "y < SlotAt szof base j + unat (kSlotSize szof)"
  shows "x div 64 \<noteq> y div 64"
  using assms by (rule SlotAt_disjoint_lines)

theorem slab_no_shared_line_witness: "(4096 + 47 :: nat) div 64 \<noteq> 4160 div 64"
proof -
  have z: "unat (kSlotSize 48) = 64" by (simp add: kSlotSize_nat)
  show ?thesis
    by (rule slab_no_shared_line [of 48 4096 0 1]) (simp_all add: SlotAt_def z)
qed

end
