(* ===== verification/Id_Index.thy ===== *)
theory Id_Index imports Prelude begin

text \<open>
  The order-id hash index of \<^verbatim>\<open>cpp/core/order_book.hpp\<close>: open addressing with
  linear probing, the splitmix64 finaliser as the hash, and back-shift deletion
  (\<^verbatim>\<open>InsertId\<close>, \<^verbatim>\<open>LookupAndEraseId\<close>). The loops that stop only
  because a free slot exists are \<open>partial_function\<close>s: \<open>None\<close> is also "spins
  forever", the failure the source's comment on the movability test describes.
  The lemmas show that the table is a finite map with no orphaned entry, for any number of
  operations, as long as one slot is free.
\<close>

section \<open>State and operations\<close>

type_synonym OrderId = u64

record id_entry =
  ie_id :: OrderId
  ie_ptr :: "ptr option"

record id_index =
  ix_capacity :: u64
  ix_mask :: u64
  ix_entries :: "id_entry list"

definition empty_entry :: id_entry where
  "empty_entry = \<lparr>ie_id = 0, ie_ptr = None\<rparr>"

text \<open>\<^verbatim>\<open>while (p < n) p <<= 1;\<close> on 64 bits.\<close>

partial_function (option) RoundUpPow2_loop :: "u64 \<Rightarrow> u64 \<Rightarrow> u64 option" where
  "RoundUpPow2_loop n p = (if p < n then RoundUpPow2_loop n (push_bit 1 p) else Some p)"

definition RoundUpPow2 :: "u64 \<Rightarrow> u64 option" where
  "RoundUpPow2 n = RoundUpPow2_loop n 1"

definition MixId :: "OrderId \<Rightarrow> u64" where
  "MixId i =
     (let x = i + 0x9E3779B97F4A7C15;
          x = (x XOR drop_bit 30 x) * 0xBF58476D1CE4E5B9;
          x = (x XOR drop_bit 27 x) * 0x94D049BB133111EB
      in x XOR drop_bit 31 x)"

text \<open>The part of the book's constructor that sizes and clears the index.\<close>

definition id_index_new :: "u64 \<Rightarrow> id_index option" where
  "id_index_new order_capacity = do {
     cap \<leftarrow> RoundUpPow2 (max order_capacity 1 * 2);
     Some \<lparr>ix_capacity = cap, ix_mask = cap - 1,
           ix_entries = replicate (unat cap) empty_entry\<rparr>
   }"

partial_function (option) probe_empty :: "id_entry list \<Rightarrow> u64 \<Rightarrow> u64 \<Rightarrow> u64 option" where
  "probe_empty es m slot = do {
     e \<leftarrow> nth_opt es (unat slot);
     if ie_ptr e \<noteq> None then probe_empty es m ((slot + 1) AND m) else Some slot
   }"

definition InsertId :: "OrderId \<Rightarrow> ptr \<Rightarrow> id_index \<Rightarrow> id_index option" where
  "InsertId i p ix = do {
     slot \<leftarrow> probe_empty (ix_entries ix) (ix_mask ix) (MixId i AND ix_mask ix);
     es \<leftarrow> upd_opt (ix_entries ix) (unat slot) \<lparr>ie_id = i, ie_ptr = Some p\<rparr>;
     Some (ix\<lparr>ix_entries := es\<rparr>)
   }"

text \<open>The inner \<^verbatim>\<open>while\<close> of the erase: scan the cluster, moving entries into the hole.\<close>

partial_function (option) shift_back ::
    "id_entry list \<Rightarrow> u64 \<Rightarrow> u64 \<Rightarrow> u64 \<Rightarrow> (id_entry list \<times> u64) option" where
  "shift_back es m hole nxt = do {
     e \<leftarrow> nth_opt es (unat nxt);
     if ie_ptr e \<noteq> None then do {
       (es', hole') \<leftarrow>
         (let home = MixId (ie_id e) AND m in
          if ((nxt - home) AND m) \<ge> ((nxt - hole) AND m) then do {
            es' \<leftarrow> upd_opt es (unat hole) e;
            Some (es', nxt)
          } else Some (es, hole));
       shift_back es' m hole' ((nxt + 1) AND m)
     } else Some (es, hole)
   }"

text \<open>The \<^verbatim>\<open>for\<close> loop over probes; the first argument counts the probes left.\<close>

primrec erase_probe :: "nat \<Rightarrow> OrderId \<Rightarrow> u64 \<Rightarrow> id_index \<Rightarrow> (ptr option \<times> id_index) option" where
  "erase_probe 0 i slot ix = Some (None, ix)"
| "erase_probe (Suc k) i slot ix = do {
     e \<leftarrow> nth_opt (ix_entries ix) (unat slot);
     if ie_ptr e = None then Some (None, ix)
     else if ie_id e = i then do {
       (es, hole) \<leftarrow> shift_back (ix_entries ix) (ix_mask ix) slot ((slot + 1) AND ix_mask ix);
       es' \<leftarrow> upd_opt es (unat hole) empty_entry;
       Some (ie_ptr e, ix\<lparr>ix_entries := es'\<rparr>)
     } else erase_probe k i ((slot + 1) AND ix_mask ix) ix
   }"

definition LookupAndEraseId :: "OrderId \<Rightarrow> id_index \<Rightarrow> (ptr option \<times> id_index) option" where
  "LookupAndEraseId i ix = erase_probe (unat (ix_capacity ix)) i (MixId i AND ix_mask ix) ix"

lemmas [run_simps] = RoundUpPow2_loop.simps probe_empty.simps shift_back.simps

section \<open>The map interface\<close>

locale id_map =
  fixes insert_op :: "'k \<Rightarrow> 'v \<Rightarrow> 'm \<Rightarrow> 'm option"
    and erase_op :: "'k \<Rightarrow> 'm \<Rightarrow> ('v option \<times> 'm) option"
    and contents :: "'m \<Rightarrow> 'k \<rightharpoonup> 'v"
    and inv :: "'m \<Rightarrow> bool"
    and room :: "'m \<Rightarrow> nat"
  assumes finite_contents: "finite (dom (contents m))"
    and insert_ok: "inv m \<Longrightarrow> contents m k = None \<Longrightarrow> card (dom (contents m)) < room m \<Longrightarrow>
      \<exists>m'. insert_op k v m = Some m' \<and> inv m' \<and> contents m' = (contents m)(k \<mapsto> v) \<and> room m' = room m"
    and erase_ok: "inv m \<Longrightarrow> card (dom (contents m)) < room m \<Longrightarrow>
      \<exists>m'. erase_op k m = Some (contents m k, m') \<and> inv m' \<and> contents m' = (contents m)(k := None)
        \<and> room m' = room m"

text \<open>
  A churn script: insert a fresh key while fewer than \<open>lim\<close> are present, or erase a key.
  \<open>ks\<close> are the keys the client has inserted and not erased; \<open>churn_spec\<close> is the same
  script on a HOL map.
\<close>

datatype ('k, 'v) map_op = MIns 'k 'v | MDel 'k

fun churn :: "('k \<Rightarrow> 'v \<Rightarrow> 'm \<Rightarrow> 'm option) \<Rightarrow> ('k \<Rightarrow> 'm \<Rightarrow> ('v option \<times> 'm) option) \<Rightarrow> nat
    \<Rightarrow> ('k, 'v) map_op list \<Rightarrow> 'm \<Rightarrow> 'k list \<Rightarrow> ('v option list \<times> 'm) option" where
  "churn ins era lim [] m ks = Some ([], m)"
| "churn ins era lim (MIns k v # ops) m ks =
     (if k \<notin> set ks \<and> length ks < lim
      then do { m' \<leftarrow> ins k v m; churn ins era lim ops m' (k # ks) }
      else churn ins era lim ops m ks)"
| "churn ins era lim (MDel k # ops) m ks = do {
     (r, m') \<leftarrow> era k m;
     (rs, m'') \<leftarrow> churn ins era lim ops m' (removeAll k ks);
     Some (r # rs, m'')
   }"

fun churn_spec :: "nat \<Rightarrow> ('k, 'v) map_op list \<Rightarrow> ('k \<rightharpoonup> 'v) \<Rightarrow> 'k list \<Rightarrow> 'v option list \<times> ('k \<rightharpoonup> 'v)" where
  "churn_spec lim [] M ks = ([], M)"
| "churn_spec lim (MIns k v # ops) M ks =
     (if k \<notin> set ks \<and> length ks < lim then churn_spec lim ops (M(k \<mapsto> v)) (k # ks)
      else churn_spec lim ops M ks)"
| "churn_spec lim (MDel k # ops) M ks =
     (let (rs, M') = churn_spec lim ops (M(k := None)) (removeAll k ks) in (M k # rs, M'))"

context id_map begin

lemma churn_refines:
  assumes "inv m" "set ks = dom (contents m)" "distinct ks" "length ks \<le> lim" "lim < room m"
  shows "\<exists>m'. churn insert_op erase_op lim ops m ks
            = Some (fst (churn_spec lim ops (contents m) ks), m')
          \<and> inv m' \<and> contents m' = snd (churn_spec lim ops (contents m) ks)"
  using assms
proof (induction ops arbitrary: m ks)
  case Nil
  then show ?case by simp
next
  case (Cons x ops)
  have c: "card (dom (contents m)) = length ks"
    using Cons.prems by (metis distinct_card)
  show ?case
  proof (cases x)
    case (MIns k v)
    show ?thesis
    proof (cases "k \<notin> set ks \<and> length ks < lim")
      case True
      then have "contents m k = None" using Cons.prems(2) by blast
      with insert_ok [OF Cons.prems(1), of k v] c True Cons.prems(5)
      obtain m' where m': "insert_op k v m = Some m'" "inv m'" "contents m' = (contents m)(k \<mapsto> v)"
        "room m' = room m" by auto
      have "set (k # ks) = dom (contents m')" "distinct (k # ks)" "length (k # ks) \<le> lim"
        using True Cons.prems m' by auto
      from Cons.IH [OF m'(2) this] m' True MIns Cons.prems(5) show ?thesis by (simp add: fun_upd_def)
    next
      case False
      with Cons.IH [OF Cons.prems] MIns show ?thesis by auto
    qed
  next
    case (MDel k)
    from erase_ok [OF Cons.prems(1), of k] c Cons.prems(4,5)
    obtain m' where m': "erase_op k m = Some (contents m k, m')" "inv m'"
      "contents m' = (contents m)(k := None)" "room m' = room m" by auto
    have s: "set (removeAll k ks) = dom (contents m')" "distinct (removeAll k ks)"
      "length (removeAll k ks) \<le> lim"
      using Cons.prems m' le_trans [OF length_filter_le]
      by (auto simp: distinct_removeAll removeAll_filter_not_eq)
    from Cons.IH [OF m'(2) s] m' MDel Cons.prems(5) show ?thesis
      by (auto simp: case_prod_beta fun_upd_def)
  qed
qed

end


section \<open>The table invariant\<close>

definition home :: "nat \<Rightarrow> OrderId \<Rightarrow> nat" where
  "home n i = unat (MixId i) mod n"

definition occ :: "id_entry list \<Rightarrow> nat \<Rightarrow> bool" where
  "occ es s \<longleftrightarrow> ie_ptr (es ! s) \<noteq> None"

text \<open>Every slot from \<open>a\<close> forward up to (excluding) \<open>b\<close> is occupied.\<close>

definition reach :: "id_entry list \<Rightarrow> nat \<Rightarrow> nat \<Rightarrow> bool" where
  "reach es a b \<longleftrightarrow>
     (\<forall>x < length es. cdist (length es) a x < cdist (length es) a b \<longrightarrow> occ es x)"

text \<open>The entries outside the slots of \<open>H\<close> have pairwise different ids.\<close>

definition unique_ids :: "nat set \<Rightarrow> id_entry list \<Rightarrow> bool" where
  "unique_ids H es \<longleftrightarrow>
     (\<forall>s < length es. \<forall>s' < length es. s \<notin> H \<and> s' \<notin> H \<and> occ es s \<and> occ es s'
        \<and> ie_id (es ! s) = ie_id (es ! s') \<longrightarrow> s = s')"

definition entries_but :: "nat set \<Rightarrow> id_entry list \<Rightarrow> id_entry set" where
  "entries_but H es = {es ! s | s. s < length es \<and> s \<notin> H \<and> occ es s}"

lemma entries_but_iff:
  "x \<in> entries_but H es \<longleftrightarrow> (\<exists>s<length es. x = es ! s \<and> occ es s \<and> s \<notin> H)"
  by (auto simp: entries_but_def)

text \<open>No orphan: each entry is reachable by probing from its home slot.\<close>

definition table_ok :: "id_entry list \<Rightarrow> bool" where
  "table_ok es \<longleftrightarrow>
     (\<forall>s < length es. occ es s \<longrightarrow> reach es (home (length es) (ie_id (es ! s))) s)
     \<and> unique_ids {} es"

definition contents :: "id_index \<Rightarrow> OrderId \<rightharpoonup> ptr" where
  "contents ix = map_of (concat (map (\<lambda>e. case ie_ptr e of None \<Rightarrow> [] | Some p \<Rightarrow> [(ie_id e, p)])
     (ix_entries ix)))"

definition room :: "id_index \<Rightarrow> nat" where
  "room ix = unat (ix_capacity ix)"

text \<open>The capacity is a power of two, the mask is one less, the vector has that many slots.\<close>

definition index_shape :: "nat \<Rightarrow> id_index \<Rightarrow> bool" where
  "index_shape k ix \<longleftrightarrow> k < 64 \<and> ix_capacity ix = 2 ^ k \<and> ix_mask ix = 2 ^ k - 1
     \<and> length (ix_entries ix) = 2 ^ k"

definition index_inv :: "id_index \<Rightarrow> bool" where
  "index_inv ix \<longleftrightarrow> (\<exists>k. index_shape k ix) \<and> table_ok (ix_entries ix)"

lemma home_less [simp]: "0 < n \<Longrightarrow> home n i < n"
  by (simp add: home_def)

lemma unat_pow2: "k < 64 \<Longrightarrow> unat (2 ^ k :: u64) = 2 ^ k"
  using unat_of_nat64 [of "2 ^ k"] power_strict_increasing [of k 64 "2::nat"]
  by simp

lemma room_shape: "index_shape k ix \<Longrightarrow> room ix = 2 ^ k"
  by (simp add: index_shape_def room_def unat_pow2)

lemma unat_MixId_mask: "unat (MixId i AND (2 ^ k - 1)) = home (2 ^ k) i"
  by (simp add: home_def unat_and_mask)

lemma reach_self [simp]: "reach es a a"
  by (simp add: reach_def)

lemma reach_upd_occ:
  assumes "reach es a b" "occ (es[i := e]) i \<or> length es \<le> i"
  shows "reach (es[i := e]) a b"
  unfolding reach_def length_list_update
proof (intro allI impI)
  fix x assume "x < length es" "cdist (length es) a x < cdist (length es) a b"
  with assms show "occ (es[i := e]) x"
    by (cases "x = i") (auto simp: reach_def occ_def list_update_beyond)
qed

lemma reach_succ:
  assumes "a < length es" "b < length es" "reach es a b" "occ es b"
    "cdist (length es) a b + 1 < length es"
  shows "reach es a ((b + 1) mod length es)"
  unfolding reach_def
proof (intro allI impI)
  fix x assume x: "x < length es"
    "cdist (length es) a x < cdist (length es) a ((b + 1) mod length es)"
  then have "cdist (length es) a x \<le> cdist (length es) a b"
    using cdist_succ_right [OF assms(1,2,5)] by simp
  then consider "cdist (length es) a x < cdist (length es) a b" | "x = b"
    using cdist_inj [OF assms(1) x(1) assms(2)] by linarith
  then show "occ es x" using assms(3,4) x(1) by cases (auto simp: reach_def)
qed

text \<open>A probe path is its first slot and the path from the next one.\<close>

lemma reach_unfold:
  assumes a: "a < length es" and b: "b < length es" and ne: "a \<noteq> b"
  shows "reach es a b \<longleftrightarrow> occ es a \<and> reach es ((a + 1) mod length es) b"
proof -
  let ?n = "length es" and ?a = "(a + 1) mod length es"
  note d = cdist_succ_left [OF a]
  show ?thesis
  proof (intro iffI conjI)
    assume r: "reach es a b"
    show "occ es a" using r a d [OF b ne] by (simp add: reach_def)
    show "reach es ?a b" unfolding reach_def
    proof (intro allI impI)
      fix x assume x: "x < ?n" "cdist ?n ?a x < cdist ?n ?a b"
      show "occ es x" using r x d [OF b ne] d [OF x(1)] \<open>occ es a\<close> by (cases "a = x") (auto simp: reach_def)
    qed
  next
    assume r: "occ es a \<and> reach es ?a b"
    show "reach es a b" unfolding reach_def
    proof (intro allI impI)
      fix x assume x: "x < ?n" "cdist ?n a x < cdist ?n a b"
      show "occ es x" using r x d [OF b ne] d [OF x(1)] by (cases "a = x") (auto simp: reach_def)
    qed
  qed
qed

section \<open>Probing\<close>

lemma probe_empty_spec:
  assumes "length es = 2 ^ k" "k < 64" "e < length es" "\<not> occ es e" "unat slot < length es"
  shows "\<exists>r. probe_empty es (2 ^ k - 1) slot = Some r \<and> unat r < length es \<and> \<not> occ es (unat r)
    \<and> reach es (unat slot) (unat r)"
  using assms(5)
proof (induction "cdist (length es) (unat slot) e" arbitrary: slot)
  case 0
  then have "unat slot = e" using cdist_eq_0 [of "unat slot" "length es" e] assms(3) by simp
  then show ?case using assms(3,4) 0(2)
    by (auto simp: probe_empty.simps [of es _ slot] occ_def intro!: exI [of _ slot])
next
  case (Suc d)
  let ?n = "length es" and ?s = "(slot + 1) AND (2 ^ k - 1)"
  have s: "unat ?s = (unat slot + 1) mod ?n" using assms(1,2) by (simp add: unat_succ_mask)
  have s_less: "unat ?s < ?n" unfolding s using Suc.prems by (intro mod_less_divisor) linarith
  show ?case
  proof (cases "occ es (unat slot)")
    case False
    then show ?thesis using Suc.prems
      by (auto simp: probe_empty.simps [of es _ slot] occ_def intro!: exI [of _ slot])
  next
    case True
    then have "d = cdist ?n (unat ?s) e"
      using cdist_succ_left [OF Suc.prems assms(3)] Suc.hyps(2) assms(4) by (fastforce simp: s)
    from Suc.hyps(1) [OF this s_less] obtain r where r: "probe_empty es (2 ^ k - 1) ?s = Some r"
      "unat r < ?n" "\<not> occ es (unat r)" "reach es (unat ?s) (unat r)" by blast
    then have "reach es (unat slot) (unat r)"
      using reach_unfold [OF Suc.prems r(2)] True by (fastforce simp: s)
    moreover have "probe_empty es (2 ^ k - 1) slot = Some r"
      using True Suc.prems r(1) by (simp add: probe_empty.simps [of es _ slot] occ_def)
    ultimately show ?thesis using r by blast
  qed
qed


section \<open>Back-shift deletion\<close>

text \<open>
  The loop invariant. The entry at \<open>hole\<close> counts as removed; the slots from \<open>hole\<close>
  up to \<open>nxt\<close> are occupied; every other entry is still reachable, and one whose probe
  path crosses the hole lies at or beyond \<open>nxt\<close>.
\<close>

definition shift_inv :: "id_entry list \<Rightarrow> nat \<Rightarrow> nat \<Rightarrow> bool" where
  "shift_inv es hole nxt \<longleftrightarrow>
     (let n = length es in
      hole < n \<and> nxt < n \<and> hole \<noteq> nxt \<and> reach es hole nxt \<and> unique_ids {hole} es
      \<and> (\<forall>s<n. occ es s \<and> s \<noteq> hole \<longrightarrow>
           reach es (home n (ie_id (es ! s))) s
           \<and> (cdist n (home n (ie_id (es ! s))) hole < cdist n (home n (ie_id (es ! s))) s
              \<longrightarrow> cdist n hole nxt \<le> cdist n hole s)))"

lemma shift_invD:
  assumes "shift_inv es hole nxt"
  shows "hole < length es" "nxt < length es" "hole \<noteq> nxt" "reach es hole nxt"
    "unique_ids {hole} es" "occ es hole"
proof -
  show "hole < length es" "nxt < length es" "hole \<noteq> nxt" and r: "reach es hole nxt" and
    "unique_ids {hole} es"
    using assms by (simp_all add: shift_inv_def Let_def)
  then show "occ es hole"
    using cdist_eq_0 [of hole "length es" nxt] by (auto simp: reach_def)
qed

lemma shift_inv_entry:
  assumes "shift_inv es hole nxt" "s < length es" "occ es s" "s \<noteq> hole"
    and "h = home (length es) (ie_id (es ! s))"
  shows "reach es h s"
    and "cdist (length es) h hole < cdist (length es) h s
      \<Longrightarrow> cdist (length es) hole nxt \<le> cdist (length es) hole s"
  using assms by (auto simp: shift_inv_def Let_def)

lemma occ_clear: "s < length es \<Longrightarrow> occ (es[h := empty_entry]) s \<longleftrightarrow> occ es s \<and> s \<noteq> h"
  by (cases "s = h") (auto simp: occ_def empty_entry_def)

text \<open>At a free slot no probe path crosses the hole any more, so it can be emptied.\<close>

lemma shift_done_clear:
  assumes I: "shift_inv es hole nxt" and e: "\<not> occ es nxt" and s: "s < length es" "occ es s" "s \<noteq> hole"
  shows "\<not> cdist (length es) (home (length es) (ie_id (es ! s))) hole < cdist (length es) (home (length es) (ie_id (es ! s))) s"
proof
  let ?n = "length es"
  define h where "h = home ?n (ie_id (es ! s))"
  note D = shift_invD [OF I] and E = shift_inv_entry [OF I s h_def]
  assume "cdist ?n (home ?n (ie_id (es ! s))) hole < cdist ?n (home ?n (ie_id (es ! s))) s"
  then have c: "cdist ?n h hole < cdist ?n h s" by (simp add: h_def)
  have h: "h < ?n" unfolding h_def by (rule home_less) (use s(1) in linarith)
  have "nxt \<noteq> s" using e s(2) by auto
  then have "cdist ?n hole nxt < cdist ?n hole s"
    using E(2) [OF c] cdist_inj [OF D(1,2) s(1)] by linarith
  moreover have "cdist ?n h s = cdist ?n h hole + cdist ?n hole s" using cdist_split [OF h D(1) s(1)] c by simp
  moreover have "cdist ?n h nxt \<le> cdist ?n h hole + cdist ?n hole nxt" using h D(1,2) by (auto simp: cdist_cases)
  ultimately have "cdist ?n h nxt < cdist ?n h s" by linarith
  then have "occ es nxt" using E(1) D(2) by (simp add: reach_def)
  with e show False by simp
qed

lemma shift_done:
  assumes I: "shift_inv es hole nxt" and e: "\<not> occ es nxt"
  shows "table_ok (es[hole := empty_entry])"
proof -
  let ?n = "length es" and ?es = "es[hole := empty_entry]"
  have "reach ?es (home ?n (ie_id (?es ! s))) s" if s: "s < ?n" "occ ?es s" for s
  proof -
    have os: "occ es s" "s \<noteq> hole" using s by (auto simp: occ_clear)
    have "x \<noteq> hole" if "cdist ?n (home ?n (ie_id (es ! s))) x < cdist ?n (home ?n (ie_id (es ! s))) s" for x
      using shift_done_clear [OF I e s(1) os] that by auto
    then show ?thesis
      using shift_inv_entry(1) [OF I s(1) os refl] os(2) by (simp add: reach_def occ_clear)
  qed
  moreover have "unique_ids {} ?es"
    using shift_invD(5) [OF I] unfolding unique_ids_def by (auto simp: occ_clear)
  ultimately show ?thesis by (simp add: table_ok_def)
qed

text \<open>Moving the entry at \<open>nxt\<close> into the hole makes \<open>nxt\<close> the hole. The occupied slots
  stay the same.\<close>

lemma occ_move: "occ es nxt \<Longrightarrow> occ es hole \<Longrightarrow> s < length es \<Longrightarrow> occ (es[hole := es ! nxt]) s \<longleftrightarrow> occ es s"
  by (cases "s = hole") (auto simp: occ_def)

lemma move_unique:
  assumes u: "unique_ids {hole} es" and lt: "hole < length es" "nxt < length es" and ne: "hole \<noteq> nxt"
    and o: "occ es nxt" "occ es hole"
  shows "unique_ids {nxt} (es[hole := es ! nxt])"
  unfolding unique_ids_def length_list_update
proof (intro allI impI)
  fix s s' assume s: "s < length es" "s' < length es" "s \<notin> {nxt} \<and> s' \<notin> {nxt} \<and> occ (es[hole := es ! nxt]) s
      \<and> occ (es[hole := es ! nxt]) s' \<and> ie_id (es[hole := es ! nxt] ! s) = ie_id (es[hole := es ! nxt] ! s')"
  let ?g = "\<lambda>s. if s = hole then nxt else s"
  have "?g s < length es" "?g s' < length es" "?g s \<noteq> hole" "?g s' \<noteq> hole" "occ es (?g s)" "occ es (?g s')"
    using s lt ne o occ_move [OF o] by auto
  moreover have "ie_id (es ! ?g s) = ie_id (es ! ?g s')" using s lt by (auto split: if_splits)
  ultimately have "?g s = ?g s'" using u unfolding unique_ids_def by blast
  then show "s = s'" using s by (auto split: if_splits)
qed

lemma move_entries:
  assumes lt: "hole < length es" "nxt < length es" and ne: "hole \<noteq> nxt" and o: "occ es nxt" "occ es hole"
  shows "entries_but {nxt} (es[hole := es ! nxt]) = entries_but {hole} es"
proof (intro set_eqI iffI)
  fix x assume "x \<in> entries_but {nxt} (es[hole := es ! nxt])"
  then obtain s where "x = es[hole := es ! nxt] ! s" "s < length es" "s \<noteq> nxt" "occ es s"
    by (auto simp: entries_but_def occ_move [OF o])
  then show "x \<in> entries_but {hole} es" using assms by (cases "s = hole") (auto simp: entries_but_def)
next
  fix x assume "x \<in> entries_but {hole} es"
  then obtain s where s: "x = es ! s" "s < length es" "s \<noteq> hole" "occ es s" by (auto simp: entries_but_def)
  let ?s = "if s = nxt then hole else s"
  have "x = es[hole := es ! nxt] ! ?s" "?s < length es" "?s \<noteq> nxt" "occ (es[hole := es ! nxt]) ?s"
    using s lt ne o by (auto simp: occ_move)
  then show "x \<in> entries_but {nxt} (es[hole := es ! nxt])" unfolding entries_but_def by auto
qed

text \<open>The moved entry is still on its probe path, because the move brings it closer to its home.\<close>

lemma move_reach:
  assumes I: "shift_inv es hole nxt" and on: "occ es nxt" and h: "h = home (length es) (ie_id (es ! nxt))"
    and mv: "cdist (length es) hole nxt \<le> cdist (length es) h nxt"
  shows "reach es h hole" "cdist (length es) h hole < cdist (length es) h nxt"
proof -
  note D = shift_invD [OF I]
  have lt: "h < length es" unfolding h by (rule home_less) (use D(1) in linarith)
  have "cdist (length es) h nxt = cdist (length es) h hole + cdist (length es) hole nxt"
    using mv lt D(1,2) by (auto simp: cdist_cases split: if_splits)
  moreover have "cdist (length es) hole nxt \<noteq> 0" using D(1-3) by (simp add: cdist_eq_0)
  ultimately show less: "cdist (length es) h hole < cdist (length es) h nxt" by linarith
  have "reach es h nxt" using shift_inv_entry(1) [OF I D(2) on _ h] D(3) by simp
  with less show "reach es h hole" by (auto simp: reach_def)
qed

lemma shift_move:
  assumes I: "shift_inv es hole nxt" and on: "occ es nxt"
    and mv: "cdist (length es) hole nxt \<le> cdist (length es) (home (length es) (ie_id (es ! nxt))) nxt"
  shows "shift_inv (es[hole := es ! nxt]) nxt ((nxt + 1) mod length es)"
    and "entries_but {nxt} (es[hole := es ! nxt]) = entries_but {hole} es"
proof -
  let ?n = "length es" and ?es = "es[hole := es ! nxt]" and ?f = "(nxt + 1) mod length es"
  note D = shift_invD [OF I]
  show "entries_but {nxt} ?es = entries_but {hole} es" by (rule move_entries [OF D(1-3) on D(6)])
  have n: "0 < ?n" "1 < ?n" using D(1-3) by linarith+
  have f: "?f < ?n" using n(1) by simp
  have fd: "cdist ?n nxt ?f = 1" using cdist_succ_right [of nxt ?n nxt] D(2) n(2) by simp
  note o = occ_move [OF on D(6)]
  have r: "reach ?es a b \<longleftrightarrow> reach es a b" for a b using o by (auto simp: reach_def)
  have "reach ?es nxt ?f" unfolding reach_def using fd o on cdist_eq_0 [OF D(2)] by auto
  moreover have "unique_ids {nxt} ?es" by (rule move_unique [OF D(5,1,2,3) on D(6)])
  moreover have "reach ?es (home ?n (ie_id (?es ! s))) s
      \<and> (cdist ?n (home ?n (ie_id (?es ! s))) nxt < cdist ?n (home ?n (ie_id (?es ! s))) s
         \<longrightarrow> cdist ?n nxt ?f \<le> cdist ?n nxt s)"
    if s: "s < ?n" "occ ?es s" "s \<noteq> nxt" for s
  proof (cases "s = hole")
    case True
    then show ?thesis using move_reach [OF I on refl mv] D(1) by (simp add: r)
  next
    case False
    have "cdist ?n nxt s \<noteq> 0" using s D(2) by (simp add: cdist_eq_0)
    moreover have "reach es (home ?n (ie_id (es ! s))) s"
      using shift_inv_entry(1) [OF I s(1) _ False refl] o s by simp
    ultimately show ?thesis using False fd by (simp add: r)
  qed
  ultimately show "shift_inv ?es nxt ?f"
    using D(2) f fd by (auto simp: shift_inv_def Let_def)
qed

lemma shift_skip:
  assumes I: "shift_inv es hole nxt" and on: "occ es nxt" and e: "e < length es" "\<not> occ es e"
    and mv: "\<not> cdist (length es) hole nxt \<le> cdist (length es) (home (length es) (ie_id (es ! nxt))) nxt"
  shows "shift_inv es hole ((nxt + 1) mod length es)"
proof -
  let ?n = "length es" and ?f = "(nxt + 1) mod length es"
  note D = shift_invD [OF I]
  have n0: "0 < ?n" using D(1) by linarith
  have "e \<noteq> nxt" using on e by auto
  then have "cdist ?n hole nxt < cdist ?n hole e"
    using D(4) e cdist_inj [OF D(1,2) e(1)] by (metis linorder_neqE_nat reach_def)
  then have lt: "cdist ?n hole nxt + 1 < ?n" using cdist_less [OF n0, of hole e] by linarith
  have fd: "cdist ?n hole ?f = cdist ?n hole nxt + 1"
    using cdist_succ_right [OF D(1,2) lt] .
  have "cdist ?n hole ?f \<le> cdist ?n hole s"
    if s: "s < ?n" "occ es s" "s \<noteq> hole"
      "cdist ?n (home ?n (ie_id (es ! s))) hole < cdist ?n (home ?n (ie_id (es ! s))) s" for s
  proof -
    have le: "cdist ?n hole nxt \<le> cdist ?n hole s"
      using shift_inv_entry(2) [OF I s(1-3) refl s(4)] .
    have "s \<noteq> nxt"
    proof
      assume "s = nxt"
      then have "cdist ?n hole nxt \<le> cdist ?n (home ?n (ie_id (es ! nxt))) nxt"
        using s(4) D(1,2) cdist_split [of "home ?n (ie_id (es ! nxt))" ?n hole nxt] n0 by simp
      with mv show False by simp
    qed
    then have "cdist ?n hole nxt \<noteq> cdist ?n hole s" using cdist_inj [OF D(1,2) s(1)] by simp
    with le fd show ?thesis by linarith
  qed
  moreover have "?f \<noteq> hole" using fd by (metis Suc_eq_plus1 cdist_self nat.distinct(1))
  ultimately show ?thesis
    using I D reach_succ [OF D(1,2,4) on lt] n0
    by (auto simp: shift_inv_def Let_def)
qed


text \<open>The scan stops at the free slot \<open>e\<close> at the latest.\<close>

text \<open>One round of the loop: the test of the code compares the distances around the table.\<close>

lemma shift_back_round:
  assumes I: "shift_inv es (unat hole) (unat nxt)" and len: "length es = 2 ^ k" and k: "k < 64" and o: "occ es (unat nxt)"
  shows "shift_back es (2 ^ k - 1) hole nxt
    = (if cdist (length es) (unat hole) (unat nxt) \<le> cdist (length es) (home (length es) (ie_id (es ! unat nxt))) (unat nxt)
       then shift_back (es[unat hole := es ! unat nxt]) (2 ^ k - 1) nxt ((nxt + 1) AND (2 ^ k - 1))
       else shift_back es (2 ^ k - 1) hole ((nxt + 1) AND (2 ^ k - 1)))"
proof -
  note D = shift_invD [OF I]
  let ?home = "MixId (ie_id (es ! unat nxt)) AND (2 ^ k - 1)"
  have uh: "unat ?home = home (length es) (ie_id (es ! unat nxt))" by (simp add: unat_MixId_mask len)
  have "home (length es) (ie_id (es ! unat nxt)) < length es" using len by simp
  then have "((nxt - ?home) AND (2 ^ k - 1)) \<ge> ((nxt - hole) AND (2 ^ k - 1))
      \<longleftrightarrow> cdist (length es) (unat hole) (unat nxt) \<le> cdist (length es) (home (length es) (ie_id (es ! unat nxt))) (unat nxt)"
    using D(1,2) k by (simp add: word_le_nat_alt unat_sub_mask uh len)
  then show ?thesis using o D(1,2) by (simp add: shift_back.simps [of es _ hole nxt] occ_def Let_def)
qed

lemma shift_back_spec:
  assumes "shift_inv es (unat hole) (unat nxt)" "length es = 2 ^ k" "k < 64"
    and "e < length es" "\<not> occ es e"
  shows "\<exists>es' hole'. shift_back es (2 ^ k - 1) hole nxt = Some (es', hole')
    \<and> length es' = length es \<and> unat hole' < length es
    \<and> table_ok (es'[unat hole' := empty_entry])
    \<and> entries_but {unat hole'} es' = entries_but {unat hole} es"
  using assms
proof (induction "cdist (length es) (unat nxt) e" arbitrary: es hole nxt rule: less_induct)
  case less
  let ?n = "length es" and ?f = "(nxt + 1) AND (2 ^ k - 1)"
  note I = less.prems(1) and len = less.prems(2) and k = less.prems(3) and e = less.prems(4,5)
  note D = shift_invD [OF I]
  have uf: "unat ?f = (unat nxt + 1) mod ?n" using k by (simp add: unat_succ_mask len)
  show ?case
  proof (cases "occ es (unat nxt)")
    case False
    then have "shift_back es (2 ^ k - 1) hole nxt = Some (es, hole)"
      using D(2) by (simp add: shift_back.simps [of es _ hole nxt] occ_def)
    with shift_done [OF I False] D(1) show ?thesis by auto
  next
    case True
    note round = shift_back_round [OF I len k True]
    have ne: "unat nxt \<noteq> e" using True e(2) by auto
    have dec: "cdist ?n (unat ?f) e < cdist ?n (unat nxt) e"
      using cdist_succ_left [OF D(2) e(1) ne] by (simp add: uf)
    show ?thesis
    proof (cases "cdist ?n (unat hole) (unat nxt) \<le> cdist ?n (home ?n (ie_id (es ! unat nxt))) (unat nxt)")
      case mv: True
      let ?es = "es[unat hole := es ! unat nxt]"
      note M = shift_move [OF I True mv]
      have "\<not> occ ?es e" using e D(6) by (metis nth_list_update_neq occ_def)
      moreover have "shift_inv ?es (unat nxt) (unat ?f)" using M(1) by (simp add: uf)
      moreover have "cdist (length ?es) (unat ?f) e < cdist ?n (unat nxt) e" using dec by simp
      ultimately show ?thesis using less.hyps [of ?es ?f nxt] len k e(1) M(2) mv by (simp add: round)
    next
      case nmv: False
      have I': "shift_inv es (unat hole) (unat ?f)"
        using shift_skip [OF I True e nmv] by (simp add: uf)
      from less.hyps [OF dec I' len k e] nmv show ?thesis by (simp add: round)
    qed
  qed
qed

section \<open>The index is a map\<close>

lemma contents_pairs:
  "set (concat (map (\<lambda>e. case ie_ptr e of None \<Rightarrow> [] | Some p \<Rightarrow> [(ie_id e, p)]) es))
   = {(ie_id e, p) | e p. e \<in> set es \<and> ie_ptr e = Some p}"
  by (auto split: option.splits)

lemma entry_eq: "ie_id e = i \<Longrightarrow> ie_ptr e = Some p \<Longrightarrow> e = \<lparr>ie_id = i, ie_ptr = Some p\<rparr>"
  by (cases e) simp

lemma contents_iff:
  assumes "unique_ids {} (ix_entries ix)"
  shows "contents ix i = Some p \<longleftrightarrow> \<lparr>ie_id = i, ie_ptr = Some p\<rparr> \<in> entries_but {} (ix_entries ix)"
proof -
  let ?es = "ix_entries ix"
  let ?ps = "concat (map (\<lambda>e. case ie_ptr e of None \<Rightarrow> [] | Some p \<Rightarrow> [(ie_id e, p)]) ?es)"
  have mem: "(i, q) \<in> set ?ps \<longleftrightarrow> \<lparr>ie_id = i, ie_ptr = Some q\<rparr> \<in> entries_but {} ?es" for q
  proof -
    have "(i, q) \<in> set ?ps \<longleftrightarrow> \<lparr>ie_id = i, ie_ptr = Some q\<rparr> \<in> set ?es"
    proof
      assume "(i, q) \<in> set ?ps"
      then obtain e where "e \<in> set ?es" "i = ie_id e" "ie_ptr e = Some q"
        unfolding contents_pairs by blast
      then show "\<lparr>ie_id = i, ie_ptr = Some q\<rparr> \<in> set ?es" by (metis entry_eq)
    qed (force simp: contents_pairs)
    also have "\<dots> \<longleftrightarrow> \<lparr>ie_id = i, ie_ptr = Some q\<rparr> \<in> entries_but {} ?es"
      by (auto simp: entries_but_def in_set_conv_nth occ_def) (metis id_entry.select_convs(2) option.distinct(1))
    finally show ?thesis .
  qed
  have uniq: "q = p" if "(i, q) \<in> set ?ps" "(i, p) \<in> set ?ps" for q
  proof -
    from that obtain s s' where "?es ! s = \<lparr>ie_id = i, ie_ptr = Some q\<rparr>"
      "?es ! s' = \<lparr>ie_id = i, ie_ptr = Some p\<rparr>" "s < length ?es" "s' < length ?es"
      unfolding mem by (auto simp: entries_but_def)
    moreover from this have "s = s'" using assms unfolding unique_ids_def occ_def by simp
    ultimately show ?thesis by simp
  qed
  show ?thesis
  proof
    assume "contents ix i = Some p"
    then have "(i, p) \<in> set ?ps" unfolding contents_def by (rule map_of_SomeD)
    then show "\<lparr>ie_id = i, ie_ptr = Some p\<rparr> \<in> entries_but {} ?es" by (simp only: mem)
  next
    assume "\<lparr>ie_id = i, ie_ptr = Some p\<rparr> \<in> entries_but {} ?es"
    then have m: "(i, p) \<in> set ?ps" by (simp only: mem)
    from weak_map_of_SomeI [OF m] obtain q where q: "map_of ?ps i = Some q" ..
    have "q = p" by (rule uniq [OF map_of_SomeD [OF q] m])
    with q show "contents ix i = Some p" unfolding contents_def by (simp only:)
  qed
qed

lemma contents_NoneD:
  assumes "unique_ids {} (ix_entries ix)" "contents ix i = None" "s < length (ix_entries ix)"
    "occ (ix_entries ix) s"
  shows "ie_id (ix_entries ix ! s) \<noteq> i"
proof
  assume i: "ie_id (ix_entries ix ! s) = i"
  obtain p where "ie_ptr (ix_entries ix ! s) = Some p" using assms(4) by (auto simp: occ_def)
  with i have "\<lparr>ie_id = i, ie_ptr = Some p\<rparr> = ix_entries ix ! s" using entry_eq by metis
  then have "\<lparr>ie_id = i, ie_ptr = Some p\<rparr> \<in> entries_but {} (ix_entries ix)"
    using assms(3,4) by (auto simp: entries_but_def)
  then have "contents ix i = Some p" using contents_iff [OF assms(1), of i p] by blast
  with assms(2) show False by simp
qed

lemma finite_dom_contents [simp]: "finite (dom (contents ix))"
  unfolding contents_def by (rule finite_dom_map_of)

text \<open>While fewer ids are stored than there are slots, some slot is free.\<close>

lemma free_slot:
  assumes "unique_ids {} (ix_entries ix)" "card (dom (contents ix)) < length (ix_entries ix)"
  shows "\<exists>e < length (ix_entries ix). \<not> occ (ix_entries ix) e"
proof (rule ccontr)
  let ?es = "ix_entries ix"
  assume "\<not> ?thesis"
  then have all: "occ ?es e" if "e < length ?es" for e using that by blast
  have "inj_on (\<lambda>s. ie_id (?es ! s)) {..<length ?es}"
    using assms(1) all by (auto simp: inj_on_def unique_ids_def)
  moreover have "(\<lambda>s. ie_id (?es ! s)) ` {..<length ?es} \<subseteq> dom (contents ix)"
    using contents_NoneD [OF assms(1)] all by (auto simp: domIff)
  ultimately have "length ?es \<le> card (dom (contents ix))"
    using card_inj_on_le [of _ "{..<length ?es}" "dom (contents ix)"] by fastforce
  with assms(2) show False by simp
qed


text \<open>Writing a new id into the first free slot of its probe path.\<close>

lemma occ_insert: "r < length es \<Longrightarrow> ie_ptr E \<noteq> None \<Longrightarrow> s < length es \<Longrightarrow> occ (es[r := E]) s \<longleftrightarrow> occ es s \<or> s = r"
  by (cases "s = r") (auto simp: occ_def)

lemma table_insert:
  assumes T: "table_ok es" and r: "r < length es" "reach es (home (length es) (ie_id E)) r"
    and E: "ie_ptr E \<noteq> None" and fresh: "\<And>s. s < length es \<Longrightarrow> occ es s \<Longrightarrow> ie_id (es ! s) \<noteq> ie_id E"
  shows "table_ok (es[r := E])"
  unfolding table_ok_def
proof (intro conjI allI impI)
  fix s assume s: "s < length (es[r := E])" "occ (es[r := E]) s"
  have "reach es (home (length es) (ie_id (es[r := E] ! s))) s"
    using s r T occ_insert [OF r(1) E] by (cases "s = r") (auto simp: table_ok_def)
  then show "reach (es[r := E]) (home (length (es[r := E])) (ie_id (es[r := E] ! s))) s"
    using reach_upd_occ [of es _ s r E] occ_insert [OF r(1) E] r(1) by simp
next
  show "unique_ids {} (es[r := E])"
    using T r(1) occ_insert [OF r(1) E] unfolding table_ok_def unique_ids_def
    by (auto simp: nth_list_update dest: fresh)
qed

lemma entries_insert:
  assumes r: "r < length es" "\<not> occ es r" and E: "ie_ptr E \<noteq> None"
  shows "entries_but {} (es[r := E]) = insert E (entries_but {} es)"
proof (intro set_eqI iffI)
  fix x assume "x \<in> entries_but {} (es[r := E])"
  then obtain s where "s < length es" "x = es[r := E] ! s" "occ (es[r := E]) s" by (auto simp: entries_but_iff)
  then show "x \<in> insert E (entries_but {} es)"
    using occ_insert [OF r(1) E] by (cases "s = r") (auto simp: entries_but_def)
next
  fix x assume x: "x \<in> insert E (entries_but {} es)"
  show "x \<in> entries_but {} (es[r := E])"
  proof (cases "x = E")
    case True
    then show ?thesis using r occ_insert [OF r(1) E] by (auto simp: entries_but_iff intro!: exI [of _ r])
  next
    case False
    then obtain s where s: "x = es ! s" "s < length es" "occ es s" using x by (auto simp: entries_but_def)
    with r(2) have "s \<noteq> r" by auto
    with s show ?thesis using occ_insert [OF r(1) E] by (auto simp: entries_but_iff intro!: exI [of _ s])
  qed
qed

text \<open>The map of an index, from its entries.\<close>

lemma contents_insert:
  assumes "unique_ids {} (ix_entries ix)" "unique_ids {} (ix_entries ix')" "contents ix i = None"
    and "entries_but {} (ix_entries ix') = insert \<lparr>ie_id = i, ie_ptr = Some p\<rparr> (entries_but {} (ix_entries ix))"
  shows "contents ix' = (contents ix)(i \<mapsto> p)"
proof (rule map_eqI)
  fix j q
  have "contents ix' j = Some q \<longleftrightarrow> (j = i \<and> q = p) \<or> contents ix j = Some q"
    unfolding contents_iff [OF assms(1)] contents_iff [OF assms(2)] assms(4) by auto
  then show "contents ix' j = Some q \<longleftrightarrow> ((contents ix)(i \<mapsto> p)) j = Some q" using assms(3) by auto
qed

lemma contents_remove:
  assumes "unique_ids {} (ix_entries ix)" "unique_ids {} (ix_entries ix')" "contents ix i = Some p"
    and "entries_but {} (ix_entries ix') = entries_but {} (ix_entries ix) - {\<lparr>ie_id = i, ie_ptr = Some p\<rparr>}"
  shows "contents ix' = (contents ix)(i := None)"
proof (rule map_eqI)
  fix j q
  have "contents ix' j = Some q \<longleftrightarrow> contents ix j = Some q \<and> \<not> (j = i \<and> q = p)"
    unfolding contents_iff [OF assms(1)] contents_iff [OF assms(2)] assms(4) by auto
  then show "contents ix' j = Some q \<longleftrightarrow> ((contents ix)(i := None)) j = Some q" using assms(3) by auto
qed

lemma index_invD:
  assumes "index_inv ix" "index_shape k ix"
  shows "length (ix_entries ix) = 2 ^ k" "ix_mask ix = 2 ^ k - 1" "k < 64" "room ix = 2 ^ k"
    "table_ok (ix_entries ix)" "unique_ids {} (ix_entries ix)"
  using assms room_shape [OF assms(2)] by (auto simp: index_inv_def index_shape_def table_ok_def)

lemma InsertId_ok:
  assumes inv: "index_inv ix" and fresh: "contents ix i = None"
    and rm: "card (dom (contents ix)) < room ix"
  shows "\<exists>ix'. InsertId i p ix = Some ix' \<and> index_inv ix' \<and> contents ix' = (contents ix)(i \<mapsto> p)
    \<and> room ix' = room ix"
proof -
  let ?es = "ix_entries ix" and ?E = "\<lparr>ie_id = i, ie_ptr = Some p\<rparr>"
  obtain k where k: "index_shape k ix" using inv index_inv_def by blast
  note D = index_invD [OF inv k]
  obtain e where e: "e < length ?es" "\<not> occ ?es e" using free_slot [OF D(6)] rm D(1,4) by auto
  have hl: "unat (MixId i AND ix_mask ix) < length ?es" by (simp add: D unat_MixId_mask)
  from probe_empty_spec [OF D(1,3) e hl] obtain r where
    r: "probe_empty ?es (2 ^ k - 1) (MixId i AND ix_mask ix) = Some r"
    "unat r < length ?es" "\<not> occ ?es (unat r)" "reach ?es (home (length ?es) i) (unat r)"
    by (auto simp: D unat_MixId_mask)
  define ix' where "ix' = ix\<lparr>ix_entries := ?es[unat r := ?E]\<rparr>"
  have T: "table_ok (ix_entries ix')"
    using table_insert [OF D(5) r(2), of ?E] r(4) contents_NoneD [OF D(6) fresh] by (simp add: ix'_def)
  moreover have "index_shape k ix'" using k by (simp add: index_shape_def ix'_def)
  moreover have "InsertId i p ix = Some ix'" using r(1,2) by (simp add: InsertId_def D(2) ix'_def)
  moreover have "contents ix' = (contents ix)(i \<mapsto> p)"
    using T entries_insert [OF r(2,3), of ?E]
    by (intro contents_insert [OF D(6) _ fresh]) (simp_all add: ix'_def table_ok_def)
  ultimately show ?thesis by (auto simp: index_inv_def ix'_def room_def)
qed

text \<open>The probe of an erase stops at the entry's slot, or at the first free slot.\<close>

lemma erase_probe_absent:
  assumes "length (ix_entries ix) = 2 ^ k" "k < 64" "ix_mask ix = 2 ^ k - 1"
    "\<And>s. s < 2 ^ k \<Longrightarrow> occ (ix_entries ix) s \<Longrightarrow> ie_id (ix_entries ix ! s) \<noteq> i"
    "unat slot < 2 ^ k"
  shows "erase_probe c i slot ix = Some (None, ix)"
  using assms(5)
proof (induction c arbitrary: slot)
  case 0
  then show ?case by simp
next
  case (Suc c)
  have "unat ((slot + 1) AND (2 ^ k - 1)) < 2 ^ k" using assms(2) by (simp add: unat_succ_mask)
  from Suc.IH [OF this] Suc.prems assms(1,3,4) show ?case by (auto simp: occ_def)
qed

lemma erase_probe_found:
  assumes len: "length (ix_entries ix) = 2 ^ k" and k: "k < 64" and m: "ix_mask ix = 2 ^ k - 1"
    and u: "unique_ids {} (ix_entries ix)"
    and s: "s < 2 ^ k" "occ (ix_entries ix) s" "ie_id (ix_entries ix ! s) = i"
    and r: "unat slot < 2 ^ k" "reach (ix_entries ix) (unat slot) s" "cdist (2 ^ k) (unat slot) s < c"
  shows "\<exists>c' w. unat w = s \<and> erase_probe c i slot ix = erase_probe (Suc c') i w ix"
  using r
proof (induction c arbitrary: slot)
  case 0
  then show ?case by simp
next
  case (Suc c)
  let ?es = "ix_entries ix"
  show ?case
  proof (cases "unat slot = s")
    case True
    then show ?thesis by blast
  next
    case False
    let ?f = "(slot + 1) AND (2 ^ k - 1)"
    have uf: "unat ?f = (unat slot + 1) mod 2 ^ k" using k by (simp add: unat_succ_mask)
    have o: "occ ?es (unat slot)" "reach ?es (unat ?f) s"
      using reach_unfold [of "unat slot" ?es s] Suc.prems(1,2) s(1) False by (simp_all add: len uf)
    have "ie_id (?es ! unat slot) \<noteq> i"
      using u False s o(1) Suc.prems(1) len unfolding unique_ids_def by auto
    then have "erase_probe (Suc c) i slot ix = erase_probe c i ?f ix"
      using o(1) Suc.prems(1) len m by (auto simp: occ_def)
    moreover have "unat ?f < 2 ^ k" "cdist (2 ^ k) (unat ?f) s < c"
      using cdist_succ_left [OF Suc.prems(1) s(1) False] Suc.prems(3) by (simp_all add: uf)
    ultimately show ?thesis using Suc.IH [OF _ o(2)] by simp
  qed
qed


lemma shift_inv_start:
  assumes T: "table_ok es" and s: "s < length es" "occ es s" and e: "e < length es" "\<not> occ es e"
  shows "shift_inv es s ((s + 1) mod length es)"
proof -
  let ?n = "length es" and ?f = "(s + 1) mod length es"
  have "e \<noteq> s" using s e by auto
  then have n: "1 < ?n" using s(1) e(1) by linarith
  have f: "?f < ?n" using n by (intro mod_less_divisor) linarith
  have fd: "cdist ?n s ?f = 1" using cdist_succ_right [of s ?n s] s(1) n by simp
  have "reach es s ?f"
    unfolding reach_def using fd s cdist_eq_0 [OF s(1)] by auto
  moreover have "s \<noteq> ?f" using fd cdist_self [of ?n s] by (metis zero_neq_one)
  moreover have "unique_ids {s} es" using T by (auto simp: table_ok_def unique_ids_def)
  moreover have "reach es (home ?n (ie_id (es ! x))) x \<and> cdist ?n s ?f \<le> cdist ?n s x"
    if "x < ?n" "occ es x" "x \<noteq> s" for x
  proof -
    have "cdist ?n s x \<noteq> 0" using that s(1) by (simp add: cdist_eq_0)
    then show ?thesis using T that fd by (simp add: table_ok_def)
  qed
  ultimately show ?thesis using s(1) f by (auto simp: shift_inv_def Let_def)
qed

lemma entries_clear: "entries_but {} (es[h := empty_entry]) = entries_but {h} es"
proof (rule set_eqI)
  fix x
  have "(\<exists>s<length es. x = es[h := empty_entry] ! s \<and> occ (es[h := empty_entry]) s)
      \<longleftrightarrow> (\<exists>s<length es. x = es ! s \<and> occ es s \<and> s \<noteq> h)"
    using occ_clear [of _ es h] nth_list_update_neq [of h _ es empty_entry] by metis
  then show "x \<in> entries_but {} (es[h := empty_entry]) \<longleftrightarrow> x \<in> entries_but {h} es"
    by (simp add: entries_but_iff)
qed

text \<open>The erase from the slot of the entry: the chain behind it is closed.\<close>

lemma erase_found:
  assumes inv: "index_inv ix" and k: "index_shape k ix" and e: "e < length (ix_entries ix)" "\<not> occ (ix_entries ix) e"
    and s: "unat w < length (ix_entries ix)" "ix_entries ix ! unat w = \<lparr>ie_id = i, ie_ptr = Some p\<rparr>"
  shows "\<exists>ix'. erase_probe (Suc c) i w ix = Some (Some p, ix') \<and> index_inv ix' \<and> room ix' = room ix
    \<and> entries_but {} (ix_entries ix') = entries_but {} (ix_entries ix) - {\<lparr>ie_id = i, ie_ptr = Some p\<rparr>}"
proof -
  let ?es = "ix_entries ix" and ?f = "(w + 1) AND (2 ^ k - 1)"
  note D = index_invD [OF inv k]
  have os: "occ ?es (unat w)" using s(2) by (simp add: occ_def)
  have "shift_inv ?es (unat w) (unat ?f)"
    using shift_inv_start [OF D(5) s(1) os e] D(3) by (simp add: unat_succ_mask D(1))
  from shift_back_spec [OF this D(1,3) e] obtain es' hole' where
    h: "shift_back ?es (2 ^ k - 1) w ?f = Some (es', hole')" "length es' = 2 ^ k" "unat hole' < 2 ^ k"
      "table_ok (es'[unat hole' := empty_entry])" "entries_but {unat hole'} es' = entries_but {unat w} ?es"
    by (auto simp: D(1))
  define ix' where "ix' = ix\<lparr>ix_entries := es'[unat hole' := empty_entry]\<rparr>"
  have "erase_probe (Suc c) i w ix = Some (Some p, ix')" using s h D(1,2) by (simp add: ix'_def)
  moreover have "index_shape k ix'" using k h(2) by (simp add: index_shape_def ix'_def)
  moreover have "entries_but {unat w} ?es = entries_but {} ?es - {?es ! unat w}"
    using D(6) s(1) os unfolding entries_but_def unique_ids_def by (auto; metis)
  then have "entries_but {} (ix_entries ix') = entries_but {} ?es - {\<lparr>ie_id = i, ie_ptr = Some p\<rparr>}"
    by (simp add: ix'_def entries_clear h(5) s(2))
  ultimately show ?thesis using h(4) by (auto simp: index_inv_def ix'_def room_def)
qed

lemma LookupAndEraseId_ok:
  assumes inv: "index_inv ix" and rm: "card (dom (contents ix)) < room ix"
  shows "\<exists>ix'. LookupAndEraseId i ix = Some (contents ix i, ix') \<and> index_inv ix'
    \<and> contents ix' = (contents ix)(i := None) \<and> room ix' = room ix"
proof -
  let ?es = "ix_entries ix"
  obtain k where k: "index_shape k ix" using inv index_inv_def by blast
  note D = index_invD [OF inv k]
  have st: "unat (MixId i AND ix_mask ix) < 2 ^ k" by (simp add: D unat_MixId_mask)
  show ?thesis
  proof (cases "contents ix i")
    case None
    have "LookupAndEraseId i ix = Some (None, ix)"
      unfolding LookupAndEraseId_def
      by (rule erase_probe_absent [OF D(1,3,2) _ st]) (use contents_NoneD [OF D(6) None] D(1) in auto)
    with None inv show ?thesis by (auto simp: fun_upd_idem)
  next
    case (Some p)
    then have "\<lparr>ie_id = i, ie_ptr = Some p\<rparr> \<in> entries_but {} ?es" using contents_iff [OF D(6)] by blast
    then obtain s where s: "s < length ?es" "occ ?es s" "?es ! s = \<lparr>ie_id = i, ie_ptr = Some p\<rparr>"
      unfolding entries_but_iff by metis
    obtain e where e: "e < length ?es" "\<not> occ ?es e" using free_slot [OF D(6)] rm D(1,4) by auto
    have "reach ?es (unat (MixId i AND ix_mask ix)) s"
      using D(5) s by (auto simp: table_ok_def D(1,2) unat_MixId_mask)
    from erase_probe_found [OF D(1,3,2,6) _ s(2) _ st this, of i "2 ^ k"] s(1,3) D(1,4)
    obtain c w where w: "unat w = s" "LookupAndEraseId i ix = erase_probe (Suc c) i w ix"
      unfolding LookupAndEraseId_def by (auto simp: cdist_def room_def)
    from erase_found [OF inv k e, of w i p c] s(1,3) w obtain ix' where
      "LookupAndEraseId i ix = Some (Some p, ix')" "index_inv ix'" "room ix' = room ix"
      "entries_but {} (ix_entries ix') = entries_but {} ?es - {\<lparr>ie_id = i, ie_ptr = Some p\<rparr>}" by auto
    moreover from this have "contents ix' = (contents ix)(i := None)"
      by (intro contents_remove [OF D(6) _ Some]) (auto simp: index_inv_def table_ok_def)
    ultimately show ?thesis using Some by simp
  qed
qed

section \<open>Construction\<close>

lemma RoundUpPow2_loop_spec:
  assumes "n \<le> 2 ^ 63" "j \<le> 63" "j = 0 \<or> 2 ^ (j - 1) < unat n"
  shows "\<exists>k \<le> 63. RoundUpPow2_loop n (2 ^ j) = Some (2 ^ k) \<and> unat n \<le> 2 ^ k
    \<and> (k = 0 \<or> 2 ^ (k - 1) < unat n)"
  using assms(2,3)
proof (induction "63 - j" arbitrary: j)
  case 0
  then have j: "j = 63" by simp
  have "\<not> 2 ^ 63 < n" using assms(1) by simp
  moreover have "unat n \<le> 2 ^ 63" using assms(1) unat_pow2 [of 63] by (simp add: word_le_nat_alt)
  ultimately show ?case using 0 j
    by (auto simp: RoundUpPow2_loop.simps [of n 9223372036854775808] intro!: exI [of _ 63])
next
  case (Suc d)
  have lt: "2 ^ j < n \<longleftrightarrow> 2 ^ j < unat n" using Suc.prems(1) by (simp add: word_less_nat_alt unat_pow2)
  show ?case
  proof (cases "2 ^ j < n")
    case True
    have "RoundUpPow2_loop n (2 ^ j) = RoundUpPow2_loop n (2 ^ Suc j)"
      using True
      by (simp add: RoundUpPow2_loop.simps [of n "2 ^ j"] push_bit_eq_mult mult.commute)
    moreover have "d = 63 - Suc j" "Suc j \<le> 63" using Suc.hyps(2) by auto
    ultimately show ?thesis using Suc.hyps(1) [of "Suc j"] True lt by simp
  next
    case False
    then have "RoundUpPow2_loop n (2 ^ j) = Some (2 ^ j)"
      by (simp add: RoundUpPow2_loop.simps [of n "2 ^ j"])
    then show ?thesis using False lt Suc.prems by auto
  qed
qed

lemma RoundUpPow2_spec:
  assumes "n \<le> 2 ^ 63"
  shows "\<exists>k \<le> 63. RoundUpPow2 n = Some (2 ^ k) \<and> unat n \<le> 2 ^ k \<and> (k = 0 \<or> 2 ^ (k - 1) < unat n)"
  using RoundUpPow2_loop_spec [OF assms, of 0] by (simp add: RoundUpPow2_def)

text \<open>Above \<open>2\<^sup>6\<^sup>3\<close> the shift runs through 0 and the loop never ends.\<close>

lemma RoundUpPow2_loop_zero: "0 < n \<Longrightarrow> RoundUpPow2_loop n 0 = None"
proof (rule ccontr)
  assume n: "0 < n" and "RoundUpPow2_loop n 0 \<noteq> None"
  then obtain r where r: "RoundUpPow2_loop n 0 = Some r" by auto
  have "\<not> (0 < n \<and> (0::u64) = 0)"
  proof (rule RoundUpPow2_loop.raw_induct [where P = "\<lambda>n p r. \<not> (0 < n \<and> p = 0)", OF _ r])
    fix f :: "u64 \<Rightarrow> u64 \<Rightarrow> u64 option" and n p r :: u64
    assume IH: "\<And>n p r. f n p = Some r \<Longrightarrow> \<not> (0 < n \<and> p = 0)"
      and eq: "(if p < n then f n (push_bit 1 p) else Some p) = Some r"
    show "\<not> (0 < n \<and> p = 0)"
    proof
      assume a: "0 < n \<and> p = 0"
      with eq have "f n 0 = Some r" by simp
      from IH [OF this] a show False by simp
    qed
  qed
  with n show False by simp
qed

lemma RoundUpPow2_diverges:
  assumes "2 ^ 63 < n"
  shows "RoundUpPow2 n = None"
proof -
  have "j \<le> 63 \<Longrightarrow> RoundUpPow2_loop n (2 ^ j) = None" for j
  proof (induction "63 - j" arbitrary: j)
    case 0
    then have "j = 63" by simp
    have z: "(18446744073709551616 :: u64) = 0" by code_simp
    have "0 < n" using assms by (simp add: word_less_nat_alt)
    then have n: "RoundUpPow2_loop n 0 = None" by (rule RoundUpPow2_loop_zero)
    have "RoundUpPow2_loop n 9223372036854775808 = RoundUpPow2_loop n 18446744073709551616"
      using assms by (simp add: RoundUpPow2_loop.simps [of n 9223372036854775808])
    then have "RoundUpPow2_loop n 9223372036854775808 = None" unfolding z by (simp only: n)
    then show ?case by (simp add: \<open>j = 63\<close>)
  next
    case (Suc d)
    have "(2::u64) ^ j \<le> 2 ^ 63"
      using Suc.prems power_increasing [of j 63 "2::nat"] by (simp add: word_le_nat_alt unat_pow2)
    then have "2 ^ j < n" using assms by simp
    moreover have "RoundUpPow2_loop n (2 ^ Suc j) = None"
      using Suc.hyps(1) [of "Suc j"] Suc.hyps(2) by simp
    ultimately show ?case
      by (simp add: RoundUpPow2_loop.simps [of n "2 ^ j"] push_bit_eq_mult mult.commute)
  qed
  from this [of 0] show ?thesis by (simp add: RoundUpPow2_def)
qed


lemma contents_clear: "contents \<lparr>ix_capacity = c, ix_mask = m, ix_entries = replicate n empty_entry\<rparr> = Map.empty"
proof -
  have "concat (map (\<lambda>e. case ie_ptr e of None \<Rightarrow> [] | Some p \<Rightarrow> [(ie_id e, p)])
      (replicate n empty_entry)) = []"
    by (simp add: empty_entry_def)
  then show ?thesis by (simp add: contents_def)
qed

lemma table_ok_clear: "table_ok (replicate n empty_entry)"
  by (auto simp: table_ok_def unique_ids_def occ_def empty_entry_def)

text \<open>Any capacity up to \<open>2\<^sup>6\<^sup>2\<close> gives an index of more than twice as many slots.\<close>

lemma id_index_new_ok:
  assumes "c \<le> 2 ^ 62"
  shows "\<exists>ix. id_index_new c = Some ix \<and> index_inv ix \<and> contents ix = Map.empty
    \<and> 2 * max (unat c) 1 \<le> room ix"
proof -
  have c: "unat c \<le> 2 ^ 62" using assms unat_pow2 [of 62] by (simp add: word_le_nat_alt)
  have mx: "unat (max c 1) = max (unat c) 1" by (auto simp: max_def word_le_nat_alt)
  have u: "unat (max c 1 * 2) = 2 * max (unat c) 1"
    using c by (simp add: unat_word_ariths mx)
  then have "max c 1 * 2 \<le> 2 ^ 63" using c by (simp add: word_le_nat_alt)
  from RoundUpPow2_spec [OF this] obtain k where k: "k \<le> 63"
    "RoundUpPow2 (max c 1 * 2) = Some (2 ^ k)" "2 * max (unat c) 1 \<le> 2 ^ k" by (auto simp: u)
  let ?ix = "\<lparr>ix_capacity = 2 ^ k, ix_mask = 2 ^ k - 1,
    ix_entries = replicate (unat (2 ^ k :: u64)) empty_entry\<rparr>"
  have sh: "index_shape k ?ix" using k(1) by (simp add: index_shape_def unat_pow2)
  have "id_index_new c = Some ?ix" using k(2) by (simp add: id_index_new_def)
  moreover have "index_inv ?ix" using sh by (auto simp: index_inv_def table_ok_clear)
  moreover have "2 * max (unat c) 1 \<le> room ?ix" using room_shape [OF sh] k(3) by simp
  ultimately show ?thesis using contents_clear by blast
qed

interpretation ids: id_map InsertId LookupAndEraseId contents index_inv room
proof (unfold_locales, goal_cases)
  case (1 m)
  then show ?case by simp
next
  case (2 m k v)
  then show ?case by (rule InsertId_ok)
next
  case (3 m k)
  then show ?case by (rule LookupAndEraseId_ok)
qed

section \<open>Correctness\<close>

text \<open>C10: the id index survives any churn. On an index built for capacity \<open>c\<close>, every
  script of inserts (of ids not present, at most \<open>c\<close> at a time) and erases, however long,
  returns (no probe loop spins) and answers exactly like a map: each erase returns the pointer
  last stored under that id, or null.\<close>

theorem id_index_churn_is_map:
  assumes "c \<le> 2 ^ 62"
  shows "\<exists>ix ix'. id_index_new c = Some ix
    \<and> churn InsertId LookupAndEraseId (unat c) ops ix []
        = Some (fst (churn_spec (unat c) ops Map.empty []), ix')
    \<and> contents ix' = snd (churn_spec (unat c) ops Map.empty [])"
proof -
  obtain ix where ix: "id_index_new c = Some ix" "index_inv ix" "contents ix = Map.empty"
    "2 * max (unat c) 1 \<le> room ix"
    using id_index_new_ok [OF assms] by blast
  then have "unat c < room ix" by linarith
  with ids.churn_refines [OF ix(2), of "[]" "unat c" ops] ix(1,3) show ?thesis by auto
qed

theorem id_index_churn_is_map_witness:
  "\<exists>ix ix'. id_index_new 2 = Some ix
    \<and> churn InsertId LookupAndEraseId 2 [MIns 5 0, MIns 9 1, MDel 5, MDel 5, MDel 9] ix []
        = Some ([Some 0, None, Some 1], ix')"
  using id_index_churn_is_map [of 2 "[MIns 5 0, MIns 9 1, MDel 5, MDel 5, MDel 9]"]
  by (auto simp: Let_def)

text \<open>One erase on any well-formed index with a free slot: it terminates, returns what the
  map holds under the id, removes that id and no other, and leaves the index well-formed (every
  remaining entry is still reachable by probing from its home slot).\<close>

theorem LookupAndEraseId_correct:
  assumes "index_inv ix" "card (dom (contents ix)) < room ix"
  shows "\<exists>ix'. LookupAndEraseId i ix = Some (contents ix i, ix') \<and> index_inv ix'
    \<and> contents ix' = (contents ix)(i := None) \<and> room ix' = room ix"
  using assms by (rule LookupAndEraseId_ok)

theorem LookupAndEraseId_correct_witness:
  "\<exists>ix ix' ix''. id_index_new 1 = Some ix \<and> InsertId 7 3 ix = Some ix'
     \<and> LookupAndEraseId 7 ix' = Some (Some 3, ix'') \<and> contents ix'' = Map.empty"
proof -
  obtain ix where ix: "id_index_new 1 = Some ix" "index_inv ix" "contents ix = Map.empty"
    "2 \<le> room ix"
    using id_index_new_ok [of 1] by auto
  obtain ix' where ix': "InsertId 7 3 ix = Some ix'" "index_inv ix'" "contents ix' = [7 \<mapsto> 3]"
    "room ix' = room ix"
    using InsertId_ok [OF ix(2), of 7 3] ix(3,4) by auto
  from LookupAndEraseId_correct [OF ix'(2), of 7] ix' ix show ?thesis by auto
qed

text \<open>C12: \<^verbatim>\<open>RoundUpPow2\<close> returns exactly for arguments up to \<open>2\<^sup>6\<^sup>3\<close>, and
  then the least power of two that is not smaller; above, its shift reaches 0 and the loop
  never ends.\<close>

theorem RoundUpPow2_returns_iff:
  "(RoundUpPow2 n \<noteq> None \<longleftrightarrow> n \<le> 2 ^ 63)
   \<and> (\<forall>p. RoundUpPow2 n = Some p \<longrightarrow>
        (\<exists>k. p = 2 ^ k \<and> unat p = 2 ^ k \<and> unat n \<le> 2 ^ k \<and> (\<forall>j<k. 2 ^ j < unat n)))"
proof (cases "n \<le> 2 ^ 63")
  case True
  from RoundUpPow2_spec [OF this] obtain k where k: "k \<le> 63" "RoundUpPow2 n = Some (2 ^ k)"
    "unat n \<le> 2 ^ k" "k = 0 \<or> 2 ^ (k - 1) < unat n" by blast
  have "2 ^ j < unat n" if "j < k" for j
  proof -
    have "(2::nat) ^ j \<le> 2 ^ (k - 1)" using that by (intro power_increasing) auto
    moreover have "2 ^ (k - 1) < unat n" using k(4) that by auto
    ultimately show ?thesis by (rule le_less_trans)
  qed
  with k True show ?thesis using unat_pow2 [of k] by auto
next
  case False
  then show ?thesis using RoundUpPow2_diverges [of n] by simp
qed

theorem RoundUpPow2_returns_iff_witness:
  "RoundUpPow2 10 = Some 16 \<and> (\<exists>k. (16::u64) = 2 ^ k \<and> (10::nat) \<le> 2 ^ k)"
proof -
  have r: "RoundUpPow2 10 = Some 16" by (simp add: RoundUpPow2_def run_simps)
  have "\<exists>k. (16::u64) = 2 ^ k \<and> unat (16::u64) = 2 ^ k \<and> unat (10::u64) \<le> 2 ^ k \<and> (\<forall>j<k. 2 ^ j < unat (10::u64))"
    using RoundUpPow2_returns_iff [of 10] r by blast
  then show ?thesis using r by auto
qed

end
