(* ===== verification/Level_Fifo.thy ===== *)
theory Level_Fifo imports Slab_Allocator Id_Index begin

text \<open>
  Orders and the intrusive FIFO of one price level
  (\<^verbatim>\<open>Order\<close>, \<^verbatim>\<open>LevelFIFO\<close>, \<^verbatim>\<open>PushBackToLevel\<close>,
  \<^verbatim>\<open>UnlinkFromLevel\<close> and the head pop of \<^verbatim>\<open>ConsumeLevel\<close> in
  \<^verbatim>\<open>cpp/core/order_book.hpp\<close>). The list is threaded through the nodes of the slab, so
  every operation takes and returns the slab; \<open>level_rep\<close> says that a level's head, tail and
  links spell a given list of nodes in both directions and that its two counters agree with it.
\<close>

section \<open>Data\<close>

type_synonym Price = int
type_synonym Quantity = u64

datatype Side = kBuy | kSell

text \<open>A type of two values: quantifiers over it compute.\<close>

instantiation Side :: enum
begin

definition enum_Side :: "Side list" where "enum_Side = [kBuy, kSell]"
definition enum_all_Side :: "(Side \<Rightarrow> bool) \<Rightarrow> bool" where "enum_all_Side P \<longleftrightarrow> P kBuy \<and> P kSell"
definition enum_ex_Side :: "(Side \<Rightarrow> bool) \<Rightarrow> bool" where "enum_ex_Side P \<longleftrightarrow> P kBuy \<or> P kSell"

lemma UNIV_Side: "UNIV = {kBuy, kSell}"
  using Side.exhaust by auto

instance
  by standard (simp_all add: enum_Side_def enum_all_Side_def enum_ex_Side_def UNIV_Side)

end

lemma all_Side: "(\<forall>s. P s) \<longleftrightarrow> P kBuy \<and> P kSell"
  by (metis Side.exhaust)

lemma ex_Side: "(\<exists>s. P s) \<longleftrightarrow> P kBuy \<or> P kSell"
  by (metis Side.exhaust)

record Fill =
  fl_maker_id :: OrderId
  fl_taker_id :: OrderId
  fl_price :: Price
  fl_qty :: Quantity
  fl_taker_side :: Side

record Order =
  o_id :: OrderId
  o_price :: Price
  o_qty :: Quantity
  o_side :: Side
  o_prev :: "ptr option"
  o_next :: "ptr option"

record LevelFIFO =
  lv_head :: "ptr option"
  lv_tail :: "ptr option"
  lv_total_qty :: Quantity
  lv_order_count :: u32

definition empty_level :: LevelFIFO where
  "empty_level = \<lparr>lv_head = None, lv_tail = None, lv_total_qty = 0, lv_order_count = 0\<rparr>"

definition level_empty :: "LevelFIFO \<Rightarrow> bool" where
  "level_empty lvl \<longleftrightarrow> lv_head lvl = None"

section \<open>Operations\<close>

text \<open>\<^verbatim>\<open>if (q != nullptr) q->next = v; else lvl.head = v;\<close> and its mirror image.\<close>

definition set_next :: "ptr option \<Rightarrow> ptr option \<Rightarrow> LevelFIFO \<Rightarrow> Order slab \<Rightarrow> (LevelFIFO \<times> Order slab) option" where
  "set_next q v lvl s =
     (case q of
        Some p \<Rightarrow> do { r \<leftarrow> deref s p; s' \<leftarrow> assign p (r\<lparr>o_next := v\<rparr>) s; Some (lvl, s') }
      | None \<Rightarrow> Some (lvl\<lparr>lv_head := v\<rparr>, s))"

definition set_prev :: "ptr option \<Rightarrow> ptr option \<Rightarrow> LevelFIFO \<Rightarrow> Order slab \<Rightarrow> (LevelFIFO \<times> Order slab) option" where
  "set_prev q v lvl s =
     (case q of
        Some p \<Rightarrow> do { r \<leftarrow> deref s p; s' \<leftarrow> assign p (r\<lparr>o_prev := v\<rparr>) s; Some (lvl, s') }
      | None \<Rightarrow> Some (lvl\<lparr>lv_tail := v\<rparr>, s))"

definition UnlinkFromLevel :: "LevelFIFO \<Rightarrow> ptr \<Rightarrow> Order slab \<Rightarrow> (LevelFIFO \<times> Order slab) option" where
  "UnlinkFromLevel lvl p s = do {
     x \<leftarrow> deref s p;
     (lvl1, s1) \<leftarrow> set_next (o_prev x) (o_next x) lvl s;
     x1 \<leftarrow> deref s1 p;
     (lvl2, s2) \<leftarrow> set_prev (o_next x1) (o_prev x1) lvl1 s1;
     x2 \<leftarrow> deref s2 p;
     Some (lvl2\<lparr>lv_total_qty := lv_total_qty lvl2 - o_qty x2,
                lv_order_count := lv_order_count lvl2 - 1\<rparr>, s2)
   }"

definition PushBackToLevel :: "LevelFIFO \<Rightarrow> ptr \<Rightarrow> Order slab \<Rightarrow> (LevelFIFO \<times> Order slab) option" where
  "PushBackToLevel lvl p s = do {
     x \<leftarrow> deref s p;
     s1 \<leftarrow> assign p (x\<lparr>o_prev := lv_tail lvl, o_next := None\<rparr>) s;
     (lvl1, s2) \<leftarrow> set_next (lv_tail lvl) (Some p) lvl s1;
     x2 \<leftarrow> deref s2 p;
     Some (lvl1\<lparr>lv_tail := Some p, lv_total_qty := lv_total_qty lvl1 + o_qty x2,
                lv_order_count := lv_order_count lvl1 + 1\<rparr>, s2)
   }"

text \<open>The pop of a filled maker: the head moves on, the new head loses its back link.\<close>

definition PopHead :: "LevelFIFO \<Rightarrow> ptr \<Rightarrow> Order slab \<Rightarrow> (LevelFIFO \<times> Order slab) option" where
  "PopHead lvl maker s = do {
     x \<leftarrow> deref s maker;
     let lvl1 = lvl\<lparr>lv_head := o_next x\<rparr>;
     (lvl2, s2) \<leftarrow> set_prev (lv_head lvl1) None lvl1 s;
     Some (lvl2\<lparr>lv_order_count := lv_order_count lvl2 - 1\<rparr>, s2)
   }"

section \<open>Lists through the nodes\<close>

text \<open>\<open>lst f x ps\<close>: following \<open>f\<close> from \<open>x\<close> visits exactly \<open>ps\<close> and ends in null.\<close>

fun lst :: "(ptr \<Rightarrow> ptr option) \<Rightarrow> ptr option \<Rightarrow> ptr list \<Rightarrow> bool" where
  "lst f x [] = (x = None)"
| "lst f x (p # ps) = (x = Some p \<and> lst f (f p) ps)"

definition first :: "ptr list \<Rightarrow> ptr option" where
  "first ps = (case ps of [] \<Rightarrow> None | p # _ \<Rightarrow> Some p)"

lemma first_simps [simp]: "first [] = None" "first (p # ps) = Some p"
  by (simp_all add: first_def)

lemma lst_first: "lst f x ps \<Longrightarrow> x = first ps"
  by (cases ps) auto

lemma lst_upd [simp]: "p \<notin> set ps \<Longrightarrow> lst (f(p := v)) x ps = lst f x ps"
  by (induction ps arbitrary: x) auto

lemma lst_cong: "(\<And>p. p \<in> set ps \<Longrightarrow> f p = g p) \<Longrightarrow> lst f x ps = lst g x ps"
  by (induction ps arbitrary: x) auto

lemma lst_unique: "lst f x ps \<Longrightarrow> lst f x qs \<Longrightarrow> ps = qs"
  by (induction ps arbitrary: x qs) (case_tac qs; auto)+

lemma lst_next: "lst f x (xs @ p # ys) \<Longrightarrow> f p = first ys"
  by (induction xs arbitrary: x) (auto dest: lst_first)

text \<open>Taking \<open>p\<close> out: its predecessor (or the head) takes over its link.\<close>

lemma lst_remove:
  assumes "lst f x (xs @ p # ys)" "distinct (xs @ p # ys)"
  shows "case first (rev xs) of
      None \<Rightarrow> lst f (f p) (xs @ ys)
    | Some q \<Rightarrow> q \<in> set xs \<and> lst (f(q := f p)) x (xs @ ys)"
proof (cases xs rule: rev_cases)
  case Nil
  with assms show ?thesis by simp
next
  case (snoc zs q)
  have "lst (f(q := f p)) x (zs @ q # ys)" if "lst f x (zs @ q # p # ys)" "distinct (zs @ q # p # ys)"
    using that by (induction zs arbitrary: x) auto
  with assms snoc show ?thesis by simp
qed

lemma lst_append:
  assumes "lst f x ps" "distinct ps" "p \<notin> set ps" "f p = None"
  shows "case first (rev ps) of
      None \<Rightarrow> lst f (Some p) (ps @ [p])
    | Some q \<Rightarrow> q \<in> set ps \<and> lst (f(q := Some p)) x (ps @ [p])"
proof (cases ps rule: rev_cases)
  case Nil
  with assms show ?thesis by simp
next
  case (snoc zs q)
  have "lst (f(q := Some p)) x (zs @ [q, p])" if "lst f x (zs @ [q])" "distinct (zs @ [q])" "p \<notin> set (zs @ [q])"
    using that assms(4) by (induction zs arbitrary: x) auto
  with assms snoc show ?thesis by simp
qed

section \<open>The representation of a level\<close>

definition nextf :: "(ptr \<Rightarrow> Order option) \<Rightarrow> ptr \<Rightarrow> ptr option" where
  "nextf h p = (case h p of Some x \<Rightarrow> o_next x | None \<Rightarrow> None)"

definition prevf :: "(ptr \<Rightarrow> Order option) \<Rightarrow> ptr \<Rightarrow> ptr option" where
  "prevf h p = (case h p of Some x \<Rightarrow> o_prev x | None \<Rightarrow> None)"

definition qtyf :: "(ptr \<Rightarrow> Order option) \<Rightarrow> ptr \<Rightarrow> Quantity" where
  "qtyf h p = (case h p of Some x \<Rightarrow> o_qty x | None \<Rightarrow> 0)"

text \<open>An order without its links: what the book's clients can see of it.\<close>

definition datum :: "(ptr \<Rightarrow> Order option) \<Rightarrow> ptr \<Rightarrow> (OrderId \<times> Price \<times> Quantity \<times> Side) option" where
  "datum h p = map_option (\<lambda>x. (o_id x, o_price x, o_qty x, o_side x)) (h p)"

definition level_rep :: "(ptr \<Rightarrow> Order option) \<Rightarrow> LevelFIFO \<Rightarrow> ptr list \<Rightarrow> bool" where
  "level_rep h lvl ps \<longleftrightarrow>
     distinct ps \<and> set ps \<subseteq> dom h
     \<and> lst (nextf h) (lv_head lvl) ps \<and> lst (prevf h) (lv_tail lvl) (rev ps)
     \<and> lv_total_qty lvl = sum_list (map (qtyf h) ps)
     \<and> lv_order_count lvl = of_nat (length ps)"

lemma level_repD:
  assumes "level_rep h lvl ps"
  shows "distinct ps" "set ps \<subseteq> dom h" "lst (nextf h) (lv_head lvl) ps"
    "lst (prevf h) (lv_tail lvl) (rev ps)" "lv_total_qty lvl = sum_list (map (qtyf h) ps)"
    "lv_order_count lvl = of_nat (length ps)"
  using assms by (auto simp: level_rep_def)

lemma level_rep_empty [simp]: "level_rep h empty_level []"
  by (simp add: level_rep_def empty_level_def)

lemma level_rep_head: "level_rep h lvl ps \<Longrightarrow> lv_head lvl = first ps"
  by (auto simp: level_rep_def dest: lst_first)

lemma level_empty_iff: "level_rep h lvl ps \<Longrightarrow> level_empty lvl \<longleftrightarrow> ps = []"
  using level_rep_head [of h lvl ps] by (cases ps) (auto simp: level_empty_def)

lemma level_rep_unique: "level_rep h lvl ps \<Longrightarrow> level_rep h lvl qs \<Longrightarrow> ps = qs"
  using lst_unique level_repD(3) by blast

lemma level_rep_frame:
  assumes "\<And>q. q \<in> set ps \<Longrightarrow> h' q = h q"
  shows "level_rep h' lvl ps \<longleftrightarrow> level_rep h lvl ps"
proof -
  have n: "lst (nextf h') x ps = lst (nextf h) x ps" for x
    using assms by (intro lst_cong) (simp add: nextf_def)
  have p: "lst (prevf h') x (rev ps) = lst (prevf h) x (rev ps)" for x
    using assms by (intro lst_cong) (simp add: prevf_def)
  have q: "map (qtyf h') ps = map (qtyf h) ps"
    using assms by (simp add: qtyf_def)
  have "set ps \<subseteq> dom h' \<longleftrightarrow> set ps \<subseteq> dom h" using assms by (auto simp: subset_iff domIff)
  then show ?thesis unfolding level_rep_def n p q by (simp only:)
qed

lemma dom_datum [simp]: "dom (datum h) = dom h"
  by (auto simp: datum_def)

lemma datum_dom: "datum h' = datum h \<Longrightarrow> dom h' = dom h"
  using dom_datum by metis

lemma datum_qtyf: "datum h' = datum h \<Longrightarrow> qtyf h' = qtyf h"
proof
  fix p assume "datum h' = datum h"
  then have "datum h' p = datum h p" by simp
  then show "qtyf h' p = qtyf h p"
    by (cases "h p"; cases "h' p") (auto simp: datum_def qtyf_def)
qed


section \<open>What the operations do to the list\<close>

lemma assign_ok:
  assumes "slab_inv s" "deref s p = Some v"
  shows "\<exists>s'. assign p w s = Some s' \<and> slab_inv s' \<and> live s' = live s
    \<and> sl_capacity s' = sl_capacity s \<and> deref s' = (deref s)(p \<mapsto> w)"
  using pool.put_live [OF assms(1) pool.get_live [OF assms]] .

text \<open>The pool after a level operation: same slots, same orders; only links inside \<open>A\<close> moved.\<close>

definition links_moved :: "ptr set \<Rightarrow> Order slab \<Rightarrow> Order slab \<Rightarrow> bool" where
  "links_moved A s s' \<longleftrightarrow> slab_inv s' \<and> live s' = live s \<and> sl_capacity s' = sl_capacity s
     \<and> datum (deref s') = datum (deref s) \<and> (\<forall>q. q \<notin> A \<longrightarrow> deref s' q = deref s q)"

lemma links_movedD:
  assumes "links_moved A s s'"
  shows "slab_inv s'" "live s' = live s" "sl_capacity s' = sl_capacity s"
    "datum (deref s') = datum (deref s)" "q \<notin> A \<Longrightarrow> deref s' q = deref s q"
  using assms by (auto simp: links_moved_def)

lemma links_moved_refl: "slab_inv s \<Longrightarrow> links_moved A s s"
  by (simp add: links_moved_def)

lemma links_moved_trans: "links_moved A s s' \<Longrightarrow> links_moved A s' s'' \<Longrightarrow> links_moved A s s''"
  by (simp add: links_moved_def)

lemma datum_upd: "h p = Some r \<Longrightarrow>
    (o_id x, o_price x, o_qty x, o_side x) = (o_id r, o_price r, o_qty r, o_side r)
    \<Longrightarrow> datum (h(p \<mapsto> x)) = datum h"
  by (auto simp: datum_def fun_eq_iff)

lemma set_next_ok:
  assumes "slab_inv s" "\<And>p. q = Some p \<Longrightarrow> p \<in> A \<and> p \<in> dom (deref s)"
  shows "\<exists>s'. set_next q v lvl s = Some (if q = None then lvl\<lparr>lv_head := v\<rparr> else lvl, s')
    \<and> links_moved A s s' \<and> prevf (deref s') = prevf (deref s)
    \<and> nextf (deref s') = (case q of None \<Rightarrow> nextf (deref s) | Some p \<Rightarrow> (nextf (deref s))(p := v))"
proof (cases q)
  case None
  then show ?thesis using assms(1) by (simp add: set_next_def links_moved_refl)
next
  case (Some p)
  with assms(2) obtain r where r: "deref s p = Some r" "p \<in> A" by blast
  from assign_ok [OF assms(1) r(1), of "r\<lparr>o_next := v\<rparr>"] obtain s' where
    s': "assign p (r\<lparr>o_next := v\<rparr>) s = Some s'" "slab_inv s'" "live s' = live s"
    "sl_capacity s' = sl_capacity s" "deref s' = (deref s)(p \<mapsto> r\<lparr>o_next := v\<rparr>)" by blast
  have "links_moved A s s'"
    using s' r datum_upd [of "deref s" p r "r\<lparr>o_next := v\<rparr>"] by (auto simp: links_moved_def)
  moreover have "prevf (deref s') = prevf (deref s)" "nextf (deref s') = (nextf (deref s))(p := v)"
    using s'(5) r(1) by (auto simp: prevf_def nextf_def fun_eq_iff)
  ultimately show ?thesis using Some r s'(1) by (simp add: set_next_def)
qed

lemma set_prev_ok:
  assumes "slab_inv s" "\<And>p. q = Some p \<Longrightarrow> p \<in> A \<and> p \<in> dom (deref s)"
  shows "\<exists>s'. set_prev q v lvl s = Some (if q = None then lvl\<lparr>lv_tail := v\<rparr> else lvl, s')
    \<and> links_moved A s s' \<and> nextf (deref s') = nextf (deref s)
    \<and> prevf (deref s') = (case q of None \<Rightarrow> prevf (deref s) | Some p \<Rightarrow> (prevf (deref s))(p := v))"
proof (cases q)
  case None
  then show ?thesis using assms(1) by (simp add: set_prev_def links_moved_refl)
next
  case (Some p)
  with assms(2) obtain r where r: "deref s p = Some r" "p \<in> A" by blast
  from assign_ok [OF assms(1) r(1), of "r\<lparr>o_prev := v\<rparr>"] obtain s' where
    s': "assign p (r\<lparr>o_prev := v\<rparr>) s = Some s'" "slab_inv s'" "live s' = live s"
    "sl_capacity s' = sl_capacity s" "deref s' = (deref s)(p \<mapsto> r\<lparr>o_prev := v\<rparr>)" by blast
  have "links_moved A s s'"
    using s' r datum_upd [of "deref s" p r "r\<lparr>o_prev := v\<rparr>"] by (auto simp: links_moved_def)
  moreover have "nextf (deref s') = nextf (deref s)" "prevf (deref s') = (prevf (deref s))(p := v)"
    using s'(5) r(1) by (auto simp: prevf_def nextf_def fun_eq_iff)
  ultimately show ?thesis using Some r s'(1) by (simp add: set_prev_def)
qed

lemma level_links:
  assumes "level_rep h lvl (xs @ p # ys)"
  shows "nextf h p = first ys" "prevf h p = first (rev xs)"
  using lst_next [of "nextf h" _ xs p ys] lst_next [of "prevf h" _ "rev ys" p "rev xs"]
    level_repD(3,4) [OF assms] by auto

lemma first_mem: "first ps = Some q \<Longrightarrow> q \<in> set ps"
  by (cases ps) auto

lemma level_rep_unlink:
  assumes L: "level_rep h lvl (xs @ p # ys)" and x: "h p = Some x" and d: "datum h' = datum h"
    and n: "nextf h' = (case first (rev xs) of None \<Rightarrow> nextf h | Some q \<Rightarrow> (nextf h)(q := first ys))"
    and b: "prevf h' = (case first ys of None \<Rightarrow> prevf h | Some q \<Rightarrow> (prevf h)(q := first (rev xs)))"
    and head: "lv_head l = (if first (rev xs) = None then first ys else lv_head lvl)"
    and tail: "lv_tail l = (if first ys = None then first (rev xs) else lv_tail lvl)"
    and sums: "lv_total_qty l = lv_total_qty lvl - o_qty x" "lv_order_count l = lv_order_count lvl - 1"
  shows "level_rep h' l (xs @ ys)"
proof -
  note D = level_repD [OF L] and K = level_links [OF L]
  have "lst (nextf h') (lv_head l) (xs @ ys)"
    using lst_remove [OF D(3,1)] K(1) n head by (cases "first (rev xs)") auto
  moreover have "lst (prevf h') (lv_tail l) (rev (xs @ ys))"
    using lst_remove [of "prevf h" "lv_tail lvl" "rev ys" p "rev xs"] D(1,4) K(2) b tail
    by (cases "first ys") (auto simp: Int_commute)
  moreover have "sum_list (map (qtyf h) (xs @ p # ys)) = o_qty x + sum_list (map (qtyf h) (xs @ ys))"
    using x by (simp add: qtyf_def)
  ultimately show ?thesis
    using D sums datum_dom [OF d] datum_qtyf [OF d] by (auto simp: level_rep_def)
qed

lemma UnlinkFromLevel_ok:
  assumes inv: "slab_inv s" and L: "level_rep (deref s) lvl (xs @ p # ys)"
  shows "\<exists>lvl' s'. UnlinkFromLevel lvl p s = Some (lvl', s') \<and> level_rep (deref s') lvl' (xs @ ys)
    \<and> links_moved (set (xs @ ys)) s s'"
proof -
  note D = level_repD [OF L] and K = level_links [OF L]
  obtain x where x: "deref s p = Some x" using D(2) by auto
  have k: "o_next x = first ys" "o_prev x = first (rev xs)"
    using K x by (simp_all add: nextf_def prevf_def)
  let ?A = "set (xs @ ys)"
  have "q \<in> ?A \<and> q \<in> dom (deref s)" if "o_prev x = Some q" for q
    using that k first_mem [of "rev xs" q] D(2) by auto
  from set_next_ok [OF inv this] obtain lvl1 s1 where
    n: "set_next (o_prev x) (o_next x) lvl s = Some (lvl1, s1)"
      "lvl1 = (if o_prev x = None then lvl\<lparr>lv_head := o_next x\<rparr> else lvl)"
      "links_moved ?A s s1" "prevf (deref s1) = prevf (deref s)"
      "nextf (deref s1) = (case o_prev x of None \<Rightarrow> nextf (deref s)
         | Some q \<Rightarrow> (nextf (deref s))(q := o_next x))" by blast
  note M1 = links_movedD [OF n(3)]
  have "q \<in> ?A \<and> q \<in> dom (deref s1)" if "o_next x = Some q" for q
    using that k first_mem [of ys q] D(2) datum_dom [OF M1(4)] by auto
  from set_prev_ok [OF M1(1) this] obtain lvl2 s2 where
    m: "set_prev (o_next x) (o_prev x) lvl1 s1 = Some (lvl2, s2)"
      "lvl2 = (if o_next x = None then lvl1\<lparr>lv_tail := o_prev x\<rparr> else lvl1)"
      "links_moved ?A s1 s2" "nextf (deref s2) = nextf (deref s1)"
      "prevf (deref s2) = (case o_next x of None \<Rightarrow> prevf (deref s1)
         | Some q \<Rightarrow> (prevf (deref s1))(q := o_prev x))" by blast
  note lm = links_moved_trans [OF n(3) m(3)]
  have "p \<notin> ?A" using D(1) by auto
  then have "deref s1 p = Some x" "deref s2 p = Some x"
    using M1(5) links_movedD(5) [OF lm] x by simp_all
  then have "UnlinkFromLevel lvl p s = Some (lvl2\<lparr>lv_total_qty := lv_total_qty lvl2 - o_qty x,
      lv_order_count := lv_order_count lvl2 - 1\<rparr>, s2)"
    using x n(1) m(1) by (simp add: UnlinkFromLevel_def)
  moreover have "level_rep (deref s2) (lvl2\<lparr>lv_total_qty := lv_total_qty lvl2 - o_qty x,
      lv_order_count := lv_order_count lvl2 - 1\<rparr>) (xs @ ys)"
    by (rule level_rep_unlink [OF L x links_movedD(4) [OF lm]]) (simp_all add: n(2,5) [unfolded k] m(2,4,5) [unfolded k n(4)])
  ultimately show ?thesis using lm by blast
qed


lemma level_rep_push:
  assumes L: "level_rep h lvl ps" and p: "p \<in> dom h" "p \<notin> set ps" and d: "datum h' = datum h"
    and n: "nextf h' = (case first (rev ps) of None \<Rightarrow> (nextf h)(p := None) | Some q \<Rightarrow> (nextf h)(p := None, q := Some p))"
    and b: "prevf h' = (prevf h)(p := first (rev ps))"
    and head: "lv_head l = (if first (rev ps) = None then Some p else lv_head lvl)" and tail: "lv_tail l = Some p"
    and sums: "lv_total_qty l = lv_total_qty lvl + qtyf h p" "lv_order_count l = lv_order_count lvl + 1"
  shows "level_rep h' l (ps @ [p])"
proof -
  note D = level_repD [OF L]
  have "lst ((nextf h)(p := None)) (lv_head lvl) ps" using D(3) p(2) by simp
  then have "lst (nextf h') (lv_head l) (ps @ [p])"
    using lst_append [of "(nextf h)(p := None)" "lv_head lvl" ps p] D(1) p(2) n head
    by (cases "first (rev ps)") auto
  moreover have "lst (prevf h') (lv_tail l) (rev (ps @ [p]))"
    using D(4) p(2) lst_first [OF D(4)] b tail by simp
  ultimately show ?thesis
    using D p sums datum_dom [OF d] datum_qtyf [OF d] by (auto simp: level_rep_def add.commute)
qed

lemma PushBackToLevel_ok:
  assumes inv: "slab_inv s" and L: "level_rep (deref s) lvl ps"
    and x: "deref s p = Some x" and p: "p \<notin> set ps"
  shows "\<exists>lvl' s'. PushBackToLevel lvl p s = Some (lvl', s') \<and> level_rep (deref s') lvl' (ps @ [p])
    \<and> links_moved (set (ps @ [p])) s s'"
proof -
  note D = level_repD [OF L]
  let ?A = "set (ps @ [p])" and ?x = "x\<lparr>o_prev := lv_tail lvl, o_next := None\<rparr>"
  have t: "lv_tail lvl = first (rev ps)" using lst_first [OF D(4)] .
  from assign_ok [OF inv x, of ?x] obtain s1 where s1: "assign p ?x s = Some s1" "slab_inv s1"
    "live s1 = live s" "sl_capacity s1 = sl_capacity s" "deref s1 = (deref s)(p \<mapsto> ?x)" by blast
  have lm1: "links_moved ?A s s1"
    using s1 x datum_upd [of "deref s" p x ?x] by (auto simp: links_moved_def)
  have f1: "nextf (deref s1) = (nextf (deref s))(p := None)"
    "prevf (deref s1) = (prevf (deref s))(p := lv_tail lvl)"
    using s1(5) by (auto simp: nextf_def prevf_def fun_eq_iff)
  have "q \<in> ?A \<and> q \<in> dom (deref s1)" if "lv_tail lvl = Some q" for q
    using that t first_mem [of "rev ps" q] D(2) s1(5) by auto
  from set_next_ok [OF s1(2) this] obtain lvl1 s2 where
    n: "set_next (lv_tail lvl) (Some p) lvl s1 = Some (lvl1, s2)"
      "lvl1 = (if lv_tail lvl = None then lvl\<lparr>lv_head := Some p\<rparr> else lvl)"
      "links_moved ?A s1 s2" "prevf (deref s2) = prevf (deref s1)"
      "nextf (deref s2) = (case lv_tail lvl of None \<Rightarrow> nextf (deref s1)
         | Some q \<Rightarrow> (nextf (deref s1))(q := Some p))" by blast
  note lm = links_moved_trans [OF lm1 n(3)]
  note M = links_movedD [OF lm]
  obtain x2 where x2: "deref s2 p = Some x2" using x datum_dom [OF M(4)] by blast
  have qx: "o_qty x2 = qtyf (deref s) p" using x2 fun_cong [OF datum_qtyf [OF M(4)], of p] by (simp add: qtyf_def)
  let ?l = "lvl1\<lparr>lv_tail := Some p, lv_total_qty := lv_total_qty lvl1 + o_qty x2,
    lv_order_count := lv_order_count lvl1 + 1\<rparr>"
  have "PushBackToLevel lvl p s = Some (?l, s2)"
    using x s1(1) n(1) x2 by (simp add: PushBackToLevel_def)
  moreover have "level_rep (deref s2) ?l (ps @ [p])"
    using x by (intro level_rep_push [OF L _ p M(4)]) (auto simp: n(2,4,5) f1 t qx split: option.splits)
  ultimately show ?thesis using lm by blast
qed

lemma PopHead_ok:
  assumes inv: "slab_inv s" and L: "level_rep (deref s) lvl (p # ps)"
  shows "\<exists>lvl' s'. PopHead lvl p s = Some (lvl', s')
    \<and> level_rep (deref s') (lvl'\<lparr>lv_total_qty := lv_total_qty lvl - qtyf (deref s) p\<rparr>) ps
    \<and> lv_total_qty lvl' = lv_total_qty lvl \<and> links_moved (set ps) s s'"
proof -
  note D = level_repD [OF L]
  obtain x where x: "deref s p = Some x" using D(2) by auto
  have k: "o_next x = first ps" using level_links(1) [of "deref s" lvl "[]" p ps] L x by (simp add: nextf_def)
  have pv: "prevf (deref s) p = None" using level_links(2) [of "deref s" lvl "[]" p ps] L by simp
  let ?l1 = "lvl\<lparr>lv_head := o_next x\<rparr>"
  have "q \<in> set ps \<and> q \<in> dom (deref s)" if "o_next x = Some q" for q
    using that k first_mem [of ps q] D(2) by auto
  from set_prev_ok [OF inv this, of "o_next x" None ?l1] obtain lvl2 s2 where
    m: "set_prev (o_next x) None ?l1 s = Some (lvl2, s2)"
      "lvl2 = (if o_next x = None then ?l1\<lparr>lv_tail := None\<rparr> else ?l1)"
      "links_moved (set ps) s s2" "nextf (deref s2) = nextf (deref s)"
      "prevf (deref s2) = (case o_next x of None \<Rightarrow> prevf (deref s)
         | Some q \<Rightarrow> (prevf (deref s))(q := None))" by auto
  note M = links_movedD [OF m(3)]
  have q: "qtyf (deref s2) = qtyf (deref s)" using M(4) datum_qtyf by metis
  let ?l = "lvl2\<lparr>lv_order_count := lv_order_count lvl2 - 1\<rparr>"
  have U: "PopHead lvl p s = Some (?l, s2)"
    using x m(1) by (simp add: PopHead_def)
  have f: "lst (nextf (deref s2)) (lv_head ?l) ps"
    using D(3) x by (cases "o_next x") (auto simp: m(2,4) nextf_def)
  have b: "lst (prevf (deref s2)) (lv_tail ?l) (rev ps)"
    using lst_remove [of "prevf (deref s)" "lv_tail lvl" "rev ps" p "[]"] D(1,4) pv k m(2,5)
    by (cases "first ps") auto
  have "level_rep (deref s2) (?l\<lparr>lv_total_qty := lv_total_qty lvl - qtyf (deref s) p\<rparr>) ps"
    using D f b q datum_dom [OF M(4)] m(2) by (auto simp: level_rep_def)
  with U m show ?thesis by auto
qed

end
