(* ===== verification/Telemetry.thy ===== *)
theory Telemetry imports Level_Fifo begin

text \<open>
  The telemetry tape: the event and its factories, the CSV row, and the two sinks behind the
  \<^verbatim>\<open>KdbLogger\<close> interface (\<^verbatim>\<open>cpp/external/kdb_logger.hpp\<close>,
  \<^verbatim>\<open>cpp/external/ipc_kdb_logger.hpp\<close> and \<^verbatim>\<open>.cpp\<close>). Every method of a sink
  holds its mutex for its whole body, so a method is one function on the sink's state. The calls
  into the kx client library are answered by arguments (\<open>khpu\<close>'s handle, \<open>k\<close>'s reply);
  every call of \<open>k\<close> is recorded in the ghost field \<open>ip_wire\<close>: the handle it was made on,
  the frame it handed over and the answer it got.
\<close>

section \<open>Events\<close>

datatype TelemetryEventType = kFill | kCancel | kAck

instantiation TelemetryEventType :: enum
begin

definition enum_TelemetryEventType :: "TelemetryEventType list" where
  "enum_TelemetryEventType = [kFill, kCancel, kAck]"
definition enum_all_TelemetryEventType :: "(TelemetryEventType \<Rightarrow> bool) \<Rightarrow> bool" where
  "enum_all_TelemetryEventType P \<longleftrightarrow> P kFill \<and> P kCancel \<and> P kAck"
definition enum_ex_TelemetryEventType :: "(TelemetryEventType \<Rightarrow> bool) \<Rightarrow> bool" where
  "enum_ex_TelemetryEventType P \<longleftrightarrow> P kFill \<or> P kCancel \<or> P kAck"

lemma UNIV_TelemetryEventType: "UNIV = {kFill, kCancel, kAck}"
  using TelemetryEventType.exhaust by auto

instance
  by standard (simp_all add: enum_TelemetryEventType_def enum_all_TelemetryEventType_def
      enum_ex_TelemetryEventType_def UNIV_TelemetryEventType)

end

record TelemetryEvent =
  te_type :: TelemetryEventType
  te_side :: Side
  te_sequence :: u64
  te_timestamp_ns :: u64
  te_order_id :: OrderId
  te_counter_id :: OrderId
  te_price :: Price
  te_qty :: Quantity

definition Event_Fill :: "u64 \<Rightarrow> u64 \<Rightarrow> Fill \<Rightarrow> TelemetryEvent" where
  "Event_Fill sequence timestamp_ns f =
     \<lparr>te_type = kFill, te_side = fl_taker_side f, te_sequence = sequence,
      te_timestamp_ns = timestamp_ns, te_order_id = fl_taker_id f, te_counter_id = fl_maker_id f,
      te_price = fl_price f, te_qty = fl_qty f\<rparr>"

definition Event_Cancel :: "u64 \<Rightarrow> u64 \<Rightarrow> OrderId \<Rightarrow> Side \<Rightarrow> Price \<Rightarrow> Quantity \<Rightarrow> TelemetryEvent" where
  "Event_Cancel sequence timestamp_ns i side price residual =
     \<lparr>te_type = kCancel, te_side = side, te_sequence = sequence,
      te_timestamp_ns = timestamp_ns, te_order_id = i, te_counter_id = 0,
      te_price = price, te_qty = residual\<rparr>"

definition Event_Ack :: "u64 \<Rightarrow> u64 \<Rightarrow> OrderId \<Rightarrow> Side \<Rightarrow> Price \<Rightarrow> Quantity \<Rightarrow> TelemetryEvent" where
  "Event_Ack sequence timestamp_ns i side price qty =
     \<lparr>te_type = kAck, te_side = side, te_sequence = sequence,
      te_timestamp_ns = timestamp_ns, te_order_id = i, te_counter_id = 0,
      te_price = price, te_qty = qty\<rparr>"

section \<open>The CSV row\<close>

definition kCsvHeader :: string where
  "kCsvHeader = ''type,seq,ts_ns,order_id,counter_id,price,qty,side''"

fun TelemetryEventTypeName :: "TelemetryEventType \<Rightarrow> string" where
  "TelemetryEventTypeName kFill = ''FILL''"
| "TelemetryEventTypeName kCancel = ''CANCEL''"
| "TelemetryEventTypeName kAck = ''ACK''"

definition SideName :: "Side \<Rightarrow> string" where
  "SideName s = (if s = kBuy then ''BUY'' else ''SELL'')"

text \<open>\<^verbatim>\<open>operator<<\<close> of a stream in its default (decimal) state.\<close>

fun show_nat :: "nat \<Rightarrow> string" where
  "show_nat n = (if n < 10 then [char_of (48 + n)] else show_nat (n div 10) @ [char_of (48 + n mod 10)])"

declare show_nat.simps [simp del]

definition show_u64 :: "u64 \<Rightarrow> string" where
  "show_u64 w = show_nat (unat w)"

definition show_i64 :: "int \<Rightarrow> string" where
  "show_i64 i = (if i < 0 then ''-'' @ show_nat (nat (- i)) else show_nat (nat i))"

definition FormatCsvRow :: "TelemetryEvent \<Rightarrow> string" where
  "FormatCsvRow e =
     TelemetryEventTypeName (te_type e) @ '','' @ show_u64 (te_sequence e) @ '','' @
     show_u64 (te_timestamp_ns e) @ '','' @ show_u64 (te_order_id e) @ '','' @
     show_u64 (te_counter_id e) @ '','' @ show_i64 (te_price e) @ '','' @
     show_u64 (te_qty e) @ '','' @ SideName (te_side e)"

section \<open>The sinks\<close>

record InMemoryKdbLogger =
  im_rows :: "string list"
  im_flush_count :: u64

definition InMemory_new :: InMemoryKdbLogger where
  "InMemory_new = \<lparr>im_rows = [], im_flush_count = 0\<rparr>"

definition InMemory_Log :: "TelemetryEvent \<Rightarrow> InMemoryKdbLogger \<Rightarrow> InMemoryKdbLogger" where
  "InMemory_Log event L = L\<lparr>im_rows := im_rows L @ [FormatCsvRow event]\<rparr>"

definition InMemory_Flush :: "InMemoryKdbLogger \<Rightarrow> InMemoryKdbLogger" where
  "InMemory_Flush L = L\<lparr>im_flush_count := im_flush_count L + 1\<rparr>"

definition InMemory_Snapshot :: "InMemoryKdbLogger \<Rightarrow> string list" where
  "InMemory_Snapshot L = im_rows L"

definition InMemory_size :: "InMemoryKdbLogger \<Rightarrow> nat" where
  "InMemory_size L = length (im_rows L)"

definition InMemory_flush_count :: "InMemoryKdbLogger \<Rightarrow> u64" where
  "InMemory_flush_count L = im_flush_count L"

text \<open>A column of the wire frame, and what \<^verbatim>\<open>k()\<close> returned: null, or an object of some type.\<close>

datatype kcol = KSyms "string list" | KLongs "int list"

type_synonym k_reply = "int option"
type_synonym frame = "string \<times> kcol list"
type_synonym k_call = "int \<times> frame \<times> k_reply"

record IpcKdbLogger =
  ip_host :: string
  ip_port :: int
  ip_table_name :: string
  ip_credentials :: string
  ip_handle :: int
  ip_type_batch :: "string list"
  ip_seq_batch :: "int list"
  ip_ts_ns_batch :: "int list"
  ip_order_id_batch :: "int list"
  ip_counter_id_batch :: "int list"
  ip_price_batch :: "int list"
  ip_qty_batch :: "int list"
  ip_side_batch :: "string list"
  ip_sent_frames :: u64
  ip_send_failures :: u64
  ip_wire :: "k_call list"

definition IpcKdbLogger_new :: "string \<Rightarrow> int \<Rightarrow> string \<Rightarrow> string \<Rightarrow> IpcKdbLogger" where
  "IpcKdbLogger_new host port table_name credentials =
     \<lparr>ip_host = host, ip_port = port, ip_table_name = table_name, ip_credentials = credentials,
      ip_handle = 0, ip_type_batch = [], ip_seq_batch = [], ip_ts_ns_batch = [],
      ip_order_id_batch = [], ip_counter_id_batch = [], ip_price_batch = [], ip_qty_batch = [],
      ip_side_batch = [], ip_sent_frames = 0, ip_send_failures = 0, ip_wire = []\<rparr>"

text \<open>\<open>khpu\<close> is the client library's connect: host, port and credentials to a handle.\<close>

definition Connect :: "(string \<Rightarrow> int \<Rightarrow> string \<Rightarrow> int) \<Rightarrow> IpcKdbLogger \<Rightarrow> bool \<times> IpcKdbLogger" where
  "Connect khpu L =
     (if ip_handle L > 0 then (True, L)
      else let h = khpu (ip_host L) (ip_port L) (ip_credentials L) in
           if h \<le> 0 then (False, L\<lparr>ip_handle := 0\<rparr>) else (True, L\<lparr>ip_handle := h\<rparr>))"

definition Disconnect :: "IpcKdbLogger \<Rightarrow> IpcKdbLogger" where
  "Disconnect L = (if ip_handle L > 0 then L\<lparr>ip_handle := 0\<rparr> else L)"

definition connected :: "IpcKdbLogger \<Rightarrow> bool" where
  "connected L \<longleftrightarrow> ip_handle L > 0"

definition Ipc_Log :: "TelemetryEvent \<Rightarrow> IpcKdbLogger \<Rightarrow> IpcKdbLogger" where
  "Ipc_Log event L = L\<lparr>
     ip_type_batch := ip_type_batch L @ [TelemetryEventTypeName (te_type event)],
     ip_seq_batch := ip_seq_batch L @ [sint (te_sequence event)],
     ip_ts_ns_batch := ip_ts_ns_batch L @ [sint (te_timestamp_ns event)],
     ip_order_id_batch := ip_order_id_batch L @ [sint (te_order_id event)],
     ip_counter_id_batch := ip_counter_id_batch L @ [sint (te_counter_id event)],
     ip_price_batch := ip_price_batch L @ [te_price event],
     ip_qty_batch := ip_qty_batch L @ [sint (te_qty event)],
     ip_side_batch := ip_side_batch L @ [SideName (te_side event)]\<rparr>"

definition pending_count :: "IpcKdbLogger \<Rightarrow> nat" where
  "pending_count L = length (ip_seq_batch L)"

definition ClearBatchLocked :: "IpcKdbLogger \<Rightarrow> IpcKdbLogger" where
  "ClearBatchLocked L = L\<lparr>ip_type_batch := [], ip_seq_batch := [], ip_ts_ns_batch := [],
     ip_order_id_batch := [], ip_counter_id_batch := [], ip_price_batch := [],
     ip_qty_batch := [], ip_side_batch := []\<rparr>"

text \<open>
  The fill loop indexes every column up to \<open>n\<close>, the length of the sequence column; a shorter
  column would be read out of bounds.
\<close>

definition fill_column :: "nat \<Rightarrow> 'a list \<Rightarrow> 'a list option" where
  "fill_column n xs = (if n \<le> length xs then Some (take n xs) else None)"

definition build_frame :: "IpcKdbLogger \<Rightarrow> frame option" where
  "build_frame L = do {
     let n = length (ip_seq_batch L);
     col_type \<leftarrow> fill_column n (ip_type_batch L);
     col_seq \<leftarrow> fill_column n (ip_seq_batch L);
     col_ts \<leftarrow> fill_column n (ip_ts_ns_batch L);
     col_order \<leftarrow> fill_column n (ip_order_id_batch L);
     col_counter \<leftarrow> fill_column n (ip_counter_id_batch L);
     col_price \<leftarrow> fill_column n (ip_price_batch L);
     col_qty \<leftarrow> fill_column n (ip_qty_batch L);
     col_side \<leftarrow> fill_column n (ip_side_batch L);
     Some (ip_table_name L, [KSyms col_type, KLongs col_seq, KLongs col_ts, KLongs col_order,
       KLongs col_counter, KLongs col_price, KLongs col_qty, KSyms col_side])
   }"

definition SendBatchLocked :: "k_reply \<Rightarrow> IpcKdbLogger \<Rightarrow> (bool \<times> IpcKdbLogger) option" where
  "SendBatchLocked r L = do {
     fr \<leftarrow> build_frame L;
     let L1 = L\<lparr>ip_wire := ip_wire L @ [(- ip_handle L, fr, r)]\<rparr>;
     Some (case r of
             None \<Rightarrow> (True, L1)
           | Some t \<Rightarrow> if t = -128 then (False, L1) else (True, L1))
   }"

definition Ipc_Flush :: "k_reply \<Rightarrow> IpcKdbLogger \<Rightarrow> IpcKdbLogger option" where
  "Ipc_Flush r L =
     (if ip_seq_batch L = [] then Some L
      else if ip_handle L \<le> 0 then Some L
      else do {
        (ok, L1) \<leftarrow> SendBatchLocked r L;
        if ok then let L2 = ClearBatchLocked L1 in Some (L2\<lparr>ip_sent_frames := ip_sent_frames L2 + 1\<rparr>)
        else Some (L1\<lparr>ip_handle := 0, ip_send_failures := ip_send_failures L1 + 1\<rparr>)
      })"

text \<open>The destructor.\<close>

definition Ipc_destroy :: "k_reply \<Rightarrow> IpcKdbLogger \<Rightarrow> IpcKdbLogger option" where
  "Ipc_destroy r L = do { L1 \<leftarrow> Ipc_Flush r L; Some (Disconnect L1) }"

definition sent_frames :: "IpcKdbLogger \<Rightarrow> u64" where
  "sent_frames L = ip_sent_frames L"

definition send_failures :: "IpcKdbLogger \<Rightarrow> u64" where
  "send_failures L = ip_send_failures L"

section \<open>The row determines the event\<close>

fun split_on :: "'a \<Rightarrow> 'a list \<Rightarrow> 'a list list" where
  "split_on c [] = [[]]"
| "split_on c (x # xs) =
     (if x = c then [] # split_on c xs
      else case split_on c xs of [] \<Rightarrow> [[x]] | f # fs \<Rightarrow> (x # f) # fs)"

lemma split_on_field: "c \<notin> set f \<Longrightarrow> split_on c f = [f]"
  by (induction f) auto

lemma split_on_append: "c \<notin> set f \<Longrightarrow> split_on c (f @ c # rest) = f # split_on c rest"
  by (induction f) auto

lemma digit_chars: "set (show_nat n) \<subseteq> char_of ` {48..<58 :: nat}"
proof (induction n rule: show_nat.induct)
  case (1 n)
  have d: "char_of (48 + d) \<in> char_of ` {48..<58 :: nat}" if "d < 10" for d :: nat
    by (rule imageI) (use that in simp)
  show ?case
  proof (cases "n < 10")
    case True
    then have "set (show_nat n) = {char_of (48 + n)}" by (simp add: show_nat.simps [of n])
    with d [OF True] show ?thesis by (simp only: insert_subset empty_subsetI simp_thms)
  next
    case False
    then have "set (show_nat n) = insert (char_of (48 + n mod 10)) (set (show_nat (n div 10)))"
      by (simp add: show_nat.simps [of n])
    moreover have "char_of (48 + n mod 10) \<in> char_of ` {48..<58 :: nat}" by (rule d) simp
    ultimately show ?thesis using 1 [OF False] by (simp only: insert_subset simp_thms)
  qed
qed

lemma of_char_digit: "d < 10 \<Longrightarrow> of_char (char_of (48 + d) :: char) = (48 + d :: nat)"
  by (simp add: of_char_of)

lemma digit_neq:
  assumes "c \<in> set (show_nat n)" "of_char x < (48 :: nat) \<or> of_char x > (57 :: nat)"
  shows "c \<noteq> x"
proof -
  obtain d where d: "c = char_of d" "48 \<le> d" "d < (58 :: nat)" using assms(1) digit_chars by fastforce
  then have "of_char c = d" using of_char_digit [of "d - 48"] by simp
  with assms(2) d(2,3) show ?thesis by auto
qed

lemma comma_not_digit [simp]: "CHR '','' \<notin> set (show_nat n)"
  using digit_neq [of _ n "CHR '',''"] by auto

lemma minus_not_digit [simp]: "CHR ''-'' \<notin> set (show_nat n)"
  using digit_neq [of _ n "CHR ''-''"] by auto

lemma show_nat_inj: "show_nat m = show_nat n \<Longrightarrow> m = n"
proof (induction m arbitrary: n rule: show_nat.induct)
  case (1 m)
  have ne: "show_nat k \<noteq> []" for k by (subst show_nat.simps) simp
  have last: "k mod 10 = l mod 10" if "char_of (48 + k mod 10) = (char_of (48 + l mod 10) :: char)" for k l :: nat
    using that of_char_digit [of "k mod 10"] of_char_digit [of "l mod 10"] by simp
  show ?case
  proof (cases "m < 10"; cases "n < 10")
    assume "m < 10" "n < 10"
    then show ?thesis using 1(2) last [of m n] by (simp add: show_nat.simps [of m] show_nat.simps [of n])
  next
    assume "m < 10" "\<not> n < 10"
    then show ?thesis using 1(2) ne [of "n div 10"] by (simp add: show_nat.simps [of m] show_nat.simps [of n])
  next
    assume "\<not> m < 10" "n < 10"
    then show ?thesis using 1(2) ne [of "m div 10"] by (simp add: show_nat.simps [of m] show_nat.simps [of n])
  next
    assume b: "\<not> m < 10" "\<not> n < 10"
    then have "show_nat (m div 10) = show_nat (n div 10)" "m mod 10 = n mod 10"
      using 1(2) last [of m n] by (simp_all add: show_nat.simps [of m] show_nat.simps [of n])
    with 1(1) [OF b(1)] have "m div 10 = n div 10" "m mod 10 = n mod 10" by auto
    then show ?thesis by (metis div_mult_mod_eq)
  qed
qed

lemma show_u64_inj: "show_u64 v = show_u64 w \<longleftrightarrow> v = w"
  by (auto simp: show_u64_def word_unat_eq_iff dest: show_nat_inj)

lemma show_i64_inj: "show_i64 i = show_i64 j \<longleftrightarrow> i = j"
proof
  assume e: "show_i64 i = show_i64 j"
  have m: "show_nat n \<noteq> CHR ''-'' # s" "CHR ''-'' # s \<noteq> show_nat n" for n s
    using minus_not_digit [of n] by (metis list.set_intros(1))+
  show "i = j"
    using e show_nat_inj m by (auto simp: show_i64_def split: if_splits) fastforce+
qed simp

lemma comma_free [simp]:
  "CHR '','' \<notin> set (show_u64 w)" "CHR '','' \<notin> set (show_i64 i)"
  "CHR '','' \<notin> set (TelemetryEventTypeName t)" "CHR '','' \<notin> set (SideName s)"
  by (auto simp: show_u64_def show_i64_def SideName_def) (cases t; auto)

definition fields :: "TelemetryEvent \<Rightarrow> string list" where
  "fields e = [TelemetryEventTypeName (te_type e), show_u64 (te_sequence e), show_u64 (te_timestamp_ns e),
     show_u64 (te_order_id e), show_u64 (te_counter_id e), show_i64 (te_price e), show_u64 (te_qty e),
     SideName (te_side e)]"

lemma split_row: "split_on CHR '','' (FormatCsvRow e) = fields e"
  by (simp add: FormatCsvRow_def fields_def split_on_append split_on_field)

lemma fields_inj: "fields e = fields e' \<Longrightarrow> e = e'"
  by (cases e; cases e'; cases "te_type e"; cases "te_type e'"; cases "te_side e"; cases "te_side e'")
    (simp_all add: fields_def show_u64_inj show_i64_inj SideName_def)

section \<open>The sink interface\<close>

text \<open>
  What the relay relies on: \<open>log\<close> appends exactly one row to the tape, \<open>flush\<close> neither
  loses nor reorders one. \<open>flush\<close> takes the environment's answer.
\<close>

locale kdb_logger =
  fixes log :: "TelemetryEvent \<Rightarrow> 's \<Rightarrow> 's"
    and flush :: "k_reply \<Rightarrow> 's \<Rightarrow> 's option"
    and tape :: "'s \<Rightarrow> 'r list"
    and row :: "TelemetryEvent \<Rightarrow> 'r"
    and inv :: "'s \<Rightarrow> bool"
  assumes log_inv: "inv s \<Longrightarrow> inv (log e s)"
    and log_tape: "inv s \<Longrightarrow> tape (log e s) = tape s @ [row e]"
    and flush_ok: "inv s \<Longrightarrow> \<exists>s'. flush r s = Some s' \<and> inv s' \<and> tape s' = tape s"
begin

lemma log_all:
  assumes "inv s"
  shows "inv (fold log es s) \<and> tape (fold log es s) = tape s @ map row es"
  using assms by (induction es arbitrary: s) (auto simp: log_inv log_tape)

end

type_synonym kdb_row = "string \<times> int list \<times> string"

fun column_rows :: "string list \<Rightarrow> int list list \<Rightarrow> string list \<Rightarrow> kdb_row list" where
  "column_rows [] cols sides = []"
| "column_rows (t # ts) cols sides = (t, map hd cols, hd sides) # column_rows ts (map tl cols) (tl sides)"

lemma column_rows_append:
  assumes "length sides = length ts" "\<forall>c\<in>set cols. length c = length ts" "length cs = length cols"
  shows "column_rows (ts @ [t]) (map2 (\<lambda>c x. c @ [x]) cols cs) (sides @ [s])
    = column_rows ts cols sides @ [(t, cs, s)]"
  using assms
proof (induction ts arbitrary: cols sides)
  case Nil
  have "cols ! i = []" if "i < length cols" for i using Nil(2) nth_mem [OF that] by auto
  then have "map hd (map2 (\<lambda>c x. c @ [x]) cols cs) = cs"
    using Nil(3) by (intro nth_equalityI) auto
  with Nil show ?case by simp
next
  case (Cons u ts)
  have ne: "cols ! i \<noteq> []" if "i < length cols" for i
    using Cons.prems(2) that nth_mem [OF that] by fastforce
  have "map hd (map2 (\<lambda>c x. c @ [x]) cols cs) = map hd cols"
    using Cons.prems(3) ne by (intro nth_equalityI) auto
  moreover have "map tl (map2 (\<lambda>c x. c @ [x]) cols cs) = map2 (\<lambda>c x. c @ [x]) (map tl cols) cs"
    using Cons.prems(3) ne by (intro nth_equalityI) auto
  moreover have "tl (sides @ [s]) = tl sides @ [s]" "hd (sides @ [s]) = hd sides"
    using Cons.prems(1) by (cases sides; simp)+
  ultimately show ?case
    using Cons.IH [of "tl sides" "map tl cols"] Cons.prems by simp
qed

fun frame_rows :: "frame \<Rightarrow> kdb_row list" where
  "frame_rows (tn, [KSyms a, KLongs b, KLongs c, KLongs d, KLongs e, KLongs f, KLongs g, KSyms h])
     = column_rows a [b, c, d, e, f, g] h"
| "frame_rows _ = []"

text \<open>The calls \<open>k\<close> did not answer with an error object, and the rows they handed over.\<close>

definition accepted_call :: "k_call \<Rightarrow> bool" where
  "accepted_call = (\<lambda>(h, fr, r). r \<noteq> Some (-128))"

definition delivered :: "k_call list \<Rightarrow> kdb_row list" where
  "delivered wire = concat (map (\<lambda>(h, fr, r). frame_rows fr) (filter accepted_call wire))"

lemma delivered_simps [simp]:
  "delivered [] = []" "delivered (xs @ ys) = delivered xs @ delivered ys"
  "delivered ((h, fr, r) # xs) = (if r = Some (-128) then [] else frame_rows fr) @ delivered xs"
  by (simp_all add: delivered_def accepted_call_def)

definition pending_rows :: "IpcKdbLogger \<Rightarrow> kdb_row list" where
  "pending_rows L = column_rows (ip_type_batch L)
     [ip_seq_batch L, ip_ts_ns_batch L, ip_order_id_batch L, ip_counter_id_batch L, ip_price_batch L,
      ip_qty_batch L] (ip_side_batch L)"

definition ipc_tape :: "IpcKdbLogger \<Rightarrow> kdb_row list" where
  "ipc_tape L = delivered (ip_wire L) @ pending_rows L"

definition ipc_row :: "TelemetryEvent \<Rightarrow> kdb_row" where
  "ipc_row e = (TelemetryEventTypeName (te_type e),
     [sint (te_sequence e), sint (te_timestamp_ns e), sint (te_order_id e), sint (te_counter_id e),
      te_price e, sint (te_qty e)], SideName (te_side e))"

definition batch_inv :: "IpcKdbLogger \<Rightarrow> bool" where
  "batch_inv L \<longleftrightarrow> (let n = length (ip_seq_batch L) in
     length (ip_type_batch L) = n \<and> length (ip_ts_ns_batch L) = n \<and> length (ip_order_id_batch L) = n
     \<and> length (ip_counter_id_batch L) = n \<and> length (ip_price_batch L) = n
     \<and> length (ip_qty_batch L) = n \<and> length (ip_side_batch L) = n)"

lemma batch_inv_new [simp]: "batch_inv (IpcKdbLogger_new h p t c)"
  by (simp add: batch_inv_def IpcKdbLogger_new_def)

lemma Ipc_Log_ok:
  assumes "batch_inv L"
  shows "batch_inv (Ipc_Log e L)" "ipc_tape (Ipc_Log e L) = ipc_tape L @ [ipc_row e]"
proof -
  show "batch_inv (Ipc_Log e L)" using assms by (simp add: batch_inv_def Ipc_Log_def Let_def)
  show "ipc_tape (Ipc_Log e L) = ipc_tape L @ [ipc_row e]"
  proof -
    let ?cols = "[ip_seq_batch L, ip_ts_ns_batch L, ip_order_id_batch L, ip_counter_id_batch L,
      ip_price_batch L, ip_qty_batch L]"
    let ?cs = "[sint (te_sequence e), sint (te_timestamp_ns e), sint (te_order_id e),
      sint (te_counter_id e), te_price e, sint (te_qty e)]"
    have "column_rows (ip_type_batch L @ [TelemetryEventTypeName (te_type e)])
        (map2 (\<lambda>c x. c @ [x]) ?cols ?cs) (ip_side_batch L @ [SideName (te_side e)])
      = column_rows (ip_type_batch L) ?cols (ip_side_batch L)
        @ [(TelemetryEventTypeName (te_type e), ?cs, SideName (te_side e))]"
      by (rule column_rows_append) (use assms in \<open>simp_all add: batch_inv_def Let_def\<close>)
    then show ?thesis by (simp add: ipc_tape_def pending_rows_def Ipc_Log_def ipc_row_def)
  qed
qed

lemma build_frame_ok:
  "batch_inv L \<Longrightarrow> \<exists>fr. build_frame L = Some fr \<and> frame_rows fr = pending_rows L \<and> fst fr = ip_table_name L"
  by (simp add: batch_inv_def build_frame_def fill_column_def pending_rows_def Let_def)

lemma Ipc_Flush_ok:
  assumes "batch_inv L"
  shows "\<exists>L'. Ipc_Flush r L = Some L' \<and> batch_inv L' \<and> ipc_tape L' = ipc_tape L"
proof (cases "ip_seq_batch L = [] \<or> ip_handle L \<le> 0")
  case True
  then show ?thesis using assms by (auto simp: Ipc_Flush_def)
next
  case False
  obtain fr where fr: "build_frame L = Some fr" "frame_rows fr = pending_rows L"
    using build_frame_ok [OF assms] by blast
  let ?L1 = "L\<lparr>ip_wire := ip_wire L @ [(- ip_handle L, fr, r)]\<rparr>"
  have "SendBatchLocked r L = Some (r \<noteq> Some (-128), ?L1)"
    using fr(1) by (cases r) (simp_all add: SendBatchLocked_def Let_def)
  then show ?thesis using False fr(2) assms
    by (simp add: Ipc_Flush_def ClearBatchLocked_def batch_inv_def ipc_tape_def pending_rows_def Let_def)
qed

lemma pending_empty: "batch_inv L \<Longrightarrow> pending_rows L = [] \<longleftrightarrow> ip_seq_batch L = []"
  by (cases "ip_type_batch L") (auto simp: pending_rows_def batch_inv_def Let_def)

text \<open>A flush over a live connection that is not answered with an error leaves nothing queued.\<close>

lemma Ipc_Flush_delivers:
  assumes "batch_inv L" "ip_handle L > 0" "r \<noteq> Some (- 128)" "Ipc_Flush r L = Some L'"
  shows "pending_rows L' = []"
proof -
  have "batch_inv L'" using Ipc_Flush_ok [OF assms(1), of r] assms(4) by auto
  moreover have "ip_seq_batch L' = []"
    using assms(2-4) by (auto simp: Ipc_Flush_def SendBatchLocked_def ClearBatchLocked_def Let_def
        split: if_splits bind_splits option.splits)
  ultimately show ?thesis by (simp add: pending_empty)
qed

text \<open>A refused flush keeps the batch and drops the connection.\<close>

lemma Ipc_Flush_refused:
  assumes "batch_inv L" "ip_handle L > 0" "pending_rows L \<noteq> []"
  shows "\<exists>L'. Ipc_Flush (Some (- 128)) L = Some L' \<and> ip_handle L' = 0 \<and> pending_rows L' = pending_rows L"
  using assms pending_empty [OF assms(1)] build_frame_ok [OF assms(1)]
  by (auto simp: Ipc_Flush_def SendBatchLocked_def pending_rows_def Let_def)

text \<open>The destructor keeps the tape and closes the handle.\<close>

lemma Ipc_destroy_ok:
  assumes "batch_inv L" "ip_handle L \<ge> 0"
  shows "\<exists>L'. Ipc_destroy r L = Some L' \<and> ipc_tape L' = ipc_tape L \<and> ip_handle L' = 0
    \<and> (pending_rows L = [] \<longrightarrow> pending_rows L' = [])"
proof -
  obtain L1 where L1: "Ipc_Flush r L = Some L1" "batch_inv L1" "ipc_tape L1 = ipc_tape L"
    using Ipc_Flush_ok [OF assms(1)] by blast
  have h: "ip_handle L1 \<ge> 0" using assms(2) L1(1)
    by (auto simp: Ipc_Flush_def SendBatchLocked_def ClearBatchLocked_def Let_def
        split: if_splits bind_splits option.splits)
  have "L1 = L" if "pending_rows L = []" using that L1(1) pending_empty [OF assms(1)] by (simp add: Ipc_Flush_def)
  with L1 h show ?thesis by (auto simp: Ipc_destroy_def Disconnect_def ipc_tape_def pending_rows_def)
qed

interpretation memory_sink: kdb_logger InMemory_Log "\<lambda>r L. Some (InMemory_Flush L)" im_rows FormatCsvRow "\<lambda>_. True"
  by unfold_locales (simp_all add: InMemory_Log_def InMemory_Flush_def)

interpretation ipc_sink: kdb_logger Ipc_Log Ipc_Flush ipc_tape ipc_row batch_inv
proof (unfold_locales, goal_cases)
  case (1 s e)
  then show ?case by (rule Ipc_Log_ok)
next
  case (2 s e)
  then show ?case by (rule Ipc_Log_ok)
next
  case (3 s r)
  then show ?case by (rule Ipc_Flush_ok)
qed

section \<open>Correctness\<close>

text \<open>C23: the CSV tape is faithful: two events with the same row are the same event, and every row
  splits into exactly the columns of the header.\<close>

theorem FormatCsvRow_roundtrip:
  "(FormatCsvRow e = FormatCsvRow e') = (e = e')
    \<and> length (split_on CHR '','' (FormatCsvRow e)) = length (split_on CHR '','' kCsvHeader)"
proof -
  have "e = e'" if "FormatCsvRow e = FormatCsvRow e'"
    using that split_row fields_inj by metis
  moreover have "length (split_on CHR '','' (FormatCsvRow e)) = 8"
    unfolding split_row by (simp add: fields_def)
  moreover have "length (split_on CHR '','' kCsvHeader) = 8" by (simp add: kCsvHeader_def)
  ultimately show ?thesis by auto
qed

text \<open>Everything a client and the network can do to the IPC logger, with the network's answers.\<close>

datatype ipc_op = ILog TelemetryEvent | IFlush k_reply | IConnect "string \<Rightarrow> int \<Rightarrow> string \<Rightarrow> int" | IDisconnect

fun ipc_step :: "ipc_op \<Rightarrow> IpcKdbLogger \<Rightarrow> IpcKdbLogger option" where
  "ipc_step (ILog e) L = Some (Ipc_Log e L)"
| "ipc_step (IFlush r) L = Ipc_Flush r L"
| "ipc_step (IConnect khpu) L = Some (snd (Connect khpu L))"
| "ipc_step IDisconnect L = Some (Disconnect L)"

fun ipc_run :: "ipc_op list \<Rightarrow> IpcKdbLogger \<Rightarrow> IpcKdbLogger option" where
  "ipc_run [] L = Some L"
| "ipc_run (op # ops) L = do { L1 \<leftarrow> ipc_step op L; ipc_run ops L1 }"

fun logged :: "ipc_op list \<Rightarrow> TelemetryEvent list" where
  "logged [] = []"
| "logged (ILog e # ops) = e # logged ops"
| "logged (_ # ops) = logged ops"

lemma handle_frame:
  "batch_inv L \<Longrightarrow> batch_inv (snd (Connect khpu L)) \<and> ipc_tape (snd (Connect khpu L)) = ipc_tape L"
  "batch_inv L \<Longrightarrow> batch_inv (Disconnect L) \<and> ipc_tape (Disconnect L) = ipc_tape L"
  by (simp_all add: Connect_def Disconnect_def Let_def batch_inv_def ipc_tape_def pending_rows_def)

lemma ipc_run_tape:
  "batch_inv L \<Longrightarrow> \<exists>L'. ipc_run ops L = Some L' \<and> batch_inv L' \<and> ipc_tape L' = ipc_tape L @ map ipc_row (logged ops)"
proof (induction ops arbitrary: L)
  case (Cons op ops)
  show ?case
  proof (cases op)
    case (ILog e)
    then show ?thesis using Cons.IH [OF Ipc_Log_ok(1) [OF Cons.prems, of e]] Ipc_Log_ok(2) [OF Cons.prems] by auto
  next
    case (IFlush r)
    obtain L1 where "Ipc_Flush r L = Some L1" "batch_inv L1" "ipc_tape L1 = ipc_tape L"
      using ipc_sink.flush_ok [OF Cons.prems] by blast
    then show ?thesis using Cons.IH [of L1] IFlush by auto
  next
    case (IConnect k)
    then show ?thesis using Cons.IH [of "snd (Connect k L)"] handle_frame(1) [OF Cons.prems, of k] by auto
  next
    case IDisconnect
    then show ?thesis using Cons.IH [of "Disconnect L"] handle_frame(2) [OF Cons.prems] by auto
  qed
qed simp

text \<open>What the counters count, and what each call of \<open>k\<close> hands over.\<close>

definition wire_inv :: "string \<Rightarrow> IpcKdbLogger \<Rightarrow> bool" where
  "wire_inv table L \<longleftrightarrow> ip_table_name L = table
     \<and> sent_frames L = of_nat (length (filter accepted_call (ip_wire L)))
     \<and> send_failures L = of_nat (length (filter (\<lambda>c. \<not> accepted_call c) (ip_wire L)))
     \<and> (\<forall>(h, fr, r) \<in> set (ip_wire L). h < 0 \<and> fst fr = table \<and> frame_rows fr \<noteq> [])"

lemma Ipc_Flush_wire:
  assumes "wire_inv table L" "batch_inv L" "Ipc_Flush r L = Some L'"
  shows "wire_inv table L'"
proof (cases "ip_seq_batch L = [] \<or> ip_handle L \<le> 0")
  case True
  then show ?thesis using assms by (auto simp: Ipc_Flush_def split: if_splits)
next
  case False
  obtain fr where fr: "build_frame L = Some fr" "frame_rows fr = pending_rows L" "fst fr = ip_table_name L"
    using build_frame_ok [OF assms(2)] by blast
  have "pending_rows L \<noteq> []" using False pending_empty [OF assms(2)] by simp
  moreover have "SendBatchLocked r L = Some (r \<noteq> Some (-128), L\<lparr>ip_wire := ip_wire L @ [(- ip_handle L, fr, r)]\<rparr>)"
    using fr(1) by (cases r) (simp_all add: SendBatchLocked_def Let_def)
  ultimately show ?thesis using False fr(2,3) assms(1,3)
    by (auto simp: Ipc_Flush_def ClearBatchLocked_def wire_inv_def sent_frames_def send_failures_def accepted_call_def Let_def
        split: if_splits) fastforce+
qed

lemma wire_frame:
  "wire_inv table L \<Longrightarrow> wire_inv table (Ipc_Log e L)"
  "wire_inv table L \<Longrightarrow> wire_inv table (snd (Connect khpu L))"
  "wire_inv table L \<Longrightarrow> wire_inv table (Disconnect L)"
  by (simp_all add: wire_inv_def sent_frames_def send_failures_def Ipc_Log_def Connect_def Disconnect_def Let_def)

lemma ipc_run_wire:
  "wire_inv table L \<Longrightarrow> batch_inv L \<Longrightarrow> ipc_run ops L = Some L' \<Longrightarrow> wire_inv table L'"
proof (induction ops arbitrary: L)
  case (Cons op ops)
  obtain L1 where L1: "ipc_step op L = Some L1" "ipc_run ops L1 = Some L'" using Cons.prems(3) by (auto split: bind_splits)
  have "wire_inv table L1 \<and> batch_inv L1"
  proof (cases op)
    case (IFlush r)
    then show ?thesis using L1(1) Ipc_Flush_wire [OF Cons.prems(1,2)] Ipc_Flush_ok [OF Cons.prems(2), of r] by auto
  qed (use L1(1) wire_frame [OF Cons.prems(1)] Ipc_Log_ok(1) [OF Cons.prems(2)] handle_frame [OF Cons.prems(2)] in auto)
  then show ?case using Cons.IH L1(2) by blast
qed simp

lemma pending_count_rows: "batch_inv L \<Longrightarrow> pending_count L = length (pending_rows L)"
proof -
  have "length (column_rows ts cols sides) = length ts" for ts cols sides
    by (induction ts arbitrary: cols sides) simp_all
  then show "batch_inv L \<Longrightarrow> ?thesis" by (simp add: pending_count_def pending_rows_def batch_inv_def Let_def)
qed

text \<open>C22: the IPC logger never loses, duplicates or reorders a row, whatever \<open>k()\<close> answers.
  After any sequence of logs, flushes (each answered as the client library likes), connects and
  disconnects on a new logger: the rows handed over by the calls of \<open>k()\<close> that were not answered
  with an error object (type -128), followed by the rows still queued, are exactly the rows logged, in
  order, so a refused batch stays queued and an accepted one is not sent again; \<open>sent_frames\<close> and
  \<open>send_failures\<close> count the two kinds of calls; every call is asynchronous, to the logger's table and
  not empty; no column is read out of bounds. One more flush over a live connection leaves nothing
  queued, unless it is refused: then it drops the connection and keeps the rows.\<close>

theorem ipc_tape_complete:
  "\<exists>L. ipc_run ops (IpcKdbLogger_new host port table credentials) = Some L
    \<and> delivered (ip_wire L) @ pending_rows L = map ipc_row (logged ops)
    \<and> pending_count L = length (pending_rows L)
    \<and> sent_frames L = of_nat (length (filter accepted_call (ip_wire L)))
    \<and> send_failures L = of_nat (length (filter (\<lambda>c. \<not> accepted_call c) (ip_wire L)))
    \<and> (\<forall>(h, fr, r) \<in> set (ip_wire L). h < 0 \<and> fst fr = table \<and> frame_rows fr \<noteq> [])
    \<and> (connected L \<and> answer \<noteq> Some (-128) \<longrightarrow>
         (\<exists>L'. Ipc_Flush answer L = Some L' \<and> delivered (ip_wire L') = map ipc_row (logged ops)))
    \<and> (connected L \<and> pending_rows L \<noteq> [] \<longrightarrow>
         (\<exists>L'. Ipc_Flush (Some (-128)) L = Some L' \<and> \<not> connected L' \<and> pending_rows L' = pending_rows L))"
proof -
  let ?L = "IpcKdbLogger_new host port table credentials"
  have z: "ipc_tape ?L = []" "wire_inv table ?L"
    by (simp_all add: IpcKdbLogger_new_def ipc_tape_def pending_rows_def wire_inv_def sent_frames_def send_failures_def)
  obtain L where L: "ipc_run ops ?L = Some L" "batch_inv L" "ipc_tape L = map ipc_row (logged ops)"
    using ipc_run_tape [of ?L ops] z by auto
  have "wire_inv table L" using ipc_run_wire [OF z(2) _ L(1)] by simp
  moreover obtain L' where L': "Ipc_Flush answer L = Some L'" "ipc_tape L' = ipc_tape L" using Ipc_Flush_ok [OF L(2)] by blast
  moreover have "pending_rows L' = []" if "connected L" "answer \<noteq> Some (-128)"
    using Ipc_Flush_delivers [OF L(2) _ that(2) L'(1)] that(1) by (simp add: connected_def)
  moreover have "\<exists>L'. Ipc_Flush (Some (-128)) L = Some L' \<and> \<not> connected L' \<and> pending_rows L' = pending_rows L"
    if "connected L" "pending_rows L \<noteq> []"
    using Ipc_Flush_refused [OF L(2)] that by (auto simp: connected_def)
  ultimately show ?thesis using L pending_count_rows [OF L(2)] by (auto simp: ipc_tape_def wire_inv_def)
qed

text \<open>A refused batch, a new connection, and the same rows accepted with a later one.\<close>

theorem ipc_tape_complete_witness:
  "\<exists>L L'. ipc_run [ILog (Event_Ack 0 5 7 kBuy 100 3), IConnect (\<lambda>_ _ _. 4), IFlush (Some (-128)),
        ILog (Event_Ack 1 6 8 kSell 101 2), IConnect (\<lambda>_ _ _. 5)] (IpcKdbLogger_new ''h'' 5010 ''trade'' ''u'') = Some L
    \<and> send_failures L = 1 \<and> delivered (ip_wire L) = [] \<and> Ipc_Flush None L = Some L'
    \<and> delivered (ip_wire L') = [(''ACK'', [0, 5, 7, 0, 100, 3], ''BUY''), (''ACK'', [1, 6, 8, 0, 101, 2], ''SELL'')]"
proof -
  let ?ops = "[ILog (Event_Ack 0 5 7 kBuy 100 3), IConnect (\<lambda>_ _ _. 4), IFlush (Some (-128)),
    ILog (Event_Ack 1 6 8 kSell 101 2), IConnect (\<lambda>_ _ _. 5)]"
  let ?L = "IpcKdbLogger_new ''h'' 5010 ''trade'' ''u''"
  obtain L where L: "ipc_run ?ops ?L = Some L"
      "connected L \<longrightarrow> (\<exists>L'. Ipc_Flush None L = Some L' \<and> delivered (ip_wire L') = map ipc_row (logged ?ops))"
    using ipc_tape_complete [of ?ops "''h''" 5010 "''trade''" "''u''" None] by blast
  have "connected L \<and> send_failures L = 1 \<and> delivered (ip_wire L) = []"
    using L(1) by (auto simp: IpcKdbLogger_new_def Ipc_Log_def Connect_def Ipc_Flush_def SendBatchLocked_def build_frame_def
        fill_column_def connected_def send_failures_def Event_Ack_def Let_def)
  with L show ?thesis by (auto simp: ipc_row_def Event_Ack_def SideName_def)
qed

lemma pending_frame:
  "pending_rows (L\<lparr>ip_wire := w, ip_handle := h, ip_send_failures := n\<rparr>) = pending_rows L"
  by (simp add: pending_rows_def)

text \<open>A failed send keeps the batch. When \<^verbatim>\<open>k()\<close> reports an error, the flush closes
  the handle, counts one failure and leaves every queued column as it was; a later connect and
  flush sends the same rows.\<close>

theorem failed_flush_keeps_batch:
  assumes "batch_inv L" "ip_seq_batch L \<noteq> []" "ip_handle L > 0" "khpu (ip_host L) (ip_port L) (ip_credentials L) > 0"
  shows "\<exists>L1 L2. Ipc_Flush (Some (- 128)) L = Some L1 \<and> \<not> connected L1
    \<and> ip_send_failures L1 = ip_send_failures L + 1 \<and> pending_rows L1 = pending_rows L \<and> delivered (ip_wire L1) = delivered (ip_wire L)
    \<and> Ipc_Flush None (snd (Connect khpu L1)) = Some L2 \<and> pending_count L2 = 0
    \<and> ip_sent_frames L2 = ip_sent_frames L + 1
    \<and> delivered (ip_wire L2) = delivered (ip_wire L) @ pending_rows L"
proof -
  obtain fr where fr: "build_frame L = Some fr" "frame_rows fr = pending_rows L"
    using build_frame_ok [OF assms(1)] by blast
  let ?w = "ip_wire L @ [(- ip_handle L, fr, Some (-128))]"
  let ?L1 = "L\<lparr>ip_wire := ?w, ip_handle := 0, ip_send_failures := ip_send_failures L + 1\<rparr>"
  have 1: "Ipc_Flush (Some (- 128)) L = Some ?L1"
    using assms(2,3) fr(1) by (simp add: Ipc_Flush_def SendBatchLocked_def Let_def)
  let ?h = "khpu (ip_host L) (ip_port L) (ip_credentials L)"
  have c: "snd (Connect khpu ?L1) = ?L1\<lparr>ip_handle := ?h\<rparr>" using assms(4) by (simp add: Connect_def Let_def)
  have "build_frame (?L1\<lparr>ip_handle := ?h\<rparr>) = Some fr" using fr(1) by (simp add: build_frame_def)
  then have "SendBatchLocked None (?L1\<lparr>ip_handle := ?h\<rparr>)
      = Some (True, ?L1\<lparr>ip_handle := ?h, ip_wire := ?w @ [(- ?h, fr, None)]\<rparr>)"
    by (simp add: SendBatchLocked_def Let_def)
  then have 2: "Ipc_Flush None (?L1\<lparr>ip_handle := ?h\<rparr>)
      = Some ((ClearBatchLocked (?L1\<lparr>ip_handle := ?h, ip_wire := ?w @ [(- ?h, fr, None)]\<rparr>))\<lparr>ip_sent_frames := ip_sent_frames L + 1\<rparr>)"
    using assms(2,4) by (simp add: Ipc_Flush_def ClearBatchLocked_def Let_def)
  show ?thesis
    by (rule exI [of _ ?L1], unfold 1 c 2, intro exI conjI, rule_tac [6] refl)
      (simp_all add: fr(2) ClearBatchLocked_def connected_def pending_count_def pending_frame)
qed

theorem failed_flush_keeps_batch_witness:
  "\<exists>L1 L2. Ipc_Flush (Some (- 128)) (Ipc_Log (Event_Ack 0 5 7 kBuy 100 3)
        ((IpcKdbLogger_new ''h'' 5010 ''trade'' ''u'')\<lparr>ip_handle := 3\<rparr>)) = Some L1
    \<and> Ipc_Flush None (snd (Connect (\<lambda>_ _ _. 4) L1)) = Some L2 \<and> ip_send_failures L1 = 1
    \<and> delivered (ip_wire L2) = [(''ACK'', [0, 5, 7, 0, 100, 3], ''BUY'')]"
proof -
  let ?L = "Ipc_Log (Event_Ack 0 5 7 kBuy 100 3) ((IpcKdbLogger_new ''h'' 5010 ''trade'' ''u'')\<lparr>ip_handle := 3\<rparr>)"
  have "batch_inv ?L" "ip_seq_batch ?L \<noteq> []" "ip_handle ?L > 0"
    by (simp_all add: batch_inv_def Ipc_Log_def IpcKdbLogger_new_def)
  from failed_flush_keeps_batch [OF this, of "\<lambda>_ _ _. 4"] obtain L1 L2 where
    r: "Ipc_Flush (Some (- 128)) ?L = Some L1" "Ipc_Flush None (snd (Connect (\<lambda>_ _ _. 4) L1)) = Some L2"
      "ip_send_failures L1 = ip_send_failures ?L + 1"
      "delivered (ip_wire L2) = delivered (ip_wire ?L) @ pending_rows ?L"
    by auto
  have "delivered (ip_wire ?L) = []" "pending_rows ?L = [(''ACK'', [0, 5, 7, 0, 100, 3], ''BUY'')]"
    "ip_send_failures ?L = 0"
    by (simp_all add: pending_rows_def Ipc_Log_def IpcKdbLogger_new_def Event_Ack_def SideName_def)
  with r show ?thesis by auto
qed

end
