(* ===== verification/Event_Relay.thy ===== *)
theory Event_Relay imports Spsc_Ring Telemetry "HOL-Library.Sublist" begin

text \<open>
  The event relay of \<^verbatim>\<open>cpp/external/event_relay.hpp\<close>: the consumer thread's
  \<^verbatim>\<open>Run\<close> loop, \<^verbatim>\<open>Start\<close> and \<^verbatim>\<open>Stop\<close>, with the producer
  pushing in between. The ring and the sink are the template parameter and the
  \<^verbatim>\<open>KdbLogger&\<close> of the source, so the relay's definitions take their operations as
  arguments, and its theory is proved once against the two interfaces. One ring call is one step
  (\<open>Relay_Refinement\<close> shows that
  nothing is lost by that).
\<close>

section \<open>State and steps\<close>

text \<open>Where \<^verbatim>\<open>Run\<close> is: in the drain loop (with \<^verbatim>\<open>got_any\<close>), at the test of
  the stop flag, in the final pass, or returned.\<close>

datatype run_pc = R_none | R_drain bool | R_check bool | R_final | R_done

text \<open>\<open>er_joining\<close>: a caller is inside \<^verbatim>\<open>Stop\<close>, waiting in \<^verbatim>\<open>join\<close>.
  \<open>er_produced\<close> records the events pushed and \<open>er_accepted\<close> those the ring accepted.\<close>

record ('q, 'l) EventRelay =
  er_ring :: 'q
  er_logger :: 'l
  er_running :: bool
  er_stop_requested :: bool
  er_processed :: u64
  er_pc :: run_pc
  er_joining :: bool
  er_produced :: "TelemetryEvent list"
  er_accepted :: "TelemetryEvent list"

definition EventRelay_new :: "'q \<Rightarrow> 'l \<Rightarrow> ('q, 'l) EventRelay" where
  "EventRelay_new ring logger = \<lparr>er_ring = ring, er_logger = logger, er_running = False,
     er_stop_requested = False, er_processed = 0, er_pc = R_none, er_joining = False, er_produced = [], er_accepted = []\<rparr>"

definition Start :: "('q, 'l) EventRelay \<Rightarrow> ('q, 'l) EventRelay" where
  "Start S = (if er_running S then S
     else S\<lparr>er_running := True, er_stop_requested := False, er_pc := R_drain False\<rparr>)"

text \<open>\<^verbatim>\<open>Stop\<close> up to the call of \<^verbatim>\<open>join\<close>, and from its return.\<close>

definition Stop_request :: "('q, 'l) EventRelay \<Rightarrow> ('q, 'l) EventRelay" where
  "Stop_request S = (if \<not> er_running S then S else S\<lparr>er_stop_requested := True, er_joining := True\<rparr>)"

definition Stop_joined :: "('q, 'l) EventRelay \<Rightarrow> ('q, 'l) EventRelay" where
  "Stop_joined S = S\<lparr>er_running := False, er_pc := R_none, er_joining := False\<rparr>"

definition running :: "('q, 'l) EventRelay \<Rightarrow> bool" where
  "running S = er_running S"

definition processed :: "('q, 'l) EventRelay \<Rightarrow> u64" where
  "processed S = er_processed S"

definition handle_event :: "('e \<Rightarrow> 'l \<Rightarrow> 'l) \<Rightarrow> 'e \<Rightarrow> 'q \<Rightarrow> ('q, 'l) EventRelay \<Rightarrow> ('q, 'l) EventRelay" where
  "handle_event log e ring S = S\<lparr>er_ring := ring, er_logger := log e (er_logger S),
     er_processed := er_processed S + 1\<rparr>"

definition Run_step :: "('q \<Rightarrow> (TelemetryEvent option \<times> 'q) option) \<Rightarrow> (TelemetryEvent \<Rightarrow> 'l \<Rightarrow> 'l)
    \<Rightarrow> ('q, 'l) EventRelay \<Rightarrow> ('q, 'l) EventRelay option" where
  "Run_step pop log S =
     (case er_pc S of
        R_drain got_any \<Rightarrow> do {
          (r, ring) \<leftarrow> pop (er_ring S);
          case r of
            Some e \<Rightarrow> Some ((handle_event log e ring S)\<lparr>er_pc := R_drain True\<rparr>)
          | None \<Rightarrow> Some (S\<lparr>er_ring := ring, er_pc := R_check got_any\<rparr>)
        }
      | R_check got_any \<Rightarrow>
          Some (S\<lparr>er_pc := if er_stop_requested S then R_final else R_drain False\<rparr>)
      | R_final \<Rightarrow> do {
          (r, ring) \<leftarrow> pop (er_ring S);
          case r of
            Some e \<Rightarrow> Some (handle_event log e ring S)
          | None \<Rightarrow> Some (S\<lparr>er_ring := ring, er_pc := R_done\<rparr>)
        }
      | _ \<Rightarrow> None)"

text \<open>The producer, which by the contract of \<^verbatim>\<open>Stop\<close> does not push during it.\<close>

definition Produce :: "(TelemetryEvent \<Rightarrow> 'q \<Rightarrow> (bool \<times> 'q) option) \<Rightarrow> TelemetryEvent
    \<Rightarrow> ('q, 'l) EventRelay \<Rightarrow> ('q, 'l) EventRelay option" where
  "Produce push e S = do {
     (ok, ring) \<leftarrow> push e (er_ring S);
     Some (S\<lparr>er_ring := ring, er_produced := er_produced S @ [e],
       er_accepted := (if ok then er_accepted S @ [e] else er_accepted S)\<rparr>)
   }"

inductive relay_step :: "(TelemetryEvent \<Rightarrow> 'q \<Rightarrow> (bool \<times> 'q) option)
    \<Rightarrow> ('q \<Rightarrow> (TelemetryEvent option \<times> 'q) option) \<Rightarrow> (TelemetryEvent \<Rightarrow> 'l \<Rightarrow> 'l)
    \<Rightarrow> ('q, 'l) EventRelay \<Rightarrow> ('q, 'l) EventRelay \<Rightarrow> bool" for push pop log where
  relay_run: "Run_step pop log S = Some S' \<Longrightarrow> relay_step push pop log S S'"
| relay_push: "\<not> er_joining S \<Longrightarrow> Produce push e S = Some S' \<Longrightarrow> relay_step push pop log S S'"
| relay_start: "\<not> er_joining S \<Longrightarrow> relay_step push pop log S (Start S)"
| relay_stop: "\<not> er_joining S \<Longrightarrow> relay_step push pop log S (Stop_request S)"
| relay_join: "er_joining S \<Longrightarrow> er_pc S = R_done \<Longrightarrow> relay_step push pop log S (Stop_joined S)"

inductive relay_reachable :: "(TelemetryEvent \<Rightarrow> 'q \<Rightarrow> (bool \<times> 'q) option)
    \<Rightarrow> ('q \<Rightarrow> (TelemetryEvent option \<times> 'q) option) \<Rightarrow> (TelemetryEvent \<Rightarrow> 'l \<Rightarrow> 'l)
    \<Rightarrow> ('q, 'l) EventRelay \<Rightarrow> ('q, 'l) EventRelay \<Rightarrow> bool" for push pop log S0 where
  relay_refl: "relay_reachable push pop log S0 S0"
| relay_trans: "relay_reachable push pop log S0 S \<Longrightarrow> relay_step push pop log S S' \<Longrightarrow>
    relay_reachable push pop log S0 S'"

text \<open>The consumer thread alone, for \<open>n\<close> steps.\<close>

fun Run_steps :: "nat \<Rightarrow> ('q \<Rightarrow> (TelemetryEvent option \<times> 'q) option) \<Rightarrow> (TelemetryEvent \<Rightarrow> 'l \<Rightarrow> 'l)
    \<Rightarrow> ('q, 'l) EventRelay \<Rightarrow> ('q, 'l) EventRelay option" where
  "Run_steps 0 pop log S = Some S"
| "Run_steps (Suc n) pop log S = do { S1 \<leftarrow> Run_step pop log S; Run_steps n pop log S1 }"

lemma Run_steps_add:
  "Run_steps (m + n) pop log S = do { S1 \<leftarrow> Run_steps m pop log S; Run_steps n pop log S1 }"
  by (induction m arbitrary: S) (auto split: bind_splits)

section \<open>Against the two interfaces\<close>

locale event_relay = bounded_queue push pop items rinv cap lost + kdb_logger log flush tape row linv
  for push :: "TelemetryEvent \<Rightarrow> 'q \<Rightarrow> (bool \<times> 'q) option" and pop items rinv cap lost
    and log :: "TelemetryEvent \<Rightarrow> 'l \<Rightarrow> 'l" and flush and tape :: "'l \<Rightarrow> 'r list" and row linv

context event_relay begin

definition relay_inv :: "'r list \<Rightarrow> u64 \<Rightarrow> ('q, 'l) EventRelay \<Rightarrow> bool" where
  "relay_inv t0 l0 S \<longleftrightarrow> rinv (er_ring S) \<and> linv (er_logger S)
     \<and> subseq (er_accepted S) (er_produced S)
     \<and> lost (er_ring S) + of_nat (length (er_accepted S)) = l0 + of_nat (length (er_produced S))
     \<and> tape (er_logger S) @ map row (items (er_ring S)) = t0 @ map row (er_accepted S)
     \<and> er_processed S + of_nat (length (items (er_ring S))) = of_nat (length (er_accepted S))
     \<and> (er_pc S = R_none \<longleftrightarrow> \<not> er_running S) \<and> (er_stop_requested S \<and> er_running S \<longleftrightarrow> er_joining S)
     \<and> (er_pc S = R_final \<longrightarrow> er_joining S) \<and> (er_pc S = R_done \<longrightarrow> er_joining S \<and> items (er_ring S) = [])"

lemma handle_inv:
  assumes "relay_inv t0 l0 S" "items (er_ring S) = e # es" "pop (er_ring S) = Some (Some e, q)"
    "rinv q" "items q = es" "lost q = lost (er_ring S)" "pc \<noteq> R_none" "er_pc S \<noteq> R_none" "pc \<noteq> R_done"
    "pc = R_final \<longrightarrow> er_pc S = R_final"
  shows "relay_inv t0 l0 ((handle_event log e q S)\<lparr>er_pc := pc\<rparr>)"
  using assms log_inv log_tape by (auto simp: relay_inv_def handle_event_def add.assoc add.left_commute)

lemma run_inv:
  assumes inv: "relay_inv t0 l0 S" and st: "Run_step pop log S = Some S'"
  shows "relay_inv t0 l0 S'"
proof -
  have r: "rinv (er_ring S)" using inv by (simp add: relay_inv_def)
  show ?thesis
  proof (cases "items (er_ring S)")
    case Nil
    have p: "pop (er_ring S) = Some (None, er_ring S)" by (rule pop_empty [OF r Nil])
    show ?thesis
      using inv st p Nil by (cases "er_pc S") (auto simp: Run_step_def relay_inv_def)
  next
    case (Cons e es)
    obtain q where q: "pop (er_ring S) = Some (Some e, q)" "rinv q" "items q = es" "lost q = lost (er_ring S)"
      using pop_first [OF r Cons] by blast
    note H = handle_inv [OF inv Cons q]
    show ?thesis
    proof (cases "er_pc S")
      case (R_drain g)
      then have "S' = (handle_event log e q S)\<lparr>er_pc := R_drain True\<rparr>"
        using st q(1) by (simp add: Run_step_def)
      then show ?thesis using H [of "R_drain True"] R_drain by simp
    next
      case R_final
      then have "S' = handle_event log e q S" using st q(1) by (simp add: Run_step_def)
      moreover have "handle_event log e q S = (handle_event log e q S)\<lparr>er_pc := R_final\<rparr>"
        using R_final by (simp add: handle_event_def)
      ultimately show ?thesis using H [of R_final] R_final by simp
    next
      case (R_check g)
      then show ?thesis using inv st Cons by (auto simp: Run_step_def relay_inv_def)
    qed (use st in \<open>auto simp: Run_step_def\<close>)
  qed
qed

lemma produce_inv:
  assumes inv: "relay_inv t0 l0 S" and nj: "\<not> er_joining S" and st: "Produce push e S = Some S'"
  shows "relay_inv t0 l0 S'"
proof -
  have r: "rinv (er_ring S)" using inv by (simp add: relay_inv_def)
  have nd: "er_pc S \<noteq> R_done" using inv nj by (auto simp: relay_inv_def)
  show ?thesis
  proof (cases "length (items (er_ring S)) < cap (er_ring S)")
    case True
    obtain q where q: "push e (er_ring S) = Some (True, q)" "rinv q" "items q = items (er_ring S) @ [e]"
      "lost q = lost (er_ring S)"
      using push_room [OF r True, of e] by blast
    have sub: "subseq (er_accepted S @ [e]) (er_produced S @ [e])"
      using inv by (simp add: relay_inv_def)
    have "er_processed S + (1 + of_nat (length (items (er_ring S)))) = 1 + of_nat (length (er_accepted S))"
      using inv by (simp add: relay_inv_def add.left_commute)
    then show ?thesis using inv nj nd st q sub by (auto simp: Produce_def relay_inv_def add.assoc add.left_commute)
  next
    case False
    with bounded [OF r] have "length (items (er_ring S)) = cap (er_ring S)" by simp
    from push_full [OF r this, of e] obtain q where
      "push e (er_ring S) = Some (False, q)" "rinv q" "items q = items (er_ring S)" "lost q = lost (er_ring S) + 1"
      by blast
    moreover have "subseq (er_accepted S) (er_produced S @ [e])"
      using inv list_emb_append_mono [of "(=)" "er_accepted S" "er_produced S" "[]" "[e]"] by (simp add: relay_inv_def)
    ultimately show ?thesis using inv st by (auto simp: Produce_def relay_inv_def add.assoc add.left_commute)
  qed
qed

lemma step_inv: "relay_step push pop log S S' \<Longrightarrow> relay_inv t0 l0 S \<Longrightarrow> relay_inv t0 l0 S'"
proof (induction rule: relay_step.induct)
  case (relay_run S S')
  then show ?case using run_inv by blast
next
  case (relay_push S e S')
  then show ?case using produce_inv by blast
next
  case (relay_start S)
  then show ?case by (auto simp: Start_def relay_inv_def)
next
  case (relay_stop S)
  then show ?case by (auto simp: Stop_request_def relay_inv_def)
next
  case (relay_join S)
  then show ?case by (auto simp: Stop_joined_def relay_inv_def)
qed

lemma reachable_inv:
  assumes "relay_reachable push pop log (EventRelay_new q l) S" "rinv q" "items q = []" "linv l"
  shows "relay_inv (tape l) (lost q) S"
  using assms(1)
proof (induction rule: relay_reachable.induct)
  case relay_refl
  then show ?case using assms(2-4) by (simp add: relay_inv_def EventRelay_new_def)
next
  case (relay_trans S S')
  then show ?case using step_inv by blast
qed

text \<open>The final pass and the drain loop end after as many pops as there are items.\<close>

lemma final_terminates:
  assumes "rinv (er_ring S)" "er_pc S = R_final"
  shows "\<exists>S'. Run_steps (Suc (length (items (er_ring S)))) pop log S = Some S' \<and> er_pc S' = R_done"
  using assms
proof (induction "items (er_ring S)" arbitrary: S)
  case Nil
  then show ?case using pop_empty [OF Nil(2)] by (simp add: Run_step_def)
next
  case (Cons e es)
  obtain q where q: "pop (er_ring S) = Some (Some e, q)" "rinv q" "items q = es"
    using pop_first [OF Cons(3)] Cons(2) by metis
  have "Run_step pop log S = Some (handle_event log e q S)" using Cons(4) q(1) by (simp add: Run_step_def)
  moreover have "\<exists>S'. Run_steps (Suc (length es)) pop log (handle_event log e q S) = Some S' \<and> er_pc S' = R_done"
    using Cons(1) [of "handle_event log e q S"] q(2,3) Cons(4) by (simp add: handle_event_def)
  ultimately show ?case unfolding Cons(2) [symmetric] by simp
qed

lemma drain_terminates:
  assumes "rinv (er_ring S)" "er_pc S = R_drain g"
  shows "\<exists>S' g'. Run_steps (Suc (length (items (er_ring S)))) pop log S = Some S' \<and> er_pc S' = R_check g'
    \<and> er_stop_requested S' = er_stop_requested S \<and> rinv (er_ring S') \<and> items (er_ring S') = []"
  using assms
proof (induction "items (er_ring S)" arbitrary: S g)
  case Nil
  then show ?case using pop_empty [OF Nil(2)] by (simp add: Run_step_def)
next
  case (Cons e es)
  obtain q where q: "pop (er_ring S) = Some (Some e, q)" "rinv q" "items q = es"
    using pop_first [OF Cons(3)] Cons(2) by metis
  let ?S = "(handle_event log e q S)\<lparr>er_pc := R_drain True\<rparr>"
  have "Run_step pop log S = Some ?S" using Cons(4) q(1) by (simp add: Run_step_def)
  moreover have "\<exists>S' g'. Run_steps (Suc (length es)) pop log ?S = Some S' \<and> er_pc S' = R_check g'
      \<and> er_stop_requested S' = er_stop_requested S \<and> rinv (er_ring S') \<and> items (er_ring S') = []"
    using Cons(1) [of ?S True] q(2,3) by (simp add: handle_event_def)
  ultimately show ?case unfolding Cons(2) [symmetric] by simp
qed

text \<open>Once asked to stop, and with the producer quiet, the thread returns.\<close>

lemma stop_terminates:
  assumes "rinv (er_ring S)" "er_stop_requested S" "er_pc S \<noteq> R_none"
  shows "\<exists>n S'. Run_steps n pop log S = Some S' \<and> er_pc S' = R_done"
proof -
  have chk: "\<exists>n S'. Run_steps n pop log T = Some S' \<and> er_pc S' = R_done"
    if "er_pc T = R_check g" "er_stop_requested T" "rinv (er_ring T)" for T :: "('q, 'l) EventRelay" and g
  proof -
    have "Run_step pop log T = Some (T\<lparr>er_pc := R_final\<rparr>)" using that by (simp add: Run_step_def)
    with final_terminates [of "T\<lparr>er_pc := R_final\<rparr>"] that(3) show ?thesis
      by (intro exI [of _ "Suc (Suc (length (items (er_ring T))))"]) simp
  qed
  show ?thesis
  proof (cases "er_pc S")
    case (R_drain g)
    obtain T g' where T: "Run_steps (Suc (length (items (er_ring S)))) pop log S = Some T"
      "er_pc T = R_check g'" "er_stop_requested T" "rinv (er_ring T)"
      using drain_terminates [OF assms(1) R_drain] assms(2) by auto
    from chk [OF T(2-4)] obtain n S' where "Run_steps n pop log T = Some S'" "er_pc S' = R_done" by blast
    with T(1) have "Run_steps (Suc (length (items (er_ring S))) + n) pop log S = Some S'"
      by (simp only: Run_steps_add) simp
    with \<open>er_pc S' = R_done\<close> show ?thesis by blast
  next
    case (R_check g)
    then show ?thesis using chk assms by blast
  next
    case R_final
    then show ?thesis using final_terminates assms by blast
  next
    case R_done
    then show ?thesis by (intro exI [of _ 0]) simp
  qed (use assms in simp)
qed

end

interpretation memory_relay: event_relay TryPush TryPop items ring_inv ring_cap dropped_messages
  InMemory_Log "\<lambda>r L. Some (InMemory_Flush L)" im_rows FormatCsvRow "\<lambda>_. True"
  by unfold_locales

interpretation ipc_relay: event_relay TryPush TryPop items ring_inv ring_cap dropped_messages
  Ipc_Log Ipc_Flush ipc_tape ipc_row batch_inv
  by unfold_locales

section \<open>Correctness\<close>

text \<open>The tape is complete when \<^verbatim>\<open>Stop\<close> returns. For the ring and the in-memory
  sink, in any interleaving of producer, consumer thread and callers of \<^verbatim>\<open>Start\<close> and
  \<^verbatim>\<open>Stop\<close>: the accepted events are those produced, in order, less the ones
  \<^verbatim>\<open>dropped_messages()\<close> counts; at every moment the tape followed by the rows still in
  the ring is the sequence of accepted events; and whenever a \<^verbatim>\<open>Stop\<close> may return from
  its join, the ring is empty, the tape holds every accepted event in order, once, and
  \<^verbatim>\<open>processed()\<close> is their number.\<close>

theorem relay_tape_complete:
  assumes "relay_reachable TryPush TryPop InMemory_Log (EventRelay_new (SpscRing Capacity z) InMemory_new) S"
    and "capacity_ok Capacity"
  shows "im_rows (er_logger S) @ map FormatCsvRow (items (er_ring S)) = map FormatCsvRow (er_accepted S)
    \<and> subseq (er_accepted S) (er_produced S)
    \<and> dropped_messages (er_ring S) + of_nat (length (er_accepted S)) = of_nat (length (er_produced S))
    \<and> (er_joining S \<and> er_pc S = R_done \<longrightarrow>
         items (er_ring S) = [] \<and> im_rows (er_logger (Stop_joined S)) = map FormatCsvRow (er_accepted S)
         \<and> er_processed (Stop_joined S) = of_nat (length (er_accepted S)))"
proof -
  have "memory_relay.relay_inv (im_rows InMemory_new) 0 S"
    using memory_relay.reachable_inv [OF assms(1)] new_ring_ok [OF assms(2), of z] by simp
  then show ?thesis
    unfolding memory_relay.relay_inv_def by (auto simp: InMemory_new_def Stop_joined_def)
qed

text \<open>Neither the relay thread nor \<^verbatim>\<open>Stop\<close> ever flushes: whatever the interleaving, the
  frames the IPC logger has sent are those it had sent before the relay was started.\<close>

lemma Ipc_Log_wire [simp]: "ip_wire (Ipc_Log e L) = ip_wire L"
  by (simp add: Ipc_Log_def Let_def)

lemma relay_step_wire:
  "relay_step push pop Ipc_Log S S' \<Longrightarrow> ip_wire (er_logger S') = ip_wire (er_logger S)"
  by (erule relay_step.cases)
     (auto simp: Run_step_def handle_event_def Produce_def Start_def Stop_request_def Stop_joined_def
           split: run_pc.splits bind_splits option.splits if_splits)

theorem relay_never_flushes:
  "relay_reachable push pop Ipc_Log S0 S \<Longrightarrow> ip_wire (er_logger S) = ip_wire (er_logger S0)"
  by (induction rule: relay_reachable.induct) (auto dest: relay_step_wire)

definition sample_event :: TelemetryEvent where
  "sample_event = Event_Ack 0 5 7 kBuy 100 3"

lemma sample_reach:
  "\<exists>S. relay_reachable TryPush TryPop InMemory_Log (EventRelay_new (SpscRing 2 sample_event) InMemory_new) S
    \<and> er_accepted S = [sample_event] \<and> er_joining S \<and> er_pc S = R_done"
proof -
  let ?R = "relay_reachable TryPush TryPop InMemory_Log (EventRelay_new (SpscRing 2 sample_event) InMemory_new)"
  let ?q = "\<lambda>w r. \<lparr>rg_capacity = 2, rg_write_idx = w, rg_read_idx = r, rg_dropped = 0, rg_storage = [sample_event, sample_event]\<rparr>"
  let ?S = "\<lambda>w r rows run stop n pc j (acc :: TelemetryEvent list). \<lparr>er_ring = ?q w r, er_logger = \<lparr>im_rows = rows, im_flush_count = 0\<rparr>,
    er_running = run, er_stop_requested = stop, er_processed = n, er_pc = pc, er_joining = j, er_produced = acc, er_accepted = acc\<rparr>"
  let ?e = sample_event and ?r = "[FormatCsvRow sample_event]"
  have two: "replicate 2 x = [x, x]" for x :: TelemetryEvent by (simp add: numeral_2_eq_2)
  have 0: "?R (?S 0 0 [] False False 0 R_none False [])"
    using relay_refl [of TryPush TryPop InMemory_Log "EventRelay_new (SpscRing 2 sample_event) InMemory_new"] two
    by (simp add: EventRelay_new_def SpscRing_def InMemory_new_def)
  have 1: "?R (?S 0 0 [] True False 0 (R_drain False) False [])"
    using relay_trans [OF 0 relay_start] by (simp add: Start_def)
  have le: "\<not> (2 \<le> (0 :: u64))" by (simp add: word_le_nat_alt)
  have p: "Produce TryPush ?e (?S 0 0 [] True False 0 (R_drain False) False [])
      = Some (?S 1 0 [] True False 0 (R_drain False) False [?e])"
    by (simp add: Produce_def TryPush_def Let_def kMask_def le)
  have 2: "?R (?S 1 0 [] True False 0 (R_drain False) False [?e])"
    by (rule relay_trans [OF 1 relay_push [OF _ p]]) simp
  have 3: "?R (?S 1 0 [] True True 0 (R_drain False) True [?e])"
    using relay_trans [OF 2 relay_stop] by (simp add: Stop_request_def)
  have r1: "Run_step TryPop InMemory_Log (?S 1 0 [] True True 0 (R_drain False) True [?e])
      = Some (?S 1 1 ?r True True 1 (R_drain True) True [?e])"
    by (simp add: Run_step_def TryPop_def Let_def kMask_def handle_event_def InMemory_Log_def)
  have 4: "?R (?S 1 1 ?r True True 1 (R_drain True) True [?e])" by (rule relay_trans [OF 3 relay_run [OF r1]])
  have r2: "Run_step TryPop InMemory_Log (?S 1 1 ?r True True 1 (R_drain True) True [?e])
      = Some (?S 1 1 ?r True True 1 (R_check True) True [?e])"
    by (simp add: Run_step_def TryPop_def)
  have 5: "?R (?S 1 1 ?r True True 1 (R_check True) True [?e])" by (rule relay_trans [OF 4 relay_run [OF r2]])
  have r3: "Run_step TryPop InMemory_Log (?S 1 1 ?r True True 1 (R_check True) True [?e])
      = Some (?S 1 1 ?r True True 1 R_final True [?e])"
    by (simp add: Run_step_def)
  have 6: "?R (?S 1 1 ?r True True 1 R_final True [?e])" by (rule relay_trans [OF 5 relay_run [OF r3]])
  have r4: "Run_step TryPop InMemory_Log (?S 1 1 ?r True True 1 R_final True [?e])
      = Some (?S 1 1 ?r True True 1 R_done True [?e])"
    by (simp add: Run_step_def TryPop_def)
  show ?thesis by (rule exI, rule conjI, rule relay_trans [OF 6 relay_run [OF r4]]) simp
qed

theorem relay_tape_complete_witness:
  "\<exists>S :: (TelemetryEvent ring, InMemoryKdbLogger) EventRelay. er_joining S \<and> er_pc S = R_done \<and> items (er_ring S) = []
     \<and> im_rows (er_logger (Stop_joined S)) = [FormatCsvRow sample_event]"
proof -
  obtain S where S: "relay_reachable TryPush TryPop InMemory_Log
      (EventRelay_new (SpscRing 2 sample_event) InMemory_new) S"
    "er_accepted S = [sample_event]" "er_joining S" "er_pc S = R_done"
    using sample_reach by blast
  from relay_tape_complete [OF S(1)] S(2-4) show ?thesis by (intro exI [of _ S]) (simp add: capacity_ok_def)
qed

end
