(* ===== verification/Relay_Concurrent.thy ===== *)
theory Relay_Concurrent imports Event_Relay begin

text \<open>
  The relay of \<^verbatim>\<open>cpp/external/event_relay.hpp\<close> on the two-thread ring. \<open>Event_Relay\<close> takes a
  call of the ring as one step; here the calls of \<^verbatim>\<open>TryPush\<close> and \<^verbatim>\<open>TryPop\<close> are the steps of
  \<open>ring_step\<close>, one per access to shared memory, so that a push may see a ring fuller, and the
  relay thread a ring emptier, than it is. The load of the stop flag may be stale as well; when it
  reads true, everything the producer published before the flag was set is visible to the thread, and
  after the join everything the thread did is visible to the producer.
  The state, \<^verbatim>\<open>Start\<close> and \<^verbatim>\<open>Stop\<close> are those of \<open>Event_Relay\<close>, over a ring in
  mid-call.
\<close>

section \<open>Steps\<close>

type_synonym 'l fine_relay = "(TelemetryEvent conc, 'l) EventRelay"

text \<open>Where \<^verbatim>\<open>Run\<close> is inside one of its two loops over \<^verbatim>\<open>TryPop\<close>, and where it goes when the
  call hands out an event or comes back empty.\<close>

fun polling :: "run_pc \<Rightarrow> bool" where
  "polling (R_drain g) = True"
| "polling R_final = True"
| "polling _ = False"

fun pc_got :: "run_pc \<Rightarrow> run_pc" where
  "pc_got (R_drain g) = R_drain True"
| "pc_got pc = pc"

fun pc_empty :: "run_pc \<Rightarrow> run_pc" where
  "pc_empty (R_drain g) = R_check g"
| "pc_empty R_final = R_done"
| "pc_empty pc = pc"

text \<open>The relay thread after its step of \<^verbatim>\<open>TryPop\<close> has left the ring as \<open>R\<close>: a call that ends with
  an event logs it, one that ends without leaves the loop.\<close>

definition after_pop :: "(TelemetryEvent \<Rightarrow> 'l \<Rightarrow> 'l) \<Rightarrow> TelemetryEvent conc \<Rightarrow> 'l fine_relay \<Rightarrow> 'l fine_relay" where
  "after_pop log R S =
     (case (cr_cons (er_ring S), cr_cons R) of
        (CCopied r e, CIdle) \<Rightarrow> (handle_event log e R S)\<lparr>er_pc := pc_got (er_pc S)\<rparr>
      | (CGotW r w, CIdle) \<Rightarrow> S\<lparr>er_ring := R, er_pc := pc_empty (er_pc S)\<rparr>
      | _ \<Rightarrow> S\<lparr>er_ring := R\<rparr>)"

text \<open>The producer after its step of \<^verbatim>\<open>TryPush\<close>; the events of finished calls are recorded.\<close>

definition after_push :: "TelemetryEvent conc \<Rightarrow> 'l fine_relay \<Rightarrow> 'l fine_relay" where
  "after_push R S = S\<lparr>er_ring := R, er_accepted := pushed R,
     er_produced := er_produced S @
       (case (cr_prod (er_ring S), cr_prod R) of
          (PGotR e w r, PIdle) \<Rightarrow> [e]
        | (PWrote e w, PIdle) \<Rightarrow> [e]
        | _ \<Rightarrow> [])\<rparr>"

inductive fine_step :: "(TelemetryEvent \<Rightarrow> 'l \<Rightarrow> 'l) \<Rightarrow> 'l fine_relay \<Rightarrow> 'l fine_relay \<Rightarrow> bool" for log where
  fine_pop: "polling (er_pc S) \<Longrightarrow> ring_step (er_ring S) R \<Longrightarrow> cr_prod R = cr_prod (er_ring S) \<Longrightarrow>
    fine_step log S (after_pop log R S)"
| fine_stop_seen: "er_pc S = R_check g \<Longrightarrow> er_stop_requested S \<Longrightarrow>
    fine_step log S (S\<lparr>er_pc := R_final,
      er_ring := (er_ring S)\<lparr>cv := length (pushed (er_ring S))\<rparr>\<rparr>)"
| fine_stop_unseen: "er_pc S = R_check g \<Longrightarrow> fine_step log S (S\<lparr>er_pc := R_drain False\<rparr>)"
| fine_push: "\<not> er_joining S \<Longrightarrow> ring_step (er_ring S) R \<Longrightarrow> cr_cons R = cr_cons (er_ring S) \<Longrightarrow>
    fine_step log S (after_push R S)"
| fine_start: "\<not> er_joining S \<Longrightarrow> fine_step log S (Start S)"
| fine_stop: "\<not> er_joining S \<Longrightarrow> cr_prod (er_ring S) = PIdle \<Longrightarrow> fine_step log S (Stop_request S)"
| fine_join: "er_joining S \<Longrightarrow> er_pc S = R_done \<Longrightarrow>
    fine_step log S (Stop_joined (S\<lparr>er_ring := (er_ring S)\<lparr>pv := length (popped (er_ring S))\<rparr>\<rparr>))"

inductive fine_reachable :: "(TelemetryEvent \<Rightarrow> 'l \<Rightarrow> 'l) \<Rightarrow> 'l fine_relay \<Rightarrow> 'l fine_relay \<Rightarrow> bool" for log S0 where
  fine_refl: "fine_reachable log S0 S0"
| fine_trans: "fine_reachable log S0 S \<Longrightarrow> fine_step log S S' \<Longrightarrow> fine_reachable log S0 S'"

text \<open>The steps between \<^verbatim>\<open>Start\<close> and \<^verbatim>\<open>Stop\<close>: nobody waits in a join.\<close>

definition working :: "(TelemetryEvent \<Rightarrow> 'l \<Rightarrow> 'l) \<Rightarrow> 'l fine_relay \<Rightarrow> 'l fine_relay \<Rightarrow> bool" where
  "working log S S' \<longleftrightarrow> fine_step log S S' \<and> \<not> er_joining S'"

lemma working_reachable: "rtranclp (working log) S T \<Longrightarrow> fine_reachable log S0 S \<Longrightarrow> fine_reachable log S0 T"
  by (induction rule: rtranclp_induct) (auto simp: working_def intro: fine_trans)

text \<open>The steps while the caller of \<^verbatim>\<open>Stop\<close> waits in the join.\<close>

definition stopping :: "(TelemetryEvent \<Rightarrow> 'l \<Rightarrow> 'l) \<Rightarrow> 'l fine_relay \<Rightarrow> 'l fine_relay \<Rightarrow> bool" where
  "stopping log S S' \<longleftrightarrow> fine_step log S S' \<and> er_joining S \<and> er_joining S'"

lemma stopping_reachable: "rtranclp (stopping log) S T \<Longrightarrow> fine_reachable log S0 S \<Longrightarrow> fine_reachable log S0 T"
  by (induction rule: rtranclp_induct) (auto simp: stopping_def intro: fine_trans)

inductive_cases fine_stepE: "fine_step log S S'"

text \<open>The steps of the ring, told apart by the thread that makes them.\<close>

lemma consumer_step_cases:
  assumes "ring_step R R'" "cr_prod R' = cr_prod R"
  obtains
    (load_r) "cr_cons R = CIdle" "R' = R\<lparr>cr_cons := CGotR (rg_read_idx (cr_ring R))\<rparr>"
  | (load_w) r n where "cr_cons R = CGotR r" "cv R \<le> n" "n \<le> length (pushed R)"
      "R' = R\<lparr>cr_cons := CGotW r (of_nat n), cv := n\<rparr>"
  | (empty) r where "cr_cons R = CGotW r r" "R' = R\<lparr>cr_cons := CIdle\<rparr>"
  | (copy) r w v where "cr_cons R = CGotW r w" "r \<noteq> w" "R' = R\<lparr>cr_cons := CCopied r v\<rparr>"
  | (release) r v where "cr_cons R = CCopied r v"
      "R' = R\<lparr>cr_cons := CIdle, cr_ring := (cr_ring R)\<lparr>rg_read_idx := r + 1\<rparr>, popped := popped R @ [v]\<rparr>"
  using assms by (cases rule: ring_step.cases) (auto simp: that)

lemma producer_step_cases:
  assumes "ring_step R R'" "cr_cons R' = cr_cons R"
  obtains
    (load_w) v where "cr_prod R = PIdle" "R' = R\<lparr>cr_prod := PGotW v (rg_write_idx (cr_ring R))\<rparr>"
  | (load_r) v w n where "cr_prod R = PGotW v w" "pv R \<le> n" "n \<le> length (popped R)"
      "R' = R\<lparr>cr_prod := PGotR v w (of_nat n), pv := n\<rparr>"
  | (drop) v w r where "cr_prod R = PGotR v w r" "w - r \<ge> rg_capacity (cr_ring R)"
      "R' = R\<lparr>cr_prod := PIdle, cr_ring := (cr_ring R)\<lparr>rg_dropped := rg_dropped (cr_ring R) + 1\<rparr>\<rparr>"
  | (store) v w r st where "cr_prod R = PGotR v w r"
      "R' = R\<lparr>cr_prod := PWrote v w, cr_ring := (cr_ring R)\<lparr>rg_storage := st\<rparr>\<rparr>"
  | (publish) v w where "cr_prod R = PWrote v w"
      "R' = R\<lparr>cr_prod := PIdle, cr_ring := (cr_ring R)\<lparr>rg_write_idx := w + 1\<rparr>, pushed := pushed R @ [v]\<rparr>"
  using assms by (cases rule: ring_step.cases) (auto simp: that)

section \<open>The invariant\<close>

text \<open>The tape is what the consumer has popped; once the flag has been seen, the consumer's view of the
  ring is complete.\<close>

definition settled :: "'l fine_relay \<Rightarrow> bool" where
  "settled S \<longleftrightarrow> (er_pc S = R_none \<longleftrightarrow> \<not> er_running S) \<and> (er_stop_requested S \<and> er_running S \<longleftrightarrow> er_joining S)
     \<and> (\<not> polling (er_pc S) \<longrightarrow> cr_cons (er_ring S) = CIdle) \<and> (er_joining S \<longrightarrow> cr_prod (er_ring S) = PIdle)
     \<and> (er_pc S = R_final \<or> er_pc S = R_done \<longrightarrow> er_joining S \<and> cv (er_ring S) = length (pushed (er_ring S)))
     \<and> (er_pc S = R_done \<longrightarrow> popped (er_ring S) = pushed (er_ring S))"

definition counted :: "'l fine_relay \<Rightarrow> bool" where
  "counted S \<longleftrightarrow> er_accepted S = pushed (er_ring S) \<and> subseq (er_accepted S) (er_produced S)
     \<and> rg_dropped (cr_ring (er_ring S)) + of_nat (length (er_accepted S)) = of_nat (length (er_produced S))
     \<and> er_processed S = of_nat (length (popped (er_ring S)))"

lemma subseq_snoc: "subseq xs ys \<Longrightarrow> subseq xs (ys @ [y])"
  using list_emb_append_mono [of "(=)" xs ys "[]" "[y]"] by simp

lemma after_push_counted:
  assumes "counted S" "ring_step (er_ring S) R" "cr_cons R = cr_cons (er_ring S)"
  shows "counted (after_push R S)"
  using assms(2,3) by (cases rule: producer_step_cases)
    (use assms(1) in \<open>auto simp: counted_def after_push_def subseq_snoc add.commute add.left_commute\<close>)

lemma after_push_settled:
  assumes "settled S" "\<not> er_joining S" "ring_step (er_ring S) R" "cr_cons R = cr_cons (er_ring S)"
  shows "settled (after_push R S)"
  using assms by (auto simp: settled_def after_push_def)

lemma after_pop_counted:
  assumes "counted S" "ring_step (er_ring S) R" "cr_prod R = cr_prod (er_ring S)"
  shows "counted (after_pop log R S)"
  using assms(2,3) by (cases rule: consumer_step_cases)
    (use assms(1) in \<open>auto simp: counted_def after_pop_def handle_event_def\<close>)

text \<open>An empty answer after the flag was seen means that the ring is empty.\<close>

lemma empty_view:
  assumes "conc_inv k R" "cr_cons R = CGotW r r" "cv R = length (pushed R)"
  shows "popped R = pushed R"
proof -
  note I = conc_invD [OF assms(1)]
  have k: "k < 64" using I(1) by (simp add: ring_shape_def)
  have "(of_nat (length (popped R)) :: u64) = of_nat (cv R)"
    using I(11) assms(2) by (auto simp: cons_inv_def)
  then have "length (popped R) = cv R" using index_eq [of "length (popped R)" "cv R" k] I(4-7) k by auto
  with assms(3) I(8) show ?thesis by simp
qed

lemma after_pop_settled:
  assumes "settled S" "conc_inv k (er_ring S)" "polling (er_pc S)"
    "ring_step (er_ring S) R" "cr_prod R = cr_prod (er_ring S)"
  shows "settled (after_pop log R S)"
  using assms(4,5)
proof (cases rule: consumer_step_cases)
  case (empty r)
  then show ?thesis using assms(1,3) empty_view [OF assms(2) empty(1)]
    by (cases "er_pc S") (auto simp: settled_def after_pop_def)
qed (use assms(1,3) in \<open>cases "er_pc S"; auto simp: settled_def after_pop_def handle_event_def\<close>)+

text \<open>How far the relay thread is from its return, counted in its own steps: four for every event in the
  ring, the rest of the call it is in, and the passes still before it.\<close>

definition in_ring :: "'e conc \<Rightarrow> nat" where
  "in_ring R = length (pushed R) - length (popped R)"

definition call_left :: "'e consumer \<Rightarrow> nat" where
  "call_left c = (if c = CIdle then 4 else pop_left c)"

definition stop_left :: "'l fine_relay \<Rightarrow> nat" where
  "stop_left S = (case er_pc S of
       R_drain g \<Rightarrow> 4 * in_ring (er_ring S) + call_left (cr_cons (er_ring S)) + 5
     | R_check g \<Rightarrow> 4 * in_ring (er_ring S) + 5
     | R_final \<Rightarrow> 4 * in_ring (er_ring S) + call_left (cr_cons (er_ring S))
     | _ \<Rightarrow> 0)"

lemma call_left_simps [simp]:
  "call_left CIdle = 4" "call_left (CGotR r) = 3" "call_left (CGotW r w) = 2" "call_left (CCopied r v) = 1"
  by (simp_all add: call_left_def)

lemmas pop_left_defs = after_pop_def handle_event_def stop_left_def in_ring_def

lemma after_pop_left:
  assumes "polling (er_pc S)" "ring_step (er_ring S) R" "cr_prod R = cr_prod (er_ring S)"
    "conc_inv k (er_ring S)"
  shows "stop_left (after_pop log R S) < stop_left S"
  using assms(2,3)
proof (cases rule: consumer_step_cases)
  case (release r v)
  have "length (popped (er_ring S)) < length (pushed (er_ring S))"
    using conc_invD(6,11) [OF assms(4)] release(1) by (auto simp: cons_inv_def)
  with release assms(1) show ?thesis by (cases "er_pc S") (simp_all add: pop_left_defs)
next
  case load_r
  with assms(1) show ?thesis by (cases "er_pc S") (simp_all add: pop_left_defs)
next
  case (load_w r n)
  with assms(1) show ?thesis by (cases "er_pc S") (simp_all add: pop_left_defs)
next
  case (empty r)
  with assms(1) show ?thesis by (cases "er_pc S") (simp_all add: pop_left_defs)
next
  case (copy r w v)
  with assms(1) show ?thesis by (cases "er_pc S") (simp_all add: pop_left_defs)
qed

text \<open>The logger has been handed what the thread has popped.\<close>

definition fine_inv :: "nat \<Rightarrow> (TelemetryEvent \<Rightarrow> 'l \<Rightarrow> 'l) \<Rightarrow> 'l \<Rightarrow> 'l fine_relay \<Rightarrow> bool" where
  "fine_inv k log l S \<longleftrightarrow> conc_inv k (er_ring S) \<and> er_logger S = fold log (popped (er_ring S)) l
     \<and> counted S \<and> settled S"

lemma after_pop_logged:
  assumes "er_logger S = fold log (popped (er_ring S)) l"
    "ring_step (er_ring S) R" "cr_prod R = cr_prod (er_ring S)"
  shows "er_logger (after_pop log R S) = fold log (popped R) l" "er_ring (after_pop log R S) = R"
  using assms(2,3) by (cases rule: consumer_step_cases;
    use assms(1) in \<open>simp add: after_pop_def handle_event_def\<close>)+

lemma fine_inv_step: "fine_step log S S' \<Longrightarrow> fine_inv k log l S \<Longrightarrow> fine_inv k log l S'"
proof (induction rule: fine_step.induct)
  case (fine_pop S R)
  then show ?case
    using after_pop_logged [of S log l R] after_pop_counted [of S R log] after_pop_settled [of S k R log]
      conc_inv_step [of "er_ring S" R k] by (simp add: fine_inv_def)
next
  case (fine_stop_seen S g)
  then have "conc_inv k ((er_ring S)\<lparr>cv := length (pushed (er_ring S))\<rparr>)"
    by (auto simp: fine_inv_def settled_def conc_inv_def prod_inv_def cons_inv_def)
  with fine_stop_seen show ?case by (auto simp: fine_inv_def settled_def counted_def)
next
  case (fine_push S R)
  then have "popped R = popped (er_ring S)" using producer_step_cases by fastforce
  with fine_push show ?case
    using after_push_counted [of S R] after_push_settled [of S R] conc_inv_step [of "er_ring S" R k]
    by (simp add: fine_inv_def) (simp add: after_push_def)
next
  case (fine_join S)
  then have "conc_inv k ((er_ring S)\<lparr>pv := length (popped (er_ring S))\<rparr>)"
    by (auto simp: fine_inv_def settled_def conc_inv_def prod_inv_def cons_inv_def)
  with fine_join show ?case by (auto simp: fine_inv_def settled_def counted_def Stop_joined_def)
qed (auto simp: fine_inv_def settled_def counted_def Start_def Stop_request_def)

lemma fine_reachable_inv:
  assumes "fine_reachable log (EventRelay_new (conc_init (2 ^ k) z) l) S" "k < 64"
  shows "fine_inv k log l S"
  using assms(1)
proof (induction rule: fine_reachable.induct)
  case fine_refl
  have "conc_inv k (conc_init (2 ^ k) z)" by (rule reachable_conc_inv [OF conc_start assms(2)])
  then show ?case
    by (simp add: fine_inv_def counted_def settled_def EventRelay_new_def conc_init_def SpscRing_def)
next
  case (fine_trans S S')
  show ?case by (rule fine_inv_step [OF fine_trans(2,3)])
qed

section \<open>Progress\<close>

text \<open>While \<^verbatim>\<open>Stop\<close> waits, only the relay thread moves: it can, and every step but a stale
  read of the flag brings it nearer to its return.\<close>

lemma joining_progress:
  assumes inv: "fine_inv k log l S" and j: "er_joining S"
  shows "er_pc S = R_done \<or> (\<exists>S'. fine_step log S S' \<and> stop_left S' < stop_left S)"
proof (cases "er_pc S")
  case R_none
  then show ?thesis using inv j by (auto simp: fine_inv_def settled_def)
next
  case (R_check g)
  with inv j have "er_stop_requested S" "cr_cons (er_ring S) = CIdle" by (auto simp: fine_inv_def settled_def)
  with R_check show ?thesis using fine_stop_seen [OF R_check, of log]
    by (intro disjI2 exI conjI) (auto simp: stop_left_def in_ring_def)
next
  case (R_drain g)
  then have p: "polling (er_pc S)" by simp
  have "conc_inv k (er_ring S)" using inv by (simp add: fine_inv_def)
  from consumer_moves [OF this] obtain R where R: "ring_step (er_ring S) R" "cr_prod R = cr_prod (er_ring S)" by blast
  from fine_pop [OF p R] after_pop_left [OF p R] inv show ?thesis by (auto simp: fine_inv_def)
next
  case R_final
  then have p: "polling (er_pc S)" by simp
  have "conc_inv k (er_ring S)" using inv by (simp add: fine_inv_def)
  from consumer_moves [OF this] obtain R where R: "ring_step (er_ring S) R" "cr_prod R = cr_prod (er_ring S)" by blast
  from fine_pop [OF p R] after_pop_left [OF p R] inv show ?thesis by (auto simp: fine_inv_def)
qed simp

lemma joining_step:
  assumes inv: "fine_inv k log l S" and j: "er_joining S" and st: "fine_step log S S'"
  shows "stop_left S' < stop_left S \<or> (\<exists>g. er_pc S = R_check g \<and> S' = S\<lparr>er_pc := R_drain False\<rparr>)
    \<or> er_pc S = R_done \<and> \<not> er_joining S'"
  using st
proof (cases rule: fine_step.cases)
  case (fine_pop R)
  then show ?thesis using inv after_pop_left [OF fine_pop(2-4)] by (auto simp: fine_inv_def)
next
  case (fine_stop_seen g)
  then show ?thesis using inv by (auto simp: fine_inv_def settled_def stop_left_def in_ring_def)
qed (use j in \<open>auto simp: Stop_joined_def\<close>)

text \<open>So the thread can always be run to its return.\<close>

lemma joining_keeps:
  assumes "fine_inv k log l S" "er_joining S" "fine_step log S S'" "stop_left S' < stop_left S"
  shows "er_joining S' \<and> er_accepted S' = er_accepted S"
  using assms(3) by (cases rule: fine_step.cases)
    (use assms(2,4) in \<open>auto simp: after_pop_def handle_event_def stop_left_def split: consumer.splits\<close>)

lemma reaches_done:
  assumes "fine_inv k log l S" "er_joining S"
  shows "\<exists>S'. rtranclp (stopping log) S S' \<and> er_joining S' \<and> er_pc S' = R_done \<and> er_accepted S' = er_accepted S"
  using assms
proof (induction "stop_left S" arbitrary: S rule: less_induct)
  case less
  from joining_progress [OF less(2,3)] show ?case
  proof
    assume "er_pc S = R_done"
    with less(3) show ?case by blast
  next
    assume "\<exists>S'. fine_step log S S' \<and> stop_left S' < stop_left S"
    then obtain T where T: "fine_step log S T" "stop_left T < stop_left S" by blast
    note K = joining_keeps [OF less(2,3) T]
    with less(3) T(1) have "stopping log S T" by (simp add: stopping_def)
    with less(1) [OF T(2) fine_inv_step [OF T(1) less(2)]] K show ?case
      by (auto intro: converse_rtranclp_into_rtranclp)
  qed
qed

section \<open>Correctness\<close>

lemma in_ring_capacity: "conc_inv k R \<Longrightarrow> in_ring R \<le> 2 ^ k"
  using conc_invD(4,7) [of k R] by (simp add: in_ring_def)

lemma reachable_fine_inv:
  assumes "fine_reachable log (EventRelay_new (conc_init C z) l) S" "capacity_ok C"
  obtains k where "C = 2 ^ k" "k < 64" "fine_inv k log l S"
proof -
  obtain k where k: "C = 2 ^ k" "k < 64" using assms(2) by (rule capacity_ok_power)
  from fine_reachable_inv [OF assms(1) [unfolded k(1)] k(2)] k that show ?thesis by blast
qed

text \<open>C19: the tape is complete also at the grain of the memory accesses, whatever the logger. Whatever
  way the single loads and stores of a producer inside \<^verbatim>\<open>TryPush\<close>, of the relay thread inside
  \<^verbatim>\<open>TryPop\<close> and of the callers of \<^verbatim>\<open>Start\<close> and \<^verbatim>\<open>Stop\<close> interleave, and however stale
  the loads of the indices and of the stop flag are: the logger has been handed what the thread has
  popped, in order, which is an initial part of what the ring accepted; accepted and dropped events
  add up to the calls made; and when \<^verbatim>\<open>Stop\<close> returns from its join, the logger has been handed
  every accepted event, in order and once, and \<^verbatim>\<open>processed()\<close> is their number. It holds for every
  capacity the static assertions admit.\<close>

theorem relay_concurrent_tape_complete:
  assumes "fine_reachable log (EventRelay_new (conc_init C z) l) S" "capacity_ok C"
  shows "er_logger S = fold log (popped (er_ring S)) l
    \<and> prefix (popped (er_ring S)) (er_accepted S) \<and> subseq (er_accepted S) (er_produced S)
    \<and> rg_dropped (cr_ring (er_ring S)) + of_nat (length (er_accepted S)) = of_nat (length (er_produced S))
    \<and> (er_joining S \<and> er_pc S = R_done \<longrightarrow>
         er_logger (Stop_joined S) = fold log (er_accepted S) l
         \<and> er_processed (Stop_joined S) = of_nat (length (er_accepted S)))"
proof -
  obtain k where I: "fine_inv k log l S" using assms by (rule reachable_fine_inv)
  note F = I [unfolded fine_inv_def counted_def settled_def]
  then have "popped (er_ring S) = take (length (popped (er_ring S))) (er_accepted S)"
    using conc_invD(8) by auto
  then have "prefix (popped (er_ring S)) (er_accepted S)" by (metis take_is_prefix)
  with F show ?thesis by (auto simp: Stop_joined_def)
qed

text \<open>C20: \<^verbatim>\<open>Stop\<close> returns. In every reachable state in which a caller of \<^verbatim>\<open>Stop\<close> waits, the thread
  has returned or can make a step that brings it nearer to its return; every step that is then
  possible brings it nearer, but for a stale read of the stop flag and, at the end, the join itself;
  and the thread is never more than four steps per slot of the ring and nine more away. So \<^verbatim>\<open>Stop\<close>
  cannot deadlock or spin, once the store to the flag becomes visible.\<close>

theorem relay_concurrent_stop_returns:
  assumes "fine_reachable log (EventRelay_new (conc_init C z) l) S" "capacity_ok C" and "er_joining S"
  shows "(er_pc S = R_done \<or> (\<exists>S'. fine_step log S S' \<and> stop_left S' < stop_left S))
    \<and> (\<forall>S'. fine_step log S S' \<longrightarrow> stop_left S' < stop_left S
         \<or> (\<exists>g. er_pc S = R_check g \<and> S' = S\<lparr>er_pc := R_drain False\<rparr>)
         \<or> er_pc S = R_done \<and> \<not> er_joining S')
    \<and> stop_left S \<le> 4 * unat C + 9"
proof -
  obtain k where k: "C = 2 ^ k" "k < 64" and I: "fine_inv k log l S"
    using assms(1,2) by (rule reachable_fine_inv)
  have "in_ring (er_ring S) \<le> unat C"
    using in_ring_capacity [of k "er_ring S"] I unat_two_power [OF k(2)] k(1) by (simp add: fine_inv_def)
  moreover have "call_left c \<le> 4" for c :: "TelemetryEvent consumer" by (cases c) simp_all
  from this [of "cr_cons (er_ring S)"] have "stop_left S \<le> 4 * in_ring (er_ring S) + 9"
    by (simp add: stop_left_def split: run_pc.split)
  ultimately have "stop_left S \<le> 4 * unat C + 9" by linarith
  with joining_progress [OF I assms(3)] joining_step [OF I assms(3)] show ?thesis by blast
qed

text \<open>A run for the witnesses: one event is pushed, then \<^verbatim>\<open>Stop\<close> is called.\<close>

abbreviation fine_start :: "(TelemetryEvent conc, InMemoryKdbLogger) EventRelay" where
  "fine_start \<equiv> EventRelay_new (conc_init 2 sample_event) InMemory_new"

lemma sample_pushed:
  "\<exists>S. rtranclp (working InMemory_Log) (Start fine_start) S \<and> \<not> er_joining S \<and> er_running S
     \<and> er_pc S = R_drain False \<and> cr_prod (er_ring S) = PIdle
     \<and> er_accepted S = [sample_event] \<and> er_produced S = [sample_event]"
proof -
  let ?e = sample_event
  let ?c = "\<lambda>w p m. \<lparr>cr_ring = \<lparr>rg_capacity = 2, rg_write_idx = w, rg_read_idx = 0, rg_dropped = 0,
    rg_storage = [?e, ?e]\<rparr>, cr_prod = p, cr_cons = CIdle, pv = 0, cv = 0, pushed = m, popped = []\<rparr>"
  let ?S = "\<lambda>R m. \<lparr>er_ring = R, er_logger = InMemory_new, er_running = True, er_stop_requested = False,
    er_processed = 0, er_pc = R_drain False, er_joining = False, er_produced = m, er_accepted = m\<rparr>"
  let ?R = "rtranclp (working InMemory_Log) (Start fine_start)"
  have two: "replicate 2 x = [x, x]" for x :: TelemetryEvent by (simp add: numeral_2_eq_2)
  have step: "?R (after_push R S)" if "?R S" "\<not> er_joining S" "ring_step (er_ring S) R" "cr_cons R = cr_cons (er_ring S)" for R S
    using rtranclp.rtrancl_into_rtrancl [OF that(1), of "after_push R S"] fine_push [OF that(2-4), of InMemory_Log] that(2)
    by (simp add: working_def) (simp add: after_push_def)
  have 1: "?R (?S (?c 0 PIdle []) [])"
    using rtranclp.rtrancl_refl [of "working InMemory_Log" "Start fine_start"] two
    by (simp add: Start_def EventRelay_new_def conc_init_def SpscRing_def)
  have 2: "?R (?S (?c 0 (PGotW ?e 0) []) [])"
    using step [OF 1 _ p_load_w [of _ ?e]] by (simp add: after_push_def)
  have 3: "?R (?S (?c 0 (PGotR ?e 0 0) []) [])"
    using step [OF 2 _ p_load_r [of _ ?e 0 0]] by (simp add: after_push_def)
  have 4: "?R (?S (?c 0 (PWrote ?e 0) []) [])"
    using step [OF 3 _ p_store [of _ ?e 0 0 "[?e, ?e]"]] by (simp add: after_push_def kMask_def)
  have 5: "?R (?S (?c 1 PIdle [?e]) [?e])"
    using step [OF 4 _ p_publish [of _ ?e 0]] by (simp add: after_push_def)
  show ?thesis by (rule exI, rule conjI, rule 5) simp
qed

lemma sample_stop_called:
  "\<exists>S. fine_reachable InMemory_Log fine_start S \<and> er_joining S \<and> er_pc S = R_drain False
     \<and> er_accepted S = [sample_event]"
proof -
  obtain S where S: "rtranclp (working InMemory_Log) (Start fine_start) S" "\<not> er_joining S" "er_running S"
    "er_pc S = R_drain False" "cr_prod (er_ring S) = PIdle" "er_accepted S = [sample_event]"
    using sample_pushed by blast
  have "fine_reachable InMemory_Log fine_start (Start fine_start)"
    by (rule fine_trans [OF fine_refl fine_step.fine_start]) (simp add: EventRelay_new_def)
  from fine_trans [OF working_reachable [OF S(1) this] fine_stop [OF S(2,5)]] S show ?thesis
    by (intro exI [of _ "Stop_request S"]) (simp add: Stop_request_def)
qed

lemma sample_stop_done:
  "\<exists>S. fine_reachable InMemory_Log fine_start S \<and> er_joining S \<and> er_pc S = R_done \<and> er_accepted S = [sample_event]"
proof -
  obtain S where S: "fine_reachable InMemory_Log fine_start S" "er_joining S" "er_accepted S = [sample_event]"
    using sample_stop_called by blast
  obtain k where "fine_inv k InMemory_Log InMemory_new S"
    using S(1) by (rule reachable_fine_inv) (simp add: capacity_ok_def)
  from reaches_done [OF this S(2)] S(3) stopping_reachable [OF _ S(1)] show ?thesis by auto
qed

theorem relay_concurrent_tape_complete_witness:
  "\<exists>S. fine_reachable InMemory_Log fine_start S \<and> er_joining S \<and> er_pc S = R_done
     \<and> im_rows (er_logger (Stop_joined S)) = [FormatCsvRow sample_event] \<and> er_processed (Stop_joined S) = 1"
proof -
  obtain S where S: "fine_reachable InMemory_Log fine_start S" "er_joining S" "er_pc S = R_done"
    "er_accepted S = [sample_event]"
    using sample_stop_done by blast
  from relay_concurrent_tape_complete [OF S(1)] S show ?thesis
    by (intro exI [of _ S]) (simp add: capacity_ok_def InMemory_Log_def InMemory_new_def)
qed

theorem relay_concurrent_stop_returns_witness:
  "\<exists>S. fine_reachable InMemory_Log fine_start S \<and> er_joining S \<and> er_pc S = R_drain False
     \<and> (\<exists>S'. fine_step InMemory_Log S S' \<and> stop_left S' < stop_left S) \<and> stop_left S \<le> 17"
proof -
  obtain S where S: "fine_reachable InMemory_Log fine_start S" "er_joining S" "er_pc S = R_drain False"
    using sample_stop_called by blast
  from relay_concurrent_stop_returns [OF S(1) _ S(2)] S show ?thesis
    by (intro exI [of _ S]) (auto simp: capacity_ok_def)
qed

end
