(* ===== verification/Relay_Refinement.thy ===== *)
theory Relay_Refinement imports Relay_Concurrent begin

text \<open>
  The relay at the grain of the memory accesses (\<open>Relay_Concurrent\<close>) refines the relay at the grain
  of the ring's calls (\<open>Event_Relay\<close>), so that what is proved of the latter, the whole programs
  included, holds of the former. A run of the calls explains a run of the accesses when it has made
  the same calls with the same answers and has popped no more than the producer has seen popped: a
  push that found a full ring because its load was stale is then a push on a full ring. The thread of
  the calls catches up when the producer looks and when \<^verbatim>\<open>Stop\<close> joins.
\<close>

section \<open>The relation\<close>

definition same_calls :: "('p, 'l) EventRelay \<Rightarrow> ('q, 'l) EventRelay \<Rightarrow> bool" where
  "same_calls S T \<longleftrightarrow> er_produced T = er_produced S \<and> er_accepted T = er_accepted S \<and> er_running T = er_running S
     \<and> er_stop_requested T = er_stop_requested S \<and> er_joining T = er_joining S"

text \<open>A run of whole calls that has popped \<open>n\<close> of the accepted events.\<close>

definition popped_to :: "nat \<Rightarrow> nat \<Rightarrow> (TelemetryEvent \<Rightarrow> 'l \<Rightarrow> 'l) \<Rightarrow> 'l \<Rightarrow> (TelemetryEvent ring, 'l) EventRelay \<Rightarrow> bool" where
  "popped_to k n log l T \<longleftrightarrow> ring_inv (er_ring T) \<and> ring_cap (er_ring T) = 2 ^ k \<and> n \<le> length (er_accepted T)
     \<and> items (er_ring T) = drop n (er_accepted T) \<and> er_logger T = fold log (take n (er_accepted T)) l
     \<and> er_processed T = of_nat n"

definition waits :: "(TelemetryEvent ring, 'l) EventRelay \<Rightarrow> bool" where
  "waits T \<longleftrightarrow> (if er_running T then \<exists>g. er_pc T = R_drain g else er_pc T = R_none)"

definition explains :: "nat \<Rightarrow> (TelemetryEvent \<Rightarrow> 'l \<Rightarrow> 'l) \<Rightarrow> 'l \<Rightarrow> 'l fine_relay
    \<Rightarrow> (TelemetryEvent ring, 'l) EventRelay \<Rightarrow> bool" where
  "explains k log l S T \<longleftrightarrow> same_calls S T \<and> waits T
     \<and> dropped_messages (er_ring T) = rg_dropped (cr_ring (er_ring S))
     \<and> (\<exists>n \<le> pv (er_ring S). popped_to k n log l T \<and> (er_running T \<or> n = length (popped (er_ring S))))"

lemma same_calls_trans: "same_calls S T \<Longrightarrow> same_calls T U \<Longrightarrow> same_calls S U"
  by (simp add: same_calls_def)

lemma same_calls_subseq:
  "fine_inv k log l S \<Longrightarrow> same_calls S T \<Longrightarrow> subseq (er_accepted T) (er_produced T)"
  unfolding fine_inv_def counted_def same_calls_def by metis

section \<open>Catching up\<close>

abbreviation call_reachable :: "u64 \<Rightarrow> TelemetryEvent \<Rightarrow> (TelemetryEvent \<Rightarrow> 'l \<Rightarrow> 'l) \<Rightarrow> 'l
    \<Rightarrow> (TelemetryEvent ring, 'l) EventRelay \<Rightarrow> bool" where
  "call_reachable C z log l \<equiv> relay_reachable TryPush TryPop log (EventRelay_new (SpscRing C z) l)"

lemma pop_one:
  assumes "popped_to k n log l T" "n < length (er_accepted T)" "er_pc T = R_drain g \<or> er_pc T = R_final"
  shows "\<exists>T'. Run_step TryPop log T = Some T' \<and> popped_to k (Suc n) log l T' \<and> same_calls T T'
    \<and> dropped_messages (er_ring T') = dropped_messages (er_ring T)
    \<and> (if er_pc T = R_final then er_pc T' = R_final else er_pc T' = R_drain True)"
proof -
  let ?e = "er_accepted T ! n"
  have "items (er_ring T) = ?e # drop (Suc n) (er_accepted T)"
    using assms(1,2) by (simp add: popped_to_def Cons_nth_drop_Suc)
  then obtain q where q: "TryPop (er_ring T) = Some (Some ?e, q)" "ring_inv q"
    "items q = drop (Suc n) (er_accepted T)" "ring_cap q = ring_cap (er_ring T)"
    "dropped_messages q = dropped_messages (er_ring T)"
    using rq.pop_first [of "er_ring T"] assms(1) by (auto simp: popped_to_def)
  then show ?thesis using assms
    by (auto simp: Run_step_def handle_event_def popped_to_def same_calls_def take_Suc_conv_app_nth)
qed

text \<open>
  What the run of the calls may be: any set of states closed under the steps it makes to keep up, a
  step of its thread after the first push and a push.
\<close>

locale call_pops =
  fixes log :: "TelemetryEvent \<Rightarrow> 'l \<Rightarrow> 'l"
    and reach :: "(TelemetryEvent ring, 'l) EventRelay \<Rightarrow> bool"
  assumes pops: "reach T \<Longrightarrow> er_produced T \<noteq> [] \<Longrightarrow> Run_step TryPop log T = Some T' \<Longrightarrow> reach T'"
begin

lemma pop_until:
  assumes "popped_to k n log l T" "n \<le> m" "m \<le> length (er_accepted T)" "er_pc T = R_drain g"
    "subseq (er_accepted T) (er_produced T)" "reach T"
  shows "\<exists>T' g'. reach T' \<and> popped_to k m log l T' \<and> same_calls T T' \<and> er_pc T' = R_drain g'
    \<and> dropped_messages (er_ring T') = dropped_messages (er_ring T)"
  using assms
proof (induction "m - n" arbitrary: n T g)
  case 0
  then show ?case by (auto simp: same_calls_def)
next
  case (Suc d)
  then have n: "n < length (er_accepted T)" by simp
  then have ne: "er_produced T \<noteq> []" using list_emb_length [OF Suc.prems(5)] by auto
  from pop_one [OF Suc.prems(1) n] Suc.prems(4) obtain T1 where T1: "Run_step TryPop log T = Some T1"
    "popped_to k (Suc n) log l T1" "same_calls T T1" "er_pc T1 = R_drain True"
    "dropped_messages (er_ring T1) = dropped_messages (er_ring T)" by auto
  have "d = m - Suc n" "Suc n \<le> m" "m \<le> length (er_accepted T1)" "subseq (er_accepted T1) (er_produced T1)"
    using Suc.hyps(2) Suc.prems(3,5) T1(3) by (simp_all add: same_calls_def)
  from Suc.hyps(1) [OF this(1) T1(2) this(2,3) T1(4) this(4) pops [OF Suc.prems(6) ne T1(1)]]
  show ?case using same_calls_trans [OF T1(3)] T1(5) by auto
qed

end

locale call_runs = call_pops log reach for log :: "TelemetryEvent \<Rightarrow> 'l \<Rightarrow> 'l" and reach +
  assumes pushes: "reach T \<Longrightarrow> \<not> er_joining T \<Longrightarrow> Produce TryPush e T = Some T' \<Longrightarrow> reach T'"

interpretation calls: call_runs log "call_reachable C z log l"
  by unfold_locales (auto intro: relay_trans relay_run relay_push)

interpretation steps: call_pops log "\<lambda>T'. \<exists>n. Run_steps n TryPop log T = Some T'"
proof (unfold_locales, elim exE)
  fix U U' n assume "Run_step TryPop log U = Some U'" "Run_steps n TryPop log T = Some U"
  then have "Run_steps (n + 1) TryPop log T = Some U'" unfolding Run_steps_add by simp
  then show "\<exists>n. Run_steps n TryPop log T = Some U'" by blast
qed

lemma steps_reachable: "Run_steps n TryPop log T = Some T' \<Longrightarrow> call_reachable C z log l T \<Longrightarrow> call_reachable C z log l T'"
proof (induction n arbitrary: T)
  case (Suc n)
  then show ?case by (auto intro: relay_trans relay_run split: bind_splits)
qed simp

text \<open>After the last event, the thread leaves the drain loop, sees the flag and finds the ring empty.\<close>

lemma pop_none:
  assumes "popped_to k (length (er_accepted T)) log l T"
  shows "TryPop (er_ring T) = Some (None, er_ring T)"
  using assms by (auto simp: popped_to_def intro: rq.pop_empty)

lemma returns_after_last:
  assumes T: "popped_to k (length (er_accepted T)) log l T" and pc: "er_pc T = R_drain g" and stop: "er_stop_requested T"
  shows "Run_steps 3 TryPop log T = Some (T\<lparr>er_pc := R_done\<rparr>)"
proof -
  have "Run_step TryPop log T = Some (T\<lparr>er_pc := R_check g\<rparr>)" using pop_none [OF T] pc by (simp add: Run_step_def)
  moreover have "Run_step TryPop log (T\<lparr>er_pc := R_check g\<rparr>) = Some (T\<lparr>er_pc := R_final\<rparr>)"
    using stop by (simp add: Run_step_def)
  moreover have "Run_step TryPop log (T\<lparr>er_pc := R_final\<rparr>) = Some (T\<lparr>er_pc := R_done\<rparr>)"
    using pop_none [OF T] by (simp add: Run_step_def)
  ultimately show ?thesis by (simp add: numeral_3_eq_3)
qed

section \<open>The producer's calls\<close>

lemma produce_full:
  assumes "popped_to k n log l T" "n + 2 ^ k \<le> length (er_accepted T)"
  shows "\<exists>T'. Produce TryPush e T = Some T' \<and> popped_to k n log l T' \<and> er_pc T' = er_pc T
    \<and> same_calls (T\<lparr>er_produced := er_produced T @ [e]\<rparr>) T'
    \<and> dropped_messages (er_ring T') = dropped_messages (er_ring T) + 1"
proof -
  have "length (items (er_ring T)) = ring_cap (er_ring T)"
    using rq.bounded [of "er_ring T"] assms by (auto simp: popped_to_def)
  from rq.push_full [OF _ this, of e] assms(1) obtain q where "TryPush e (er_ring T) = Some (False, q)"
    "ring_inv q" "items q = items (er_ring T)" "ring_cap q = ring_cap (er_ring T)"
    "dropped_messages q = dropped_messages (er_ring T) + 1" by (auto simp: popped_to_def)
  with assms(1) show ?thesis by (auto simp: Produce_def popped_to_def same_calls_def)
qed

lemma produce_room:
  assumes "popped_to k n log l T" "length (er_accepted T) < n + 2 ^ k"
  shows "\<exists>T'. Produce TryPush e T = Some T' \<and> popped_to k n log l T' \<and> er_pc T' = er_pc T
    \<and> same_calls (T\<lparr>er_produced := er_produced T @ [e], er_accepted := er_accepted T @ [e]\<rparr>) T'
    \<and> dropped_messages (er_ring T') = dropped_messages (er_ring T)"
proof -
  have "length (items (er_ring T)) < ring_cap (er_ring T)" using assms by (auto simp: popped_to_def)
  from rq.push_room [OF _ this, of e] assms(1) obtain q where "TryPush e (er_ring T) = Some (True, q)"
    "ring_inv q" "items q = items (er_ring T) @ [e]" "ring_cap q = ring_cap (er_ring T)"
    "dropped_messages q = dropped_messages (er_ring T)" by (auto simp: popped_to_def)
  with assms(1) show ?thesis by (auto simp: Produce_def popped_to_def same_calls_def)
qed

section \<open>The simulation\<close>

text \<open>The other steps of the producer and all of the thread's leave the run of the calls where it is.\<close>

lemma explains_same:
  assumes "explains k log l S T" "same_calls S' S" "pv (er_ring S) \<le> pv (er_ring S')"
    "rg_dropped (cr_ring (er_ring S')) = rg_dropped (cr_ring (er_ring S))"
    "er_running S \<or> popped (er_ring S') = popped (er_ring S)"
  shows "explains k log l S' T"
proof -
  obtain n where n: "n \<le> pv (er_ring S)" "popped_to k n log l T" "er_running T \<or> n = length (popped (er_ring S))"
    using assms(1) by (auto simp: explains_def)
  then have "n \<le> pv (er_ring S')" "er_running T \<or> n = length (popped (er_ring S'))"
    using assms(1,3,5) by (auto simp: explains_def same_calls_def)
  then show ?thesis using assms(1,2,4) n(2) unfolding explains_def by (auto dest: same_calls_trans)
qed

lemma explains_pop:
  assumes "explains k log l S T" "fine_inv k log l S" "polling (er_pc S)" "ring_step (er_ring S) R" "cr_prod R = cr_prod (er_ring S)"
  shows "explains k log l (after_pop log R S) T"
proof -
  have run: "er_running S" using assms(2,3) by (auto simp: fine_inv_def settled_def)
  have R: "er_ring (after_pop log R S) = R" using assms(2,4,5) by (auto simp: fine_inv_def intro: after_pop_logged(2))
  have "pv R = pv (er_ring S)" "rg_dropped (cr_ring R) = rg_dropped (cr_ring (er_ring S))"
    using assms(4,5) by (cases rule: consumer_step_cases; simp)+
  moreover have "same_calls (after_pop log R S) S"
    by (simp add: same_calls_def after_pop_def handle_event_def split: consumer.split)
  ultimately show ?thesis using run R by (intro explains_same [OF assms(1)]) simp_all
qed

context call_runs begin

text \<open>Before a push ends, the thread of the calls pops up to what the producer has seen.\<close>

lemma level_with_view:
  assumes E: "explains k log l S T" and I: "fine_inv k log l S" and C: "reach T"
  obtains T' where "reach T'" "popped_to k (pv (er_ring S)) log l T'" "same_calls S T'"
    "waits T'" "dropped_messages (er_ring T') = rg_dropped (cr_ring (er_ring S))"
    "er_running T' \<or> pv (er_ring S) = length (popped (er_ring S))"
proof -
  let ?m = "pv (er_ring S)"
  obtain n where n: "n \<le> ?m" "popped_to k n log l T" "er_running T \<or> n = length (popped (er_ring S))" and T: "same_calls S T" "waits T"
    "dropped_messages (er_ring T) = rg_dropped (cr_ring (er_ring S))"
    using E by (auto simp: explains_def)
  have sub: "subseq (er_accepted T) (er_produced T)" by (rule same_calls_subseq [OF I T(1)])
  have len: "?m \<le> length (er_accepted T)"
    using I T(1) conc_invD(4-6) [of k "er_ring S"] by (simp add: fine_inv_def counted_def same_calls_def)
  show thesis
  proof (cases "er_running T")
    case True
    then obtain g where "er_pc T = R_drain g" using T(2) by (auto simp: waits_def)
    from pop_until [OF n(2,1) len this sub C] obtain T' g' where T': "reach T'"
      "popped_to k ?m log l T'" "same_calls T T'" "er_pc T' = R_drain g'"
      "dropped_messages (er_ring T') = dropped_messages (er_ring T)" by blast
    then have run: "waits T'" "er_running T'" using True by (simp_all add: waits_def same_calls_def)
    show thesis
      by (rule that [OF T'(1,2) same_calls_trans [OF T(1) T'(3)] run(1)]) (use T'(5) T(3) run(2) in simp_all)
  next
    case False
    then have "n = ?m" using n(1,3) I conc_invD(4) [of k "er_ring S"] by (auto simp: fine_inv_def)
    moreover from this have "?m = length (popped (er_ring S))" using n(3) False by simp
    ultimately show thesis using that n(2) T C by blast
  qed
qed

lemma explains_push:
  assumes E: "explains k log l S T" and I: "fine_inv k log l S" and C: "reach T"
    and nj: "\<not> er_joining S" and st: "ring_step (er_ring S) R" "cr_cons R = cr_cons (er_ring S)"
  shows "\<exists>T'. reach T' \<and> explains k log l (after_push R S) T'"
proof -
  have inv: "conc_inv k (er_ring S)" and acc: "er_accepted S = pushed (er_ring S)"
    using I by (auto simp: fine_inv_def counted_def)
  obtain T1 where T1: "reach T1"
    "popped_to k (pv (er_ring S)) log l T1" "same_calls S T1" "waits T1"
    "dropped_messages (er_ring T1) = rg_dropped (cr_ring (er_ring S))"
    "er_running T1 \<or> pv (er_ring S) = length (popped (er_ring S))"
    using E I C by (rule level_with_view)
  have nj1: "\<not> er_joining T1" and len: "length (er_accepted T1) = length (pushed (er_ring S))"
    using nj T1(3) acc by (simp_all add: same_calls_def)
  have *: "\<exists>T'. reach T' \<and> explains k log l (after_push R S) T'"
    if "same_calls (after_push R S) S" "pv (er_ring S) \<le> pv R" "popped R = popped (er_ring S)"
      "rg_dropped (cr_ring R) = rg_dropped (cr_ring (er_ring S))"
    using explains_same [OF E that(1)] that(2-4) C by (auto simp: after_push_def)
  from st show ?thesis
  proof (cases rule: producer_step_cases)
    case (drop v w r)
    have "pv (er_ring S) + 2 ^ k \<le> length (er_accepted T1)" using room_test [OF inv drop(1)] drop(2) len by simp
    from produce_full [OF T1(2) this, of v] obtain T' where T': "Produce TryPush v T1 = Some T'"
      "popped_to k (pv (er_ring S)) log l T'" "er_pc T' = er_pc T1"
      "same_calls (T1\<lparr>er_produced := er_produced T1 @ [v]\<rparr>) T'"
      "dropped_messages (er_ring T') = dropped_messages (er_ring T1) + 1" by blast
    from pushes [OF T1(1) nj1 T'(1)] have "reach T'" .
    moreover have "explains k log l (after_push R S) T'"
      using drop T' T1(3-6) acc by (auto simp: explains_def after_push_def same_calls_def waits_def)
    ultimately show ?thesis by blast
  next
    case (publish v w)
    have "length (er_accepted T1) < pv (er_ring S) + 2 ^ k"
      using conc_invD(10) [OF inv] publish(1) len by (simp add: prod_inv_def)
    from produce_room [OF T1(2) this, of v] obtain T' where T': "Produce TryPush v T1 = Some T'"
      "popped_to k (pv (er_ring S)) log l T'" "er_pc T' = er_pc T1"
      "same_calls (T1\<lparr>er_produced := er_produced T1 @ [v], er_accepted := er_accepted T1 @ [v]\<rparr>) T'"
      "dropped_messages (er_ring T') = dropped_messages (er_ring T1)" by blast
    from pushes [OF T1(1) nj1 T'(1)] have "reach T'" .
    moreover have "explains k log l (after_push R S) T'"
      using publish T' T1(3-6) acc by (auto simp: explains_def after_push_def same_calls_def waits_def)
    ultimately show ?thesis by blast
  qed (rule *; use acc in \<open>simp add: same_calls_def after_push_def\<close>)+
qed

end

text \<open>When the thread of the accesses has returned, so can the other.\<close>

lemma explains_join:
  assumes E: "explains k log l S T" and I: "fine_inv k log l S"
    and run: "er_running T" "er_stop_requested T"
  obtains n T' where "Run_steps n TryPop log T = Some T'" "er_pc T' = R_done" "same_calls S T'"
    "popped_to k (length (er_accepted S)) log l T'" "dropped_messages (er_ring T') = rg_dropped (cr_ring (er_ring S))"
proof -
  obtain n where n: "popped_to k n log l T" and T: "same_calls S T" "waits T"
    "dropped_messages (er_ring T) = rg_dropped (cr_ring (er_ring S))"
    using E by (auto simp: explains_def)
  have sub: "subseq (er_accepted T) (er_produced T)" by (rule same_calls_subseq [OF I T(1)])
  have le: "n \<le> length (er_accepted T)" using n by (simp add: popped_to_def)
  obtain g where g: "er_pc T = R_drain g" using T(2) run by (auto simp: waits_def)
  have "\<exists>m. Run_steps m TryPop log T = Some T" by (rule exI [of _ 0]) simp
  from steps.pop_until [OF n le order_refl g sub this] obtain m T1 g1 where T1: "Run_steps m TryPop log T = Some T1"
    "popped_to k (length (er_accepted T)) log l T1" "same_calls T T1" "er_pc T1 = R_drain g1"
    "dropped_messages (er_ring T1) = dropped_messages (er_ring T)" by blast
  have "er_accepted T1 = er_accepted T" "er_stop_requested T1" using T1(3) run by (simp_all add: same_calls_def)
  with returns_after_last [of k T1 log l g1] T1 have "Run_steps (m + 3) TryPop log T = Some (T1\<lparr>er_pc := R_done\<rparr>)"
    unfolding Run_steps_add by simp
  with that show thesis using T1 T by (fastforce simp: same_calls_def popped_to_def)
qed

lemma explains_step:
  assumes st: "fine_step log S S'" and I: "fine_inv k log l S" and E: "explains k log l S T"
    and C: "call_reachable C z log l T"
  shows "\<exists>T'. call_reachable C z log l T' \<and> explains k log l S' T'"
  using st
proof (cases rule: fine_step.cases)
  case (fine_pop R)
  then show ?thesis using explains_pop [OF E I] C by blast
next
  case (fine_stop_seen g)
  then show ?thesis using C by (intro exI [of _ T] conjI explains_same [OF E]) (auto simp: same_calls_def)
next
  case (fine_stop_unseen g)
  then show ?thesis using C by (intro exI [of _ T] conjI explains_same [OF E]) (auto simp: same_calls_def)
next
  case (fine_push R)
  then show ?thesis using calls.explains_push [OF E I C] by blast
next
  case fine_start
  then have "\<not> er_joining T" using E by (simp add: explains_def same_calls_def)
  from relay_trans [OF C relay_start [OF this]] have "call_reachable C z log l (Start T)" .
  moreover have "explains k log l S' (Start T)"
    using fine_start E by (fastforce simp: explains_def same_calls_def waits_def Start_def popped_to_def)
  ultimately show ?thesis by blast
next
  case fine_stop
  then have "\<not> er_joining T" using E by (simp add: explains_def same_calls_def)
  from relay_trans [OF C relay_stop [OF this]] have "call_reachable C z log l (Stop_request T)" .
  moreover have "explains k log l S' (Stop_request T)"
    using fine_stop E by (fastforce simp: explains_def same_calls_def waits_def Stop_request_def popped_to_def)
  ultimately show ?thesis by blast
next
  case fine_join
  then have j: "er_joining T" "er_running T" "er_stop_requested T"
    using E I by (auto simp: explains_def same_calls_def fine_inv_def settled_def)
  obtain n T1 where T1: "Run_steps n TryPop log T = Some T1" "er_pc T1 = R_done" "same_calls S T1"
    "popped_to k (length (er_accepted S)) log l T1" "dropped_messages (er_ring T1) = rg_dropped (cr_ring (er_ring S))"
    using E I j(2,3) by (rule explains_join)
  have "er_joining T1" using fine_join(2) T1(3) by (simp add: same_calls_def)
  from relay_trans [OF steps_reachable [OF T1(1) C] relay_join [OF this T1(2)]] have "call_reachable C z log l (Stop_joined T1)" .
  moreover have "length (er_accepted S) = length (popped (er_ring S))"
    using I fine_join(3) by (simp add: fine_inv_def counted_def settled_def)
  then have "explains k log l S' (Stop_joined T1)"
    using fine_join(1) T1(3-5) by (simp add: explains_def same_calls_def waits_def Stop_joined_def popped_to_def)
  ultimately show ?thesis by blast
qed

lemma reachable_explained:
  assumes "fine_reachable log (EventRelay_new (conc_init C z) l) S" "C = 2 ^ k" "k < 64"
  shows "\<exists>T. call_reachable C z log l T \<and> explains k log l S T"
  using assms(1)
proof (induction rule: fine_reachable.induct)
  case fine_refl
  let ?T = "EventRelay_new (SpscRing C z) l"
  have "call_reachable C z log l ?T" by (rule relay_refl)
  moreover have "explains k log l (EventRelay_new (conc_init C z) l) ?T"
    using new_ring [OF assms(3), of z] assms(2)
    by (simp add: explains_def same_calls_def waits_def popped_to_def EventRelay_new_def conc_init_def dropped_messages_def)
  ultimately show ?case by blast
next
  case (fine_trans S S')
  then obtain T where "call_reachable C z log l T" "explains k log l S T" by blast
  with explains_step [OF fine_trans(2) fine_reachable_inv [OF fine_trans(1) [unfolded assms(2)] assms(3)]]
  show ?case by blast
qed

section \<open>Correctness\<close>

text \<open>C21: the relay on the two-thread ring refines the relay whose ring calls are atomic. For every state
  that single memory accesses can reach, stale loads included, there is a state that whole calls of
  \<^verbatim>\<open>TryPush\<close> and \<^verbatim>\<open>TryPop\<close> can reach in which the producer has made the same calls with the
  same answers, the same number of messages is dropped, the same callers wait, and, once the thread
  has returned, the logger and \<^verbatim>\<open>processed()\<close> are the same.\<close>

theorem relay_accesses_refine_calls:
  assumes "fine_reachable log (EventRelay_new (conc_init C z) l) S" "capacity_ok C"
  shows "\<exists>T. relay_reachable TryPush TryPop log (EventRelay_new (SpscRing C z) l) T
    \<and> er_produced T = er_produced S \<and> er_accepted T = er_accepted S
    \<and> dropped_messages (er_ring T) = dropped_messages (cr_ring (er_ring S))
    \<and> er_running T = er_running S \<and> er_joining T = er_joining S
    \<and> (er_joining S \<and> er_pc S = R_done \<longrightarrow>
         er_pc T = R_done \<and> er_logger T = er_logger S \<and> er_processed T = er_processed S)"
proof -
  obtain k where k: "C = 2 ^ k" "k < 64" using assms(2) by (rule capacity_ok_power)
  have I: "fine_inv k log l S" by (rule fine_reachable_inv [OF assms(1) [unfolded k(1)] k(2)])
  obtain T where T: "call_reachable C z log l T" "explains k log l S T"
    using reachable_explained [OF assms(1) k] by blast
  show ?thesis
  proof (cases "er_joining S \<and> er_pc S = R_done")
    case True
    then have "er_running T" "er_stop_requested T"
      using T(2) I by (auto simp: explains_def same_calls_def fine_inv_def settled_def)
    then obtain n T' where T': "Run_steps n TryPop log T = Some T'" "er_pc T' = R_done" "same_calls S T'"
      "popped_to k (length (er_accepted S)) log l T'" "dropped_messages (er_ring T') = rg_dropped (cr_ring (er_ring S))"
      using explains_join [OF T(2) I] by blast
    moreover have "er_logger T' = er_logger S" "er_processed T' = er_processed S"
      using T'(3,4) I True by (auto simp: popped_to_def same_calls_def fine_inv_def counted_def settled_def)
    ultimately show ?thesis using T' steps_reachable [OF T'(1) T(1)]
      by (intro exI [of _ T']) (simp add: same_calls_def dropped_messages_def)
  next
    case False
    with T show ?thesis by (intro exI [of _ T]) (auto simp: explains_def same_calls_def dropped_messages_def)
  qed
qed

theorem relay_accesses_refine_calls_witness:
  "\<exists>S T. fine_reachable InMemory_Log fine_start S \<and> er_joining S \<and> er_pc S = R_done
     \<and> relay_reachable TryPush TryPop InMemory_Log (EventRelay_new (SpscRing 2 sample_event) InMemory_new) T
     \<and> er_pc T = R_done \<and> er_accepted T = [sample_event] \<and> er_logger T = er_logger S"
proof -
  obtain S where S: "fine_reachable InMemory_Log fine_start S" "er_joining S" "er_pc S = R_done"
    "er_accepted S = [sample_event]"
    using sample_stop_done by blast
  have "capacity_ok 2" by (simp add: capacity_ok_def)
  from relay_accesses_refine_calls [OF S(1) this] S show ?thesis by (intro exI [of _ S]) auto
qed

end
