(* ===== verification/Order_Book.thy ===== *)
theory Order_Book imports Level_Fifo begin

text \<open>
  The limit order book of \<^verbatim>\<open>cpp/core/order_book.hpp\<close>: the class's members as a
  record, its private helpers and its public operations, in the order of the file. A
  \<^verbatim>\<open>LevelFIFO&\<close> of the source is a (side, price) pair, read by \<open>LevelAt\<close> and
  written through by \<open>set_level\<close>. Fill and cancel handlers are functions on a state of
  their own, threaded through in call order. Prices are integers, because every price the book
  computes with lies in its band, which the constructor keeps inside 64 bits; quantities and the
  live-level counters are 64-bit words.
\<close>

section \<open>State\<close>

record OrderBook =
  bk_slab :: "Order slab"
  bk_min_price :: Price
  bk_max_price :: Price
  bk_bid_levels :: "LevelFIFO list"
  bk_ask_levels :: "LevelFIFO list"
  bk_best_bid_px :: Price
  bk_best_ask_px :: Price
  bk_live_bid_levels :: u64
  bk_live_ask_levels :: u64
  bk_id_index :: id_index

definition kDefaultMinPrice :: Price where "kDefaultMinPrice = 0"
definition kDefaultMaxPrice :: Price where "kDefaultMaxPrice = 16383"

text \<open>\<^verbatim>\<open>sizeof(Order)\<close>: three 8-byte numbers, the side padded to 8 bytes and two
  8-byte pointers.\<close>

definition sizeof_Order :: u64 where "sizeof_Order = 48"

text \<open>
  The constructor. \<^verbatim>\<open>max_price - min_price + 1\<close> is signed 64-bit arithmetic, so
  a band it cannot represent has no defined result; neither has an empty band (the
  \<^verbatim>\<open>assert\<close>), a capacity whose slab wraps around 64 bits or one for which
  \<^verbatim>\<open>RoundUpPow2\<close> does not return.
\<close>

definition OrderBook_new :: "u64 \<Rightarrow> Price \<Rightarrow> Price \<Rightarrow> OrderBook option" where
  "OrderBook_new order_capacity min_price max_price =
     (if min_price \<le> max_price \<and> - (2 ^ 63) \<le> min_price \<and> max_price - min_price + 1 < 2 ^ 63
         \<and> max_price < 2 ^ 63
      then do {
        slab \<leftarrow> SlabAllocator sizeof_Order order_capacity;
        ix \<leftarrow> id_index_new order_capacity;
        let n = nat (max_price - min_price + 1);
        Some \<lparr>bk_slab = slab,
              bk_min_price = min_price, bk_max_price = max_price,
              bk_bid_levels = replicate n empty_level, bk_ask_levels = replicate n empty_level,
              bk_best_bid_px = 0, bk_best_ask_px = 0,
              bk_live_bid_levels = 0, bk_live_ask_levels = 0, bk_id_index = ix\<rparr>
      } else None)"

section \<open>Price ladder\<close>

definition InBand :: "OrderBook \<Rightarrow> Price \<Rightarrow> bool" where
  "InBand b px \<longleftrightarrow> px \<ge> bk_min_price b \<and> px \<le> bk_max_price b"

definition Idx :: "OrderBook \<Rightarrow> Price \<Rightarrow> nat" where
  "Idx b px = nat (px - bk_min_price b)"

fun levels :: "OrderBook \<Rightarrow> Side \<Rightarrow> LevelFIFO list" where
  "levels b kBuy = bk_bid_levels b"
| "levels b kSell = bk_ask_levels b"

definition LevelAt :: "OrderBook \<Rightarrow> Side \<Rightarrow> Price \<Rightarrow> LevelFIFO option" where
  "LevelAt b side px = (if InBand b px then nth_opt (levels b side) (Idx b px) else None)"

fun set_level :: "OrderBook \<Rightarrow> Side \<Rightarrow> Price \<Rightarrow> LevelFIFO \<Rightarrow> OrderBook option" where
  "set_level b kBuy px lvl = do {
     ls \<leftarrow> upd_opt (bk_bid_levels b) (Idx b px) lvl; Some (b\<lparr>bk_bid_levels := ls\<rparr>) }"
| "set_level b kSell px lvl = do {
     ls \<leftarrow> upd_opt (bk_ask_levels b) (Idx b px) lvl; Some (b\<lparr>bk_ask_levels := ls\<rparr>) }"

definition PrewarmLevel :: "Side \<Rightarrow> Price \<Rightarrow> OrderBook \<Rightarrow> OrderBook option" where
  "PrewarmLevel side px b = (if InBand b px then Some b else None)"

fun MarkLevelLive :: "Side \<Rightarrow> Price \<Rightarrow> OrderBook \<Rightarrow> OrderBook" where
  "MarkLevelLive kBuy px b =
     (let b1 = (if bk_live_bid_levels b = 0 \<or> px > bk_best_bid_px b
                then b\<lparr>bk_best_bid_px := px\<rparr> else b)
      in b1\<lparr>bk_live_bid_levels := bk_live_bid_levels b1 + 1\<rparr>)"
| "MarkLevelLive kSell px b =
     (let b1 = (if bk_live_ask_levels b = 0 \<or> px < bk_best_ask_px b
                then b\<lparr>bk_best_ask_px := px\<rparr> else b)
      in b1\<lparr>bk_live_ask_levels := bk_live_ask_levels b1 + 1\<rparr>)"

text \<open>The two repair scans, \<^verbatim>\<open>do { --p; } while (bid_levels_[Idx(p)].empty())\<close> and
  its mirror image; leaving the vector is \<open>None\<close>.\<close>

function scan_down :: "LevelFIFO list \<Rightarrow> Price \<Rightarrow> Price \<Rightarrow> Price option" where
  "scan_down ls mn p =
     (if p - 1 < mn then None
      else case nth_opt ls (nat (p - 1 - mn)) of
             None \<Rightarrow> None
           | Some l \<Rightarrow> if level_empty l then scan_down ls mn (p - 1) else Some (p - 1))"
  by pat_completeness auto
termination
  by (relation "measure (\<lambda>(ls, mn, p). nat (p - mn))") auto

function scan_up :: "LevelFIFO list \<Rightarrow> Price \<Rightarrow> Price \<Rightarrow> Price option" where
  "scan_up ls mn p =
     (if p + 1 < mn then None
      else case nth_opt ls (nat (p + 1 - mn)) of
             None \<Rightarrow> None
           | Some l \<Rightarrow> if level_empty l then scan_up ls mn (p + 1) else Some (p + 1))"
  by pat_completeness auto
termination
  by (relation "measure (\<lambda>(ls, mn, p). nat (int (length ls) + mn - p))")
    (auto simp: nth_opt_eq_Some)

declare scan_down.simps [simp del] scan_up.simps [simp del]

fun MarkLevelEmptied :: "Side \<Rightarrow> Price \<Rightarrow> OrderBook \<Rightarrow> OrderBook option" where
  "MarkLevelEmptied kBuy px b =
     (let b1 = b\<lparr>bk_live_bid_levels := bk_live_bid_levels b - 1\<rparr> in
      if bk_live_bid_levels b1 > 0 \<and> px = bk_best_bid_px b1 then do {
        p \<leftarrow> scan_down (bk_bid_levels b1) (bk_min_price b1) px;
        Some (b1\<lparr>bk_best_bid_px := p\<rparr>)
      } else Some b1)"
| "MarkLevelEmptied kSell px b =
     (let b1 = b\<lparr>bk_live_ask_levels := bk_live_ask_levels b - 1\<rparr> in
      if bk_live_ask_levels b1 > 0 \<and> px = bk_best_ask_px b1 then do {
        p \<leftarrow> scan_up (bk_ask_levels b1) (bk_min_price b1) px;
        Some (b1\<lparr>bk_best_ask_px := p\<rparr>)
      } else Some b1)"

section \<open>Matching\<close>

text \<open>\<open>lside\<close> and \<open>maker_price\<close> locate the level the source passes by reference.\<close>

partial_function (option) ConsumeLevel ::
    "(Fill \<Rightarrow> 's \<Rightarrow> 's) \<Rightarrow> OrderId \<Rightarrow> Side \<Rightarrow> Price \<Rightarrow> Side \<Rightarrow> Quantity \<Rightarrow> OrderBook \<Rightarrow> 's
     \<Rightarrow> (Quantity \<times> OrderBook \<times> 's) option" where
  "ConsumeLevel on_fill taker_id taker_side maker_price lside remaining b s = do {
     lvl \<leftarrow> LevelAt b lside maker_price;
     if remaining > 0 \<and> lv_head lvl \<noteq> None then do {
       let maker = the (lv_head lvl);
       m \<leftarrow> deref (bk_slab b) maker;
       let fill = min remaining (o_qty m);
       let s1 = on_fill \<lparr>fl_maker_id = o_id m, fl_taker_id = taker_id, fl_price = maker_price,
                         fl_qty = fill, fl_taker_side = taker_side\<rparr> s;
       sl1 \<leftarrow> assign maker (m\<lparr>o_qty := o_qty m - fill\<rparr>) (bk_slab b);
       let lvl1 = lvl\<lparr>lv_total_qty := lv_total_qty lvl - fill\<rparr>;
       m1 \<leftarrow> deref sl1 maker;
       b1 \<leftarrow> (if o_qty m1 = 0 then do {
                (lvl2, sl2) \<leftarrow> PopHead lvl1 maker sl1;
                (_, ix) \<leftarrow> LookupAndEraseId (o_id m1) (bk_id_index b);
                sl3 \<leftarrow> Deallocate (Some maker) sl2;
                set_level (b\<lparr>bk_slab := sl3, bk_id_index := ix\<rparr>) lside maker_price lvl2
              } else set_level (b\<lparr>bk_slab := sl1\<rparr>) lside maker_price lvl1);
       ConsumeLevel on_fill taker_id taker_side maker_price lside (remaining - fill) b1 s1
     } else Some (remaining, b, s)
   }"

partial_function (option) MatchBuy ::
    "(Fill \<Rightarrow> 's \<Rightarrow> 's) \<Rightarrow> OrderId \<Rightarrow> Price \<Rightarrow> Quantity \<Rightarrow> OrderBook \<Rightarrow> 's
     \<Rightarrow> (Quantity \<times> OrderBook \<times> 's) option" where
  "MatchBuy on_fill taker_id taker_price remaining b s =
     (if remaining > 0 \<and> bk_live_ask_levels b > 0 then
        let px = bk_best_ask_px b in
        if px > taker_price then Some (remaining, b, s)
        else do {
          (remaining1, b1, s1) \<leftarrow> ConsumeLevel on_fill taker_id kBuy px kSell remaining b s;
          lvl \<leftarrow> LevelAt b1 kSell px;
          b2 \<leftarrow> (if level_empty lvl then MarkLevelEmptied kSell px b1 else Some b1);
          MatchBuy on_fill taker_id taker_price remaining1 b2 s1
        }
      else Some (remaining, b, s))"

partial_function (option) MatchSell ::
    "(Fill \<Rightarrow> 's \<Rightarrow> 's) \<Rightarrow> OrderId \<Rightarrow> Price \<Rightarrow> Quantity \<Rightarrow> OrderBook \<Rightarrow> 's
     \<Rightarrow> (Quantity \<times> OrderBook \<times> 's) option" where
  "MatchSell on_fill taker_id taker_price remaining b s =
     (if remaining > 0 \<and> bk_live_bid_levels b > 0 then
        let px = bk_best_bid_px b in
        if px < taker_price then Some (remaining, b, s)
        else do {
          (remaining1, b1, s1) \<leftarrow> ConsumeLevel on_fill taker_id kSell px kBuy remaining b s;
          lvl \<leftarrow> LevelAt b1 kBuy px;
          b2 \<leftarrow> (if level_empty lvl then MarkLevelEmptied kBuy px b1 else Some b1);
          MatchSell on_fill taker_id taker_price remaining1 b2 s1
        }
      else Some (remaining, b, s))"

lemmas [run_simps] = scan_down.simps scan_up.simps ConsumeLevel.simps MatchBuy.simps MatchSell.simps

definition Rest :: "OrderId \<Rightarrow> Side \<Rightarrow> Price \<Rightarrow> Quantity \<Rightarrow> OrderBook \<Rightarrow> (bool \<times> OrderBook) option" where
  "Rest i side price qty b =
     (if \<not> InBand b price then Some (False, b)
      else do {
        (r, sl) \<leftarrow> Allocate (bk_slab b);
        case r of
          None \<Rightarrow> Some (False, b)
        | Some p \<Rightarrow> do {
            sl1 \<leftarrow> assign p \<lparr>o_id = i, o_price = price, o_qty = qty, o_side = side,
                            o_prev = None, o_next = None\<rparr> sl;
            lvl \<leftarrow> LevelAt b side price;
            (lvl1, sl2) \<leftarrow> PushBackToLevel lvl p sl1;
            b1 \<leftarrow> set_level (b\<lparr>bk_slab := sl2\<rparr>) side price lvl1;
            let b2 = (if level_empty lvl then MarkLevelLive side price b1 else b1);
            ix \<leftarrow> InsertId i p (bk_id_index b2);
            Some (True, b2\<lparr>bk_id_index := ix\<rparr>)
          }
      })"

section \<open>Public operations\<close>

definition AddLimit :: "(Fill \<Rightarrow> 's \<Rightarrow> 's) \<Rightarrow> OrderId \<Rightarrow> Side \<Rightarrow> Price \<Rightarrow> Quantity \<Rightarrow> OrderBook \<Rightarrow> 's
     \<Rightarrow> (bool \<times> OrderBook \<times> 's) option" where
  "AddLimit on_fill i side price qty b s =
     (if qty = 0 then None
      else do {
        (remaining, b1, s1) \<leftarrow>
          (case side of kBuy \<Rightarrow> MatchBuy on_fill i price qty b s
                      | kSell \<Rightarrow> MatchSell on_fill i price qty b s);
        if remaining = 0 then Some (True, b1, s1)
        else do { (ok, b2) \<leftarrow> Rest i side price remaining b1; Some (ok, b2, s1) }
      })"

definition Cancel :: "(OrderId \<Rightarrow> Side \<Rightarrow> Price \<Rightarrow> Quantity \<Rightarrow> 's \<Rightarrow> 's) \<Rightarrow> OrderId \<Rightarrow> OrderBook \<Rightarrow> 's
     \<Rightarrow> (bool \<times> OrderBook \<times> 's) option" where
  "Cancel on_cancel i b s = do {
     (r, ix) \<leftarrow> LookupAndEraseId i (bk_id_index b);
     let b1 = b\<lparr>bk_id_index := ix\<rparr>;
     case r of
       None \<Rightarrow> Some (False, b1, s)
     | Some p \<Rightarrow> do {
         x \<leftarrow> deref (bk_slab b1) p;
         let s1 = on_cancel (o_id x) (o_side x) (o_price x) (o_qty x) s;
         lvl \<leftarrow> LevelAt b1 (o_side x) (o_price x);
         (lvl1, sl1) \<leftarrow> UnlinkFromLevel lvl p (bk_slab b1);
         b2 \<leftarrow> set_level (b1\<lparr>bk_slab := sl1\<rparr>) (o_side x) (o_price x) lvl1;
         b3 \<leftarrow> (if level_empty lvl1 then MarkLevelEmptied (o_side x) (o_price x) b2 else Some b2);
         sl2 \<leftarrow> Deallocate (Some p) (bk_slab b3);
         Some (True, b3\<lparr>bk_slab := sl2\<rparr>, s1)
       }
   }"

section \<open>Observers\<close>

definition has_bid :: "OrderBook \<Rightarrow> bool" where "has_bid b \<longleftrightarrow> bk_live_bid_levels b > 0"
definition has_ask :: "OrderBook \<Rightarrow> bool" where "has_ask b \<longleftrightarrow> bk_live_ask_levels b > 0"

definition best_bid :: "OrderBook \<Rightarrow> Price" where
  "best_bid b = (if bk_live_bid_levels b > 0 then bk_best_bid_px b else 0)"

definition best_ask :: "OrderBook \<Rightarrow> Price" where
  "best_ask b = (if bk_live_ask_levels b > 0 then bk_best_ask_px b else 0)"

definition level_qty :: "OrderBook \<Rightarrow> Side \<Rightarrow> Price \<Rightarrow> Quantity option" where
  "level_qty b side px =
     (if \<not> InBand b px then Some 0
      else map_option lv_total_qty (nth_opt (levels b side) (Idx b px)))"

definition level_order_count :: "OrderBook \<Rightarrow> Side \<Rightarrow> Price \<Rightarrow> u32 option" where
  "level_order_count b side px =
     (if \<not> InBand b px then Some 0
      else map_option lv_order_count (nth_opt (levels b side) (Idx b px)))"

definition level :: "OrderBook \<Rightarrow> Side \<Rightarrow> Price \<Rightarrow> LevelFIFO option" where
  "level b side px = (if \<not> InBand b px then None else nth_opt (levels b side) (Idx b px))"

definition min_price :: "OrderBook \<Rightarrow> Price" where "min_price b = bk_min_price b"
definition max_price :: "OrderBook \<Rightarrow> Price" where "max_price b = bk_max_price b"

definition open_order_count :: "OrderBook \<Rightarrow> nat" where
  "open_order_count b = sl_in_use (bk_slab b)"

definition slab_capacity :: "OrderBook \<Rightarrow> nat" where
  "slab_capacity b = sl_capacity (bk_slab b)"

end
