(* ===== verification/Book_Spec.thy ===== *)
theory Book_Spec imports Level_Fifo begin

text \<open>
  What the order book promises, stated without slab, links, ladder or index: for each side and
  price the queue of resting orders, earliest first. Matching sweeps the crossing prices from the
  best one, each queue from its front; a residual joins the back of the queue at its own price.
  The lemmas are the properties of price-time priority the refinement carries over to the code.
\<close>

type_synonym queue = "(OrderId \<times> Quantity) list"
type_synonym depth = "Side \<Rightarrow> Price \<Rightarrow> queue"

text \<open>\<open>better side p q\<close>: a resting order at \<open>p\<close> is matched before one at \<open>q\<close>.\<close>

fun better :: "Side \<Rightarrow> Price \<Rightarrow> Price \<Rightarrow> bool" where
  "better kBuy p q = (p > q)"
| "better kSell p q = (p < q)"

fun opposite :: "Side \<Rightarrow> Side" where
  "opposite kBuy = kSell"
| "opposite kSell = kBuy"

lemma opposite_neq [simp]: "opposite s \<noteq> s" "s \<noteq> opposite s"
  by (cases s; simp)+

lemma opposite_opposite [simp]: "opposite (opposite s) = s"
  by (cases s) simp_all

abbreviation put_queue :: "depth \<Rightarrow> Side \<Rightarrow> Price \<Rightarrow> queue \<Rightarrow> depth" where
  "put_queue D side px q \<equiv> D(side := (D side)(px := q))"

section \<open>Matching\<close>

text \<open>Fills, quantity left and queue left of matching \<open>r\<close> against a queue.\<close>

fun fill_queue :: "Quantity \<Rightarrow> queue \<Rightarrow> queue \<times> Quantity \<times> queue" where
  "fill_queue r [] = ([], r, [])"
| "fill_queue r ((i, q) # es) =
     (if r = 0 then ([], 0, (i, q) # es)
      else if r < q then ([(i, r)], 0, (i, q - r) # es)
      else let (fs, r', rest) = fill_queue (r - q) es in ((i, q) # fs, r', rest))"

text \<open>The prices a taker crosses, the best one for it first.\<close>

fun crossing :: "Side \<Rightarrow> Price \<Rightarrow> Price \<Rightarrow> Price \<Rightarrow> Price list" where
  "crossing kBuy mn mx p = [mn..min p mx]"
| "crossing kSell mn mx p = rev [max p mn..mx]"

fun sweep :: "Price list \<Rightarrow> Quantity \<Rightarrow> (Price \<Rightarrow> queue) \<Rightarrow> (Price \<times> OrderId \<times> Quantity) list \<times> Quantity \<times> (Price \<Rightarrow> queue)" where
  "sweep [] r D = ([], r, D)"
| "sweep (px # pxs) r D =
     (let (fs, r1, rest) = fill_queue r (D px);
          (gs, r2, D2) = sweep pxs r1 (D(px := rest))
      in (map (Pair px) fs @ gs, r2, D2))"

definition to_fill :: "OrderId \<Rightarrow> Side \<Rightarrow> Price \<times> OrderId \<times> Quantity \<Rightarrow> Fill" where
  "to_fill taker_id taker_side f =
     \<lparr>fl_maker_id = fst (snd f), fl_taker_id = taker_id, fl_price = fst f, fl_qty = snd (snd f),
      fl_taker_side = taker_side\<rparr>"

definition order_total :: "Price \<Rightarrow> Price \<Rightarrow> depth \<Rightarrow> nat" where
  "order_total mn mx D = (\<Sum>px\<in>{mn..mx}. length (D kBuy px) + length (D kSell px))"

definition spec_add :: "Price \<Rightarrow> Price \<Rightarrow> nat \<Rightarrow> OrderId \<Rightarrow> Side \<Rightarrow> Price \<Rightarrow> Quantity \<Rightarrow> depth
    \<Rightarrow> bool \<times> Fill list \<times> depth" where
  "spec_add mn mx cap i side px qty D =
     (let (fs, r, D1) = sweep (crossing side mn mx px) qty (D (opposite side));
          fills = map (to_fill i side) fs;
          D2 = D(opposite side := D1)
      in if r = 0 then (True, fills, D2)
         else if mn \<le> px \<and> px \<le> mx \<and> order_total mn mx D2 < cap
         then (True, fills, put_queue D2 side px (D2 side px @ [(i, r)]))
         else (False, fills, D2))"

definition spec_resting :: "OrderId \<Rightarrow> depth \<Rightarrow> bool" where
  "spec_resting i D \<longleftrightarrow> (\<exists>side px q. (i, q) \<in> set (D side px))"

definition spec_cancel :: "OrderId \<Rightarrow> depth \<Rightarrow> depth" where
  "spec_cancel i D = (\<lambda>side px. filter (\<lambda>e. fst e \<noteq> i) (D side px))"

section \<open>Properties of the specification\<close>

lemma fill_queue_zero [simp]: "fill_queue 0 q = ([], 0, q)"
  by (cases q) auto

lemma fill_queue_left: "fill_queue r q = (fs, r', rest) \<Longrightarrow> r' \<noteq> 0 \<Longrightarrow> rest = []"
  by (induction r q arbitrary: fs rule: fill_queue.induct)
    (auto simp: Let_def split: if_splits prod.splits)

lemma unat_diff_le: "\<not> r < (q::u64) \<Longrightarrow> unat (r - q) = unat r - unat q"
  by (simp add: unat_sub_if' not_less word_le_nat_alt)

abbreviation total :: "queue \<Rightarrow> nat" where
  "total q \<equiv> sum_list (map (unat \<circ> snd) q)"

text \<open>No quantity is created or lost.\<close>

lemma fill_queue_conserves:
  "fill_queue r q = (fs, r', rest) \<Longrightarrow> total fs + unat r' = unat r \<and> total fs + total rest = total q"
proof (induction r q arbitrary: fs rule: fill_queue.induct)
  case (2 r i q es)
  show ?case
  proof (cases "r = 0 \<or> r < q")
    case True
    then show ?thesis
      using 2(2) unat_diff_le [of q r] by (auto split: if_splits simp: word_less_nat_alt not_less)
  next
    case False
    obtain gs where g: "fill_queue (r - q) es = (gs, r', rest)" "fs = (i, q) # gs"
      using 2(2) False by (auto simp: Let_def split: prod.splits)
    from 2(1) [OF _ _ g(1)] False g(2) show ?thesis
      using unat_diff_le [of r q] by (auto simp: not_less word_le_nat_alt)
  qed
qed auto

text \<open>Time priority: the makers hit are a prefix of the queue, and all but the last are filled
  completely.\<close>

lemma fill_queue_fifo:
  "fill_queue r q = (fs, r', rest) \<Longrightarrow>
     map fst fs = take (length fs) (map fst q)
     \<and> (\<forall>k. Suc k < length fs \<longrightarrow> fs ! k = q ! k)
     \<and> map fst rest = drop (length q - length rest) (map fst q)"
proof (induction r q arbitrary: fs rule: fill_queue.induct)
  case (2 r i q es)
  show ?case
  proof (cases "r = 0 \<or> r < q")
    case True
    then show ?thesis using 2(2) by (auto split: if_splits)
  next
    case False
    obtain gs where g: "fill_queue (r - q) es = (gs, r', rest)" "fs = (i, q) # gs"
      using 2(2) False by (auto simp: Let_def split: prod.splits)
    have "fs ! k = ((i, q) # es) ! k" if "Suc k < length fs" for k
      using that g(2) 2(1) [OF _ _ g(1)] False by (cases k) auto
    moreover have "length rest \<le> length es"
      using 2(1) [OF _ _ g(1)] False by (metis length_drop length_map diff_le_self)
    ultimately show ?thesis
      using 2(1) [OF _ _ g(1)] False g(2) by (auto simp: Suc_diff_le)
  qed
qed auto

lemma fill_queue_positive:
  "fill_queue r q = (fs, r', rest) \<Longrightarrow> \<forall>e\<in>set q. snd e \<noteq> 0 \<Longrightarrow>
     (\<forall>e\<in>set fs. snd e \<noteq> 0) \<and> (\<forall>e\<in>set rest. snd e \<noteq> 0)"
proof (induction r q arbitrary: fs rule: fill_queue.induct)
  case (2 r i q es)
  then show ?case by (auto simp: Let_def split: if_splits prod.splits)
qed auto

lemma fill_queue_ids: "fill_queue r q = (fs, r', rest) \<Longrightarrow> fst ` set rest \<subseteq> fst ` set q"
  using fill_queue_fifo [of r q fs r' rest] set_drop_subset [of "length q - length rest" "map fst q"]
  by (metis image_set)

lemma sweep_zero [simp]: "sweep pxs 0 D = ([], 0, D)"
  by (induction pxs arbitrary: D) auto

lemma sweep_skip: "\<forall>px\<in>set pxs. D px = [] \<Longrightarrow> sweep pxs r D = ([], r, D)"
  by (induction pxs) (auto simp: fun_upd_idem)

lemma sweep_append:
  "sweep (xs @ ys) r D =
     (let (fs, r1, D1) = sweep xs r D; (gs, r2, D2) = sweep ys r1 D1 in (fs @ gs, r2, D2))"
  by (induction xs arbitrary: r D) (auto simp: Let_def split: prod.splits)

text \<open>One round of the code's loop: the best populated price, then the rest.\<close>

lemma sweep_at:
  assumes "\<forall>q\<in>set xs. D q = []" "px \<notin> set xs"
    "fill_queue r (D px) = (fs, r1, rest)" "sweep (xs @ px # ys) r1 (D(px := rest)) = (gs, r2, D2)"
  shows "sweep (xs @ px # ys) r D = (map (Pair px) fs @ gs, r2, D2)"
proof -
  have 1: "sweep xs r D = ([], r, D)" using assms(1) by (rule sweep_skip)
  have "\<forall>q\<in>set xs. (D(px := rest)) q = []" using assms(1,2) by auto
  then have 2: "sweep xs r1 (D(px := rest)) = ([], r1, D(px := rest))" by (rule sweep_skip)
  have 3: "fill_queue r1 rest = ([], r1, rest)"
    using fill_queue_left [OF assms(3)] by (cases "r1 = 0") auto
  show ?thesis
    using 1 2 3 assms(3,4) by (auto simp: sweep_append Let_def split: prod.splits)
qed

lemma sweep_ConsD:
  "sweep (px # pxs) r D = (fs, r', D') \<Longrightarrow> \<exists>gs r1 rest hs. fill_queue r (D px) = (gs, r1, rest)
     \<and> sweep pxs r1 (D(px := rest)) = (hs, r', D') \<and> fs = map (Pair px) gs @ hs"
  by (auto simp: Let_def split: prod.splits)

declare sweep.simps(2) [simp del]

lemma sweep_outside: "sweep pxs r D = (fs, r', D') \<Longrightarrow> px \<notin> set pxs \<Longrightarrow> D' px = D px"
  by (induction pxs arbitrary: r D fs) (fastforce dest!: sweep_ConsD)+

text \<open>A taker left with something has emptied every crossing level.\<close>

lemma sweep_left: "sweep pxs r D = (fs, r', D') \<Longrightarrow> r' \<noteq> 0 \<Longrightarrow> distinct pxs \<Longrightarrow> \<forall>px\<in>set pxs. D' px = []"
proof (induction pxs arbitrary: r D fs)
  case (Cons px pxs)
  obtain gs r1 rest hs where f: "fill_queue r (D px) = (gs, r1, rest)"
    and h: "sweep pxs r1 (D(px := rest)) = (hs, r', D')"
    using sweep_ConsD [OF Cons.prems(1)] by blast
  have "r1 \<noteq> 0" using h Cons.prems(2) by (cases "r1 = 0") auto
  then have "rest = []" using fill_queue_left [OF f] by simp
  moreover have "D' px = rest" using sweep_outside [OF h, of px] Cons.prems(3) by simp
  ultimately show ?case using Cons.IH [OF h Cons.prems(2)] Cons.prems(3) by simp
qed simp

lemma sweep_conserves:
  "sweep pxs r D = (fs, r', D') \<Longrightarrow> total (map snd fs) + unat r' = unat r"
proof (induction pxs arbitrary: r D fs)
  case (Cons px pxs)
  obtain gs r1 rest hs where f: "fill_queue r (D px) = (gs, r1, rest)"
    and h: "sweep pxs r1 (D(px := rest)) = (hs, r', D')" "fs = map (Pair px) gs @ hs"
    using sweep_ConsD [OF Cons.prems] by blast
  from Cons.IH [OF h(1)] fill_queue_conserves [OF f] h(2) show ?case by (simp add: o_def)
qed simp

lemma sweep_fill_px: "sweep pxs r D = (fs, r', D') \<Longrightarrow> f \<in> set fs \<Longrightarrow> fst f \<in> set pxs"
  by (induction pxs arbitrary: r D fs) (fastforce dest!: sweep_ConsD)+

text \<open>The crossing prices run from the taker's best price to its limit.\<close>

lemma set_crossing:
  "set (crossing side mn mx p) = {q. mn \<le> q \<and> q \<le> mx \<and> \<not> better side q p}"
  by (cases side) auto

lemma distinct_crossing [simp]: "distinct (crossing side mn mx p)"
  by (cases side) auto

lemma better_fun: "better kSell = (<)" "better kBuy = (\<lambda>p q. q < p)"
  by (simp_all add: fun_eq_iff)

lemma sorted_crossing: "sorted_wrt (better (opposite side)) (crossing side mn mx p)"
  by (cases side) (simp_all add: better_fun sorted_wrt_rev)

lemma crossing_split:
  assumes "mn \<le> px" "px \<le> mx" "\<not> better side px p"
  obtains xs ys where "crossing side mn mx p = xs @ px # ys" "\<forall>q\<in>set xs. better (opposite side) q px"
    "px \<notin> set xs"
proof -
  have "px \<in> set (crossing side mn mx p)" using assms by (simp add: set_crossing)
  then obtain xs ys where s: "crossing side mn mx p = xs @ px # ys" by (meson split_list)
  have "\<forall>q\<in>set xs. better (opposite side) q px"
    using sorted_crossing [of side mn mx p] s by (simp add: sorted_wrt_append)
  moreover have "px \<notin> set xs" using distinct_crossing [of side mn mx p] s by simp
  ultimately show ?thesis using that s by blast
qed

text \<open>The makers hit at one price, and price priority: a price left populated ends the sweep.\<close>

lemma filter_map_Pair: "filter (\<lambda>f. fst f = q) (map (Pair px) fs) = (if px = q then map (Pair px) fs else [])"
  by (induction fs) auto

lemma sweep_at_price:
  "sweep pxs r D = (fs, r', D') \<Longrightarrow> distinct pxs \<Longrightarrow>
     \<exists>ri ro. fill_queue ri (D q) = (map snd (filter (\<lambda>f. fst f = q) fs), ro, D' q)"
proof (induction pxs arbitrary: r D fs)
  case Nil
  then show ?case by (intro exI [of _ 0]) simp
next
  case (Cons px pxs)
  obtain gs r1 rest hs where f: "fill_queue r (D px) = (gs, r1, rest)"
    and h: "sweep pxs r1 (D(px := rest)) = (hs, r', D')" "fs = map (Pair px) gs @ hs"
    using sweep_ConsD [OF Cons.prems(1)] by blast
  show ?case
  proof (cases "px = q")
    case True
    have "filter (\<lambda>f. fst f = q) hs = []"
      using sweep_fill_px [OF h(1)] Cons.prems(2) True by (auto simp: filter_empty_conv)
    moreover have "D' q = rest" using sweep_outside [OF h(1), of q] Cons.prems(2) True by simp
    ultimately show ?thesis using f h(2) True by (auto simp: filter_map_Pair o_def)
  next
    case False
    with Cons.IH [OF h(1)] Cons.prems(2) h(2) show ?thesis by (simp add: filter_map_Pair)
  qed
qed

lemma sweep_sorted:
  "sweep pxs r D = (fs, r', D') \<Longrightarrow> sorted_wrt P pxs \<Longrightarrow> (\<And>p. p \<in> set pxs \<Longrightarrow> P p p) \<Longrightarrow>
     sorted_wrt (\<lambda>f g. P (fst f) (fst g)) fs"
proof (induction pxs arbitrary: r D fs)
  case (Cons px pxs)
  obtain gs r1 rest hs where f: "fill_queue r (D px) = (gs, r1, rest)"
    and h: "sweep pxs r1 (D(px := rest)) = (hs, r', D')" "fs = map (Pair px) gs @ hs"
    using sweep_ConsD [OF Cons.prems(1)] by blast
  have "sorted_wrt (\<lambda>f g. P (fst f) (fst g)) (map (Pair px) gs)"
    using Cons.prems(3) [of px] by (simp add: sorted_wrt_map sorted_wrt_iff_nth_less)
  moreover have "\<forall>g\<in>set hs. P px (fst g)" using sweep_fill_px [OF h(1)] Cons.prems(2) by auto
  ultimately show ?case using Cons.IH [OF h(1)] Cons.prems(2,3) h(2) by (auto simp: sorted_wrt_append)
qed simp

lemma sweep_price_priority:
  "sweep pxs r D = (fs, r', D') \<Longrightarrow> sorted_wrt P pxs \<Longrightarrow> distinct pxs \<Longrightarrow> (\<And>p q. P p q \<Longrightarrow> \<not> P q p) \<Longrightarrow>
     f \<in> set fs \<Longrightarrow> q \<in> set pxs \<Longrightarrow> D' q \<noteq> [] \<Longrightarrow> \<not> P q (fst f)"
proof (induction pxs arbitrary: r D fs)
  case (Cons px pxs)
  obtain gs r1 rest hs where g: "fill_queue r (D px) = (gs, r1, rest)"
    and h: "sweep pxs r1 (D(px := rest)) = (hs, r', D')" "fs = map (Pair px) gs @ hs"
    using sweep_ConsD [OF Cons.prems(1)] by blast
  have irr: "\<not> P p p" for p using Cons.prems(4) [of p p] by blast
  show ?case
  proof (cases "q = px")
    case True
    then have "rest \<noteq> []" using sweep_outside [OF h(1), of px] Cons.prems(3,7) by auto
    then have "r1 = 0" using fill_queue_left [OF g] by blast
    then have "hs = []" using h(1) by simp
    then show ?thesis using Cons.prems(5) h(2) True irr by auto
  next
    case False
    then have q: "q \<in> set pxs" "P px q" using Cons.prems(2,6) by auto
    show ?thesis
    proof (cases "f \<in> set hs")
      case True
      with Cons.IH [OF h(1) _ _ Cons.prems(4) _ q(1) Cons.prems(7)] Cons.prems(2,3) show ?thesis by simp
    next
      case False
      then have "fst f = px" using Cons.prems(5) h(2) by auto
      with q(2) Cons.prems(4) show ?thesis by blast
    qed
  qed
qed simp

lemma sweep_empty: "sweep pxs r D = (fs, r', D') \<Longrightarrow> D px = [] \<Longrightarrow> D' px = []"
proof (induction pxs arbitrary: r D fs)
  case (Cons a pxs)
  from sweep_ConsD [OF Cons.prems(1)] obtain gs r1 rest hs where
    f: "fill_queue r (D a) = (gs, r1, rest)" "sweep pxs r1 (D(a := rest)) = (hs, r', D')" by blast
  have "(D(a := rest)) px = []" using f(1) Cons.prems(2) by (cases "a = px") auto
  from Cons.IH [OF f(2) this] show ?case .
qed simp

section \<open>The book stays uncrossed\<close>

definition uncrossed :: "depth \<Rightarrow> bool" where
  "uncrossed D \<longleftrightarrow> (\<forall>p q. D kBuy p \<noteq> [] \<and> D kSell q \<noteq> [] \<longrightarrow> p < q)"

definition in_band :: "Price \<Rightarrow> Price \<Rightarrow> depth \<Rightarrow> bool" where
  "in_band mn mx D \<longleftrightarrow> (\<forall>s p. D s p \<noteq> [] \<longrightarrow> mn \<le> p \<and> p \<le> mx)"

lemma uncrossed_better:
  "uncrossed D \<longleftrightarrow> (\<forall>p q. D side p \<noteq> [] \<and> D (opposite side) q \<noteq> [] \<longrightarrow> better side q p)"
  by (cases side) (auto simp: uncrossed_def)

lemma spec_add_uncrossed:
  assumes "spec_add mn mx cap i side px qty D = (ok, fills, D')" "uncrossed D" "in_band mn mx D"
  shows "uncrossed D'"
proof -
  obtain fs r D1 where sw: "sweep (crossing side mn mx px) qty (D (opposite side)) = (fs, r, D1)"
    by (cases "sweep (crossing side mn mx px) qty (D (opposite side))")
  let ?D2 = "D(opposite side := D1)"
  have sub: "D (opposite side) q \<noteq> []" if "D1 q \<noteq> []" for q
    using sweep_empty [OF sw, of q] that by blast
  have u2: "uncrossed ?D2"
    unfolding uncrossed_better [of _ side] using assms(2) [unfolded uncrossed_better [of D side]] sub by auto
  have cases: "D' = ?D2 \<or> r \<noteq> 0 \<and> D' = put_queue ?D2 side px (?D2 side px @ [(i, r)])"
    using assms(1) sw by (auto simp: spec_add_def Let_def split: if_splits)
  have "better side q px" if r: "r \<noteq> 0" and q: "D1 q \<noteq> []" for q
  proof -
    have "q \<notin> set (crossing side mn mx px)" using sweep_left [OF sw r] q by auto
    moreover have "mn \<le> q" "q \<le> mx" using sub [OF q] assms(3) by (auto simp: in_band_def)
    ultimately show ?thesis by (simp add: set_crossing)
  qed
  then show ?thesis
    using cases u2 unfolding uncrossed_better [of _ side] by (auto split: if_splits)
qed

lemma spec_cancel_unknown: "\<not> spec_resting i D \<Longrightarrow> spec_cancel i D = D"
  by (auto simp: spec_cancel_def spec_resting_def fun_eq_iff filter_id_conv)

lemma spec_cancel_uncrossed: "uncrossed D \<Longrightarrow> uncrossed (spec_cancel i D)"
  by (auto simp: uncrossed_def spec_cancel_def) (metis filter.simps(1))

section \<open>What one order does\<close>

lemma to_fill_simps [simp]:
  "fl_maker_id (to_fill i side f) = fst (snd f)" "fl_taker_id (to_fill i side f) = i"
  "fl_price (to_fill i side f) = fst f" "fl_qty (to_fill i side f) = snd (snd f)"
  "fl_taker_side (to_fill i side f) = side"
  by (simp_all add: to_fill_def)

lemma fill_queue_resting:
  "fill_queue r q = (fs, r', rest) \<Longrightarrow> (i, k) \<in> set rest \<Longrightarrow> \<exists>k'. (i, k') \<in> set q"
  using fill_queue_ids [of r q fs r' rest] by force

lemma sweep_resting:
  "sweep pxs r D = (fs, r', D') \<Longrightarrow> (i, k) \<in> set (D' px) \<Longrightarrow> \<exists>k'. (i, k') \<in> set (D px)"
proof (induction pxs arbitrary: r D fs)
  case (Cons a pxs)
  from sweep_ConsD [OF Cons.prems(1)] obtain gs r1 rest hs where
    f: "fill_queue r (D a) = (gs, r1, rest)" "sweep pxs r1 (D(a := rest)) = (hs, r', D')" by blast
  from Cons.IH [OF f(2) Cons.prems(2)] obtain k' where "(i, k') \<in> set ((D(a := rest)) px)" by blast
  then show ?case using fill_queue_resting [OF f(1)] by (auto split: if_splits)
qed auto

lemma spec_add_sweep:
  assumes "spec_add mn mx cap i side px qty D = (ok, fills, D')"
  obtains fs r D1 where "sweep (crossing side mn mx px) qty (D (opposite side)) = (fs, r, D1)"
    "fills = map (to_fill i side) fs" "D' (opposite side) = D1"
    "ok \<Longrightarrow> r = 0 \<Longrightarrow> D' side = D side"
    "ok \<Longrightarrow> r \<noteq> 0 \<Longrightarrow> D' side px = D side px @ [(i, r)]"
    "\<not> ok \<Longrightarrow> r \<noteq> 0 \<and> D' side = D side"
proof -
  obtain fs r D1 where sw: "sweep (crossing side mn mx px) qty (D (opposite side)) = (fs, r, D1)"
    by (cases "sweep (crossing side mn mx px) qty (D (opposite side))")
  show ?thesis
    by (rule that [OF sw]) (use assms sw in \<open>auto simp: spec_add_def Let_def split: if_splits\<close>)
qed

text \<open>The fills of a sweep over the crossing prices, as pairs of a price and a maker's entry.\<close>

lemma crossing_limit:
  "sweep (crossing side mn mx px) r D = (fs, r', D1) \<Longrightarrow> f \<in> set fs \<Longrightarrow> \<not> better side (fst f) px"
  using sweep_fill_px by (fastforce simp: set_crossing)

lemma crossing_order:
  assumes "sweep (crossing side mn mx px) r D = (fs, r', D1)"
  shows "sorted_wrt (\<lambda>f g. \<not> better (opposite side) (fst g) (fst f)) fs"
proof -
  have "sorted_wrt (\<lambda>p q. \<not> better (opposite side) q p) (crossing side mn mx px)"
    by (rule sorted_wrt_mono_rel [OF _ sorted_crossing]) (cases side, auto)
  then show ?thesis by (rule sweep_sorted [OF assms]) (cases side, simp_all)
qed

lemma crossing_fifo:
  assumes "sweep (crossing side mn mx px) r D = (fs, r', D1)"
  shows "\<exists>n. map (fst \<circ> snd) (filter (\<lambda>f. fst f = q) fs) = take n (map fst (D q))"
proof -
  obtain ri ro where "fill_queue ri (D q) = (map snd (filter (\<lambda>f. fst f = q) fs), ro, D1 q)"
    using sweep_at_price [OF assms distinct_crossing, of q] by blast
  from fill_queue_fifo [OF this]
  have "map fst (map snd (filter (\<lambda>f. fst f = q) fs))
      = take (length (map snd (filter (\<lambda>f. fst f = q) fs))) (map fst (D q))" by (rule conjunct1)
  then show ?thesis unfolding map_map by (rule exI)
qed

text \<open>A price with someone left is no better than any fill: it was visited before, or it does not
  cross.\<close>

lemma crossing_priority:
  assumes sw: "sweep (crossing side mn mx px) r D = (fs, r', D1)"
    and band: "\<And>q. D q \<noteq> [] \<Longrightarrow> mn \<le> q \<and> q \<le> mx" and q: "D1 q \<noteq> []" and f: "f \<in> set fs"
  shows "\<not> better (opposite side) q (fst f)"
proof (cases "q \<in> set (crossing side mn mx px)")
  case True
  from sweep_price_priority [OF sw sorted_crossing distinct_crossing _ f True q] show ?thesis
    by (cases side) auto
next
  case False
  have "D q \<noteq> []" using q sweep_empty [OF sw, of q] by auto
  then have "better side q px" using False band by (auto simp: set_crossing)
  with crossing_limit [OF sw f] show ?thesis by (cases side) auto
qed

text \<open>An order is refused for the two reasons the specification names.\<close>

lemma spec_add_false:
  assumes sp: "spec_add mn mx cap i side px qty D = (ok, fills, D')" and fresh: "\<not> spec_resting i D"
  shows "\<not> ok \<longleftrightarrow> sum_list (map (unat \<circ> fl_qty) fills) < unat qty
    \<and> (px < mn \<or> mx < px \<or> (\<not> spec_resting i D' \<and> cap \<le> order_total mn mx D'))"
proof -
  obtain fs r D1 where sw: "sweep (crossing side mn mx px) qty (D (opposite side)) = (fs, r, D1)"
    by (cases "sweep (crossing side mn mx px) qty (D (opposite side))")
  let ?D2 = "D(opposite side := D1)"
  have "fills = map (to_fill i side) fs" using sp sw by (auto simp: spec_add_def Let_def split: if_splits)
  then have "sum_list (map (unat \<circ> fl_qty) fills) + unat r = unat qty"
    using sweep_conserves [OF sw] by (simp add: o_def)
  then have lt: "sum_list (map (unat \<circ> fl_qty) fills) < unat qty \<longleftrightarrow> r \<noteq> 0"
    using unat_eq_zero [of r] by linarith
  have "\<not> spec_resting i ?D2"
    using fresh sweep_resting [OF sw] by (auto simp: spec_resting_def split: if_splits) metis
  moreover have "spec_resting i (put_queue ?D2 side px (?D2 side px @ [(i, r)]))"
    unfolding spec_resting_def by (intro exI [of _ side] exI [of _ px] exI [of _ r]) simp
  ultimately show ?thesis
    using sp sw lt by (auto simp: spec_add_def Let_def simp del: fun_upd_apply split: if_splits)
qed

end
