(* ===== verification/Book_Invariant.thy ===== *)
theory Book_Invariant imports Order_Book Book_Spec begin

text \<open>
  The invariant of the order book. \<open>F side px\<close> lists the nodes resting at a price, earliest
  first. \<open>core_inv\<close> ties the slab, the ladder, the links and the id index to \<open>F\<close>;
  \<open>touch_inv\<close> says that the incrementally maintained best price and live-level counter of a
  side are right. Each private helper of the book is shown to keep them.
\<close>

section \<open>Sides\<close>

fun best_px :: "OrderBook \<Rightarrow> Side \<Rightarrow> Price" where
  "best_px b kBuy = bk_best_bid_px b"
| "best_px b kSell = bk_best_ask_px b"

fun live_levels :: "OrderBook \<Rightarrow> Side \<Rightarrow> u64" where
  "live_levels b kBuy = bk_live_bid_levels b"
| "live_levels b kSell = bk_live_ask_levels b"

text \<open>Which update moves which field.\<close>

lemma levels_upd [simp]:
  "levels (b\<lparr>bk_slab := sl\<rparr>) = levels b" "levels (b\<lparr>bk_id_index := ix\<rparr>) = levels b"
  "levels (b\<lparr>bk_best_bid_px := p\<rparr>) = levels b" "levels (b\<lparr>bk_best_ask_px := p\<rparr>) = levels b"
  "levels (b\<lparr>bk_live_bid_levels := n\<rparr>) = levels b" "levels (b\<lparr>bk_live_ask_levels := n\<rparr>) = levels b"
  by (rule ext, rename_tac s, case_tac s; simp)+

lemma touch_upd [simp]:
  "best_px (b\<lparr>bk_slab := sl\<rparr>) = best_px b" "best_px (b\<lparr>bk_id_index := ix\<rparr>) = best_px b"
  "best_px (b\<lparr>bk_bid_levels := ls\<rparr>) = best_px b" "best_px (b\<lparr>bk_ask_levels := ls\<rparr>) = best_px b"
  "live_levels (b\<lparr>bk_slab := sl\<rparr>) = live_levels b" "live_levels (b\<lparr>bk_id_index := ix\<rparr>) = live_levels b"
  "live_levels (b\<lparr>bk_bid_levels := ls\<rparr>) = live_levels b"
  "live_levels (b\<lparr>bk_ask_levels := ls\<rparr>) = live_levels b"
  by (rule ext, rename_tac s, case_tac s; simp)+

section \<open>The invariants\<close>

type_synonym fifos = "Side \<Rightarrow> Price \<Rightarrow> ptr list"

definition heap :: "OrderBook \<Rightarrow> ptr \<Rightarrow> Order option" where
  "heap b = deref (bk_slab b)"

definition shape_inv :: "OrderBook \<Rightarrow> bool" where
  "shape_inv b \<longleftrightarrow> bk_min_price b \<le> bk_max_price b
     \<and> bk_max_price b - bk_min_price b + 1 < 2 ^ 63
     \<and> (\<forall>side. length (levels b side) = nat (bk_max_price b - bk_min_price b + 1))"

definition ladder_inv :: "OrderBook \<Rightarrow> fifos \<Rightarrow> bool" where
  "ladder_inv b F \<longleftrightarrow>
     (\<forall>side px. if InBand b px then level_rep (heap b) (levels b side ! Idx b px) (F side px)
                else F side px = [])"

definition orders_inv :: "OrderBook \<Rightarrow> fifos \<Rightarrow> bool" where
  "orders_inv b F \<longleftrightarrow>
     (\<forall>side px p. p \<in> set (F side px) \<longrightarrow>
        (\<exists>x. heap b p = Some x \<and> o_side x = side \<and> o_price x = px \<and> o_qty x \<noteq> 0))
     \<and> (\<forall>p. p \<in> live (bk_slab b) \<longrightarrow> (\<exists>side px. p \<in> set (F side px)))"

definition index_agrees :: "OrderBook \<Rightarrow> bool" where
  "index_agrees b \<longleftrightarrow> index_inv (bk_id_index b) \<and> sl_capacity (bk_slab b) < room (bk_id_index b)
     \<and> (\<forall>i p. contents (bk_id_index b) i = Some p \<longleftrightarrow> (\<exists>x. heap b p = Some x \<and> o_id x = i))"

definition core_inv :: "OrderBook \<Rightarrow> fifos \<Rightarrow> bool" where
  "core_inv b F \<longleftrightarrow> shape_inv b \<and> slab_inv (bk_slab b) \<and> ladder_inv b F \<and> orders_inv b F
     \<and> index_agrees b"

definition populated :: "fifos \<Rightarrow> Side \<Rightarrow> Price set" where
  "populated F side = {px. F side px \<noteq> []}"

definition touch_at :: "OrderBook \<Rightarrow> Side \<Rightarrow> Price set \<Rightarrow> bool" where
  "touch_at b side P \<longleftrightarrow> live_levels b side = of_nat (card P)
     \<and> (P \<noteq> {} \<longrightarrow> best_px b side \<in> P \<and> (\<forall>px\<in>P. \<not> better side px (best_px b side)))"

definition touch_inv :: "OrderBook \<Rightarrow> fifos \<Rightarrow> Side \<Rightarrow> bool" where
  "touch_inv b F side \<longleftrightarrow> touch_at b side (populated F side)"

definition book_rep :: "OrderBook \<Rightarrow> fifos \<Rightarrow> bool" where
  "book_rep b F \<longleftrightarrow> core_inv b F \<and> (\<forall>side. touch_inv b F side)"

definition book_inv :: "OrderBook \<Rightarrow> bool" where
  "book_inv b \<longleftrightarrow> (\<exists>F. book_rep b F)"

lemmas [rep_defs] = shape_inv_def ladder_inv_def orders_inv_def index_agrees_def

section \<open>Consequences\<close>

lemma core_invD:
  assumes "core_inv b F"
  shows "shape_inv b" "slab_inv (bk_slab b)" "ladder_inv b F" "orders_inv b F" "index_agrees b"
  using assms by (auto simp: core_inv_def)

lemma shape_length:
  "shape_inv b \<Longrightarrow> length (levels b side) = nat (bk_max_price b - bk_min_price b + 1)"
  by (simp add: shape_inv_def)

lemma Idx_less: "shape_inv b \<Longrightarrow> InBand b px \<Longrightarrow> Idx b px < length (levels b side)"
  by (auto simp: shape_inv_def Idx_def InBand_def)

lemma Idx_inj: "InBand b p \<Longrightarrow> InBand b q \<Longrightarrow> Idx b p = Idx b q \<longleftrightarrow> p = q"
  by (auto simp: Idx_def InBand_def)

lemma LevelAt_InBand:
  "shape_inv b \<Longrightarrow> InBand b px \<Longrightarrow> LevelAt b side px = Some (levels b side ! Idx b px)"
  by (simp add: LevelAt_def Idx_less)

lemma ladder_rep: "ladder_inv b F \<Longrightarrow> InBand b px \<Longrightarrow> level_rep (heap b) (levels b side ! Idx b px) (F side px)"
  by (auto simp: ladder_inv_def)

lemma ladder_out: "ladder_inv b F \<Longrightarrow> \<not> InBand b px \<Longrightarrow> F side px = []"
  by (auto simp: ladder_inv_def)

lemma ladder_band: "ladder_inv b F \<Longrightarrow> F side px \<noteq> [] \<Longrightarrow> InBand b px"
  using ladder_out by blast

lemma LevelAt_rep:
  assumes "core_inv b F" "InBand b px"
  shows "\<exists>lvl. LevelAt b side px = Some lvl \<and> level_rep (heap b) lvl (F side px)"
  using LevelAt_InBand [OF core_invD(1) [OF assms(1)] assms(2)]
    ladder_rep [OF core_invD(3) [OF assms(1)] assms(2)] by blast

lemma orders_invD:
  "orders_inv b F \<Longrightarrow> p \<in> set (F side px) \<Longrightarrow>
    \<exists>x. heap b p = Some x \<and> o_side x = side \<and> o_price x = px \<and> o_qty x \<noteq> 0"
  by (auto simp: orders_inv_def)

lemma orders_heap:
  assumes "core_inv b F" "heap b p = Some x"
  shows "p \<in> set (F (o_side x) (o_price x))" "o_qty x \<noteq> 0"
proof -
  have "p \<in> live (bk_slab b)"
    using assms pool.get_live [OF core_invD(2)] by (auto simp: heap_def)
  then obtain side px where s: "p \<in> set (F side px)"
    using core_invD(4) [OF assms(1)] by (auto simp: orders_inv_def)
  from orders_invD [OF core_invD(4) [OF assms(1)] s] assms(2) s
  show "p \<in> set (F (o_side x) (o_price x))" "o_qty x \<noteq> 0" by auto
qed

lemma live_heap:
  assumes "core_inv b F"
  shows "live (bk_slab b) = dom (heap b)"
proof
  show "live (bk_slab b) \<subseteq> dom (heap b)"
    using core_invD(4) [OF assms] by (fastforce simp: orders_inv_def)
  show "dom (heap b) \<subseteq> live (bk_slab b)"
    using pool.get_live [OF core_invD(2) [OF assms]] by (auto simp: heap_def)
qed

lemma fifo_distinct: "core_inv b F \<Longrightarrow> distinct (F side px)"
  by (cases "InBand b px")
    (use core_invD(3) [of b F] ladder_rep [of b F px side] ladder_out [of b F px side]
      level_repD(1) in auto)

text \<open>A node lies in one list only.\<close>

lemma fifo_disjoint:
  assumes "core_inv b F" "p \<in> set (F side px)" "p \<in> set (F side' px')"
  shows "side' = side \<and> px' = px"
  using orders_invD [OF core_invD(4) [OF assms(1)] assms(2)]
    orders_invD [OF core_invD(4) [OF assms(1)] assms(3)] by auto

text \<open>The id index never fills up.\<close>

lemma index_has_room:
  assumes "core_inv b F"
  shows "card (dom (contents (bk_id_index b))) < room (bk_id_index b)"
proof -
  let ?C = "contents (bk_id_index b)"
  note A = core_invD(5) [OF assms, unfolded index_agrees_def]
  have C: "\<exists>x. heap b p = Some x \<and> o_id x = i" if "?C i = Some p" for i p
    using A that by blast
  have "inj_on (\<lambda>i. the (?C i)) (dom ?C)"
  proof (rule inj_onI)
    fix i j assume "i \<in> dom ?C" "j \<in> dom ?C" "the (?C i) = the (?C j)"
    then obtain p where "?C i = Some p" "?C j = Some p" by auto
    with C [of i p] C [of j p] show "i = j" by auto
  qed
  moreover have "(\<lambda>i. the (?C i)) ` dom ?C \<subseteq> live (bk_slab b)"
  proof
    fix p assume "p \<in> (\<lambda>i. the (?C i)) ` dom ?C"
    then obtain i where "?C i = Some p" by auto
    with C [of i p] show "p \<in> live (bk_slab b)" using live_heap [OF assms] by auto
  qed
  ultimately have "card (dom ?C) \<le> card (live (bk_slab b))"
    using card_inj_on_le live_finite by blast
  also have "\<dots> \<le> sl_capacity (bk_slab b)"
    using pool.live_bounded [OF core_invD(2) [OF assms]] by simp
  finally show ?thesis using A by simp
qed

lemma populated_band:
  assumes "core_inv b F"
  shows "populated F side \<subseteq> {bk_min_price b..bk_max_price b}"
  using ladder_band [OF core_invD(3) [OF assms]] by (auto simp: populated_def InBand_def)

lemma populated_finite [simp]: "core_inv b F \<Longrightarrow> finite (populated F side)"
  by (rule finite_subset [OF populated_band]) auto

lemma populated_card:
  assumes "core_inv b F"
  shows "card (populated F side) < 2 ^ 63"
proof -
  have "card (populated F side) \<le> card {bk_min_price b..bk_max_price b}"
    by (rule card_mono [OF _ populated_band [OF assms]]) simp
  moreover have "nat (bk_max_price b - bk_min_price b + 1) < 2 ^ 63"
    using core_invD(1) [OF assms] by (simp add: shape_inv_def nat_less_iff)
  ultimately show ?thesis by (simp add: add.commute diff_add_eq)
qed

lemma of_nat_pos: "n < 2 ^ 64 \<Longrightarrow> (of_nat n :: u64) > 0 \<longleftrightarrow> n > 0"
  by (metis of_nat_0 unat_eq_zero unat_of_nat64 word_gt_0 neq0_conv)

lemma live_pos_iff:
  assumes "core_inv b F" "touch_inv b F side"
  shows "live_levels b side > 0 \<longleftrightarrow> populated F side \<noteq> {}"
proof -
  have "card (populated F side) < 2 ^ 64" using populated_card [OF assms(1), of side] by simp
  then show ?thesis
    using assms by (simp add: touch_inv_def touch_at_def of_nat_pos card_gt_0_iff)
qed

lemma best_populated:
  assumes "touch_inv b F side" "populated F side \<noteq> {}"
  shows "F side (best_px b side) \<noteq> []"
    and "F side px \<noteq> [] \<Longrightarrow> \<not> better side px (best_px b side)"
  using assms by (auto simp: touch_inv_def touch_at_def populated_def)

end
