(* ===== verification/Book_Steps.thy ===== *)
theory Book_Steps imports Book_Invariant begin

text \<open>
  What each private helper of the book does to the invariant: the touch maintenance
  (\<^verbatim>\<open>MarkLevelLive\<close>, \<^verbatim>\<open>MarkLevelEmptied\<close> and its scans), the
  write-back of one level, removing a node from the book, shrinking the head of a level and
  resting a new order.
\<close>

section \<open>Touch maintenance\<close>

text \<open>\<open>tracks b side P\<close>: the levels of the side that are not empty are those of \<open>P\<close>.\<close>

definition tracks :: "OrderBook \<Rightarrow> Side \<Rightarrow> Price set \<Rightarrow> bool" where
  "tracks b side P \<longleftrightarrow> P \<subseteq> {px. InBand b px}
     \<and> (\<forall>px. InBand b px \<longrightarrow> level_empty (levels b side ! Idx b px) \<longleftrightarrow> px \<notin> P)"

text \<open>\<open>touch_only side b b'\<close>: nothing but the best price and the live counter of the side moved.\<close>

definition touch_only :: "Side \<Rightarrow> OrderBook \<Rightarrow> OrderBook \<Rightarrow> bool" where
  "touch_only side b b' \<longleftrightarrow> bk_slab b' = bk_slab b \<and> bk_min_price b' = bk_min_price b
     \<and> bk_max_price b' = bk_max_price b \<and> levels b' = levels b \<and> bk_id_index b' = bk_id_index b
     \<and> (\<forall>s. s \<noteq> side \<longrightarrow> best_px b' s = best_px b s \<and> live_levels b' s = live_levels b s)"

lemma touch_onlyD:
  assumes "touch_only side b b'"
  shows "bk_slab b' = bk_slab b" "bk_min_price b' = bk_min_price b" "bk_max_price b' = bk_max_price b"
    "levels b' = levels b" "bk_id_index b' = bk_id_index b" "InBand b' = InBand b" "Idx b' = Idx b"
    "heap b' = heap b" "shape_inv b' = shape_inv b"
    "s \<noteq> side \<Longrightarrow> touch_at b' s P = touch_at b s P"
  using assms
  by (auto simp: touch_only_def InBand_def Idx_def heap_def shape_inv_def touch_at_def fun_eq_iff)

lemma touch_only_refl: "touch_only side b b"
  by (simp add: touch_only_def)

lemma ladder_inv_cong:
  "heap b' = heap b \<Longrightarrow> levels b' = levels b \<Longrightarrow> InBand b' = InBand b \<Longrightarrow> Idx b' = Idx b \<Longrightarrow>
    ladder_inv b' F = ladder_inv b F"
  by (simp only: ladder_inv_def)

lemma core_inv_touch_only: "touch_only side b b' \<Longrightarrow> core_inv b' F = core_inv b F"
  by (simp add: core_inv_def ladder_inv_def orders_inv_def index_agrees_def touch_onlyD)

lemma ladder_tracks: "ladder_inv b F \<Longrightarrow> tracks b side (populated F side)"
  unfolding tracks_def populated_def
  using ladder_band ladder_rep level_empty_iff by blast

lemma side_neq [simp]: "side \<noteq> kBuy \<longleftrightarrow> side = kSell" "side \<noteq> kSell \<longleftrightarrow> side = kBuy"
  by (cases side; simp)+

lemma scan_down_ok:
  assumes "\<exists>q. mn \<le> q \<and> q < p \<and> \<not> level_empty (ls ! nat (q - mn))" "p - mn \<le> int (length ls)"
  shows "\<exists>r. scan_down ls mn p = Some r \<and> mn \<le> r \<and> r < p \<and> \<not> level_empty (ls ! nat (r - mn))
    \<and> (\<forall>q. r < q \<and> q < p \<longrightarrow> level_empty (ls ! nat (q - mn)))"
  using assms
proof (induction ls mn p rule: scan_down.induct)
  case (1 ls mn p)
  have i: "mn \<le> p - 1" "nat (p - 1 - mn) < length ls" using 1(2,3) by auto
  show ?case
  proof (cases "level_empty (ls ! nat (p - 1 - mn))")
    case False
    with i show ?thesis by (auto simp: scan_down.simps [of ls mn p])
  next
    case True
    have "\<exists>q. mn \<le> q \<and> q < p - 1 \<and> \<not> level_empty (ls ! nat (q - mn))"
    proof -
      from 1(2) obtain q where q: "mn \<le> q" "q < p" "\<not> level_empty (ls ! nat (q - mn))" by blast
      with True have "q \<noteq> p - 1" by auto
      with q show ?thesis by (intro exI [of _ q]) simp
    qed
    with 1(1) [of "ls ! nat (p - 1 - mn)"] i True 1(3) obtain r where
      r: "scan_down ls mn (p - 1) = Some r" "mn \<le> r" "r < p - 1" "\<not> level_empty (ls ! nat (r - mn))"
        "\<forall>q. r < q \<and> q < p - 1 \<longrightarrow> level_empty (ls ! nat (q - mn))" by auto
    have "level_empty (ls ! nat (q - mn))" if "r < q" "q < p" for q
      using r(5) True that by (cases "q = p - 1") auto
    with r i True show ?thesis by (auto simp: scan_down.simps [of ls mn p])
  qed
qed

lemma scan_up_ok:
  assumes "\<exists>q. p < q \<and> nat (q - mn) < length ls \<and> \<not> level_empty (ls ! nat (q - mn))" "mn \<le> p + 1"
  shows "\<exists>r. scan_up ls mn p = Some r \<and> p < r \<and> nat (r - mn) < length ls
    \<and> \<not> level_empty (ls ! nat (r - mn)) \<and> (\<forall>q. p < q \<and> q < r \<longrightarrow> level_empty (ls ! nat (q - mn)))"
  using assms
proof (induction ls mn p rule: scan_up.induct)
  case (1 ls mn p)
  have i: "\<not> p + 1 < mn" "nat (p + 1 - mn) < length ls" using 1(2,3) by auto
  show ?case
  proof (cases "level_empty (ls ! nat (p + 1 - mn))")
    case False
    with i show ?thesis by (auto simp: scan_up.simps [of ls mn p])
  next
    case True
    have "\<exists>q. p + 1 < q \<and> nat (q - mn) < length ls \<and> \<not> level_empty (ls ! nat (q - mn))"
    proof -
      from 1(2) obtain q where q: "p < q" "nat (q - mn) < length ls"
        "\<not> level_empty (ls ! nat (q - mn))" by blast
      with True have "q \<noteq> p + 1" by auto
      with q show ?thesis by (intro exI [of _ q]) simp
    qed
    with 1(1) [of "ls ! nat (p + 1 - mn)"] i True 1(3) obtain r where
      r: "scan_up ls mn (p + 1) = Some r" "p + 1 < r" "nat (r - mn) < length ls"
        "\<not> level_empty (ls ! nat (r - mn))"
        "\<forall>q. p + 1 < q \<and> q < r \<longrightarrow> level_empty (ls ! nat (q - mn))" by auto
    have "level_empty (ls ! nat (q - mn))" if "p < q" "q < r" for q
      using r(5) True that by (cases "q = p + 1") auto
    with r i True show ?thesis by (auto simp: scan_up.simps [of ls mn p])
  qed
qed

lemma of_nat_pos_set: "finite P \<Longrightarrow> card P < 2 ^ 64 \<Longrightarrow> (0 < (of_nat (card P) :: u64)) \<longleftrightarrow> P \<noteq> {}"
  by (simp add: of_nat_pos card_gt_0_iff)

text \<open>The scans find the next populated price, from a level of the side that has just emptied.\<close>

lemma tracksD:
  assumes "tracks b side P"
  shows "q \<in> P \<Longrightarrow> InBand b q" "q \<in> P \<Longrightarrow> \<not> level_empty (levels b side ! Idx b q)"
    "InBand b q \<Longrightarrow> \<not> level_empty (levels b side ! Idx b q) \<Longrightarrow> q \<in> P"
  using assms by (auto simp: tracks_def)

lemma scan_down_next:
  assumes sh: "shape_inv b" and tr: "tracks b kBuy P" and px: "InBand b px"
    and P: "P \<noteq> {}" "\<And>q. q \<in> P \<Longrightarrow> q < px"
  shows "\<exists>r. scan_down (bk_bid_levels b) (bk_min_price b) px = Some r \<and> r \<in> P \<and> (\<forall>q\<in>P. \<not> r < q)"
proof -
  note T = tracksD [OF tr]
  from P(1) obtain q0 where q0: "q0 \<in> P" by blast
  have "int (length (bk_bid_levels b)) = bk_max_price b - bk_min_price b + 1"
    using sh by (auto simp: shape_inv_def dest: spec [of _ kBuy])
  with scan_down_ok [of "bk_min_price b" px "bk_bid_levels b"] T(1,2) [OF q0] P(2) [OF q0] px obtain r where
    r: "scan_down (bk_bid_levels b) (bk_min_price b) px = Some r"
      "bk_min_price b \<le> r" "r < px" "\<not> level_empty (bk_bid_levels b ! nat (r - bk_min_price b))"
      "\<forall>q. r < q \<and> q < px \<longrightarrow> level_empty (bk_bid_levels b ! nat (q - bk_min_price b))"
    by (auto simp: Idx_def InBand_def)
  have "r \<in> P" using T(3) [of r] r(2-4) px by (simp add: InBand_def Idx_def)
  moreover have "\<not> r < q" if "q \<in> P" for q using T(2) [OF that] P(2) [OF that] r(5) by (auto simp: Idx_def)
  ultimately show ?thesis using r(1) by blast
qed

lemma scan_up_next:
  assumes sh: "shape_inv b" and tr: "tracks b kSell P" and px: "InBand b px"
    and P: "P \<noteq> {}" "\<And>q. q \<in> P \<Longrightarrow> px < q"
  shows "\<exists>r. scan_up (bk_ask_levels b) (bk_min_price b) px = Some r \<and> r \<in> P \<and> (\<forall>q\<in>P. \<not> q < r)"
proof -
  note T = tracksD [OF tr]
  from P(1) obtain q0 where q0: "q0 \<in> P" by blast
  have len: "int (length (bk_ask_levels b)) = bk_max_price b - bk_min_price b + 1"
    using sh by (auto simp: shape_inv_def dest: spec [of _ kSell])
  then have "\<exists>q. px < q \<and> nat (q - bk_min_price b) < length (bk_ask_levels b)
      \<and> \<not> level_empty (bk_ask_levels b ! nat (q - bk_min_price b))"
    using T(1,2) [OF q0] P(2) [OF q0] by (intro exI [of _ q0]) (simp add: Idx_def InBand_def nat_less_iff)
  from scan_up_ok [OF this] px obtain r where r: "scan_up (bk_ask_levels b) (bk_min_price b) px = Some r"
    "px < r" "nat (r - bk_min_price b) < length (bk_ask_levels b)"
    "\<not> level_empty (bk_ask_levels b ! nat (r - bk_min_price b))"
    "\<forall>q. px < q \<and> q < r \<longrightarrow> level_empty (bk_ask_levels b ! nat (q - bk_min_price b))"
    by (auto simp: InBand_def)
  have "r \<in> P" using T(3) [of r] r(2-4) px len by (simp add: InBand_def Idx_def)
  moreover have "\<not> q < r" if "q \<in> P" for q using T(2) [OF that] P(2) [OF that] r(5) by (auto simp: Idx_def)
  ultimately show ?thesis using r(1) by blast
qed

text \<open>The book with the counter of the side decremented and its best price set.\<close>

fun struck_off :: "Side \<Rightarrow> Price \<Rightarrow> OrderBook \<Rightarrow> OrderBook" where
  "struck_off kBuy r b = b\<lparr>bk_live_bid_levels := bk_live_bid_levels b - 1, bk_best_bid_px := r\<rparr>"
| "struck_off kSell r b = b\<lparr>bk_live_ask_levels := bk_live_ask_levels b - 1, bk_best_ask_px := r\<rparr>"

lemma struck_off:
  "touch_only side b (struck_off side r b)" "best_px (struck_off side r b) side = r"
  "live_levels (struck_off side r b) side = live_levels b side - 1"
  by (cases side; auto simp: touch_only_def fun_eq_iff split: Side.splits)+

lemma MarkLevelEmptied_run:
  assumes sh: "shape_inv b" and tr: "tracks b side P" and px: "InBand b px" "px \<notin> P"
    and best: "\<And>q. q \<in> P \<Longrightarrow> \<not> better side q (best_px b side)"
    and live: "0 < live_levels b side - 1 \<longleftrightarrow> P \<noteq> {}"
  shows "\<exists>r. MarkLevelEmptied side px b = Some (struck_off side r b)
    \<and> (if P \<noteq> {} \<and> px = best_px b side then r \<in> P \<and> (\<forall>q\<in>P. \<not> better side q r) else r = best_px b side)"
proof (cases "P \<noteq> {} \<and> px = best_px b side")
  case False
  then show ?thesis using live by (cases side) (auto simp: Let_def intro!: exI [of _ "best_px b side"])
next
  case True
  have other: "q \<noteq> px" if "q \<in> P" for q using that px(2) by blast
  show ?thesis
  proof (cases side)
    case kBuy
    have "q < px" if "q \<in> P" for q using best [OF that] other [OF that] True kBuy by auto
    with scan_down_next [OF sh tr [unfolded kBuy] px(1)] True obtain r where
      "scan_down (bk_bid_levels b) (bk_min_price b) px = Some r" "r \<in> P" "\<forall>q\<in>P. \<not> r < q" by blast
    then show ?thesis using True live kBuy by (intro exI [of _ r]) (simp add: Let_def)
  next
    case kSell
    have "px < q" if "q \<in> P" for q using best [OF that] other [OF that] True kSell by auto
    with scan_up_next [OF sh tr [unfolded kSell] px(1)] True obtain r where
      "scan_up (bk_ask_levels b) (bk_min_price b) px = Some r" "r \<in> P" "\<forall>q\<in>P. \<not> q < r" by blast
    then show ?thesis using True live kSell by (intro exI [of _ r]) (simp add: Let_def)
  qed
qed

lemma MarkLevelEmptied_ok:
  assumes sh: "shape_inv b" and tr: "tracks b side P" and px: "InBand b px" "px \<notin> P"
    and fin: "finite P" "card P < 2 ^ 63" and tch: "touch_at b side (insert px P)"
  shows "\<exists>b'. MarkLevelEmptied side px b = Some b' \<and> touch_only side b b' \<and> touch_at b' side P"
proof -
  have ps: "(0 < (of_nat (card P) :: u64)) \<longleftrightarrow> P \<noteq> {}" by (rule of_nat_pos_set) (use fin in simp_all)
  have lv: "live_levels b side - 1 = of_nat (card P)" using tch fin px(2) by (simp add: touch_at_def)
  have bt: "best_px b side \<in> insert px P" "\<And>q. q \<in> P \<Longrightarrow> \<not> better side q (best_px b side)"
    using tch by (auto simp: touch_at_def)
  from MarkLevelEmptied_run [OF sh tr px bt(2)] lv ps obtain r where
    r: "MarkLevelEmptied side px b = Some (struck_off side r b)"
      "if P \<noteq> {} \<and> px = best_px b side then r \<in> P \<and> (\<forall>q\<in>P. \<not> better side q r) else r = best_px b side"
    by auto
  have "touch_at (struck_off side r b) side P"
    using r(2) bt lv by (auto simp: touch_at_def struck_off split: if_splits)
  with r(1) struck_off(1) show ?thesis by blast
qed

lemma MarkLevelLive_ok:
  assumes "touch_at b side P" "finite P" "card P < 2 ^ 64" "px \<notin> P"
  shows "touch_only side b (MarkLevelLive side px b)"
    and "touch_at (MarkLevelLive side px b) side (insert px P)"
proof -
  have ps: "(0 < live_levels b side) \<longleftrightarrow> P \<noteq> {}"
    using of_nat_pos_set [OF assms(2,3)] assms(1) by (simp add: touch_at_def)
  then have z: "live_levels b side = 0 \<longleftrightarrow> P = {}"
    using word_gt_0 [of "live_levels b side"] by metis
  show "touch_only side b (MarkLevelLive side px b)"
    by (cases side) (auto simp: touch_only_def Let_def fun_eq_iff)
  show "touch_at (MarkLevelLive side px b) side (insert px P)"
    using assms z by (cases side) (auto simp: touch_at_def Let_def)
qed

section \<open>Writing one level back\<close>

abbreviation put_fifo :: "fifos \<Rightarrow> Side \<Rightarrow> Price \<Rightarrow> ptr list \<Rightarrow> fifos" where
  "put_fifo F side px ps \<equiv> F(side := (F side)(px := ps))"

definition level_write :: "Side \<Rightarrow> Price \<Rightarrow> LevelFIFO \<Rightarrow> OrderBook \<Rightarrow> OrderBook \<Rightarrow> bool" where
  "level_write side px lvl b b' \<longleftrightarrow> bk_slab b' = bk_slab b \<and> bk_id_index b' = bk_id_index b
     \<and> bk_min_price b' = bk_min_price b \<and> bk_max_price b' = bk_max_price b
     \<and> best_px b' = best_px b \<and> live_levels b' = live_levels b
     \<and> levels b' = (levels b)(side := (levels b side)[Idx b px := lvl])"

lemma level_writeD:
  assumes "level_write side px lvl b b'"
  shows "bk_slab b' = bk_slab b" "bk_id_index b' = bk_id_index b" "bk_min_price b' = bk_min_price b"
    "bk_max_price b' = bk_max_price b" "best_px b' = best_px b" "live_levels b' = live_levels b"
    "levels b' = (levels b)(side := (levels b side)[Idx b px := lvl])" "heap b' = heap b"
    "InBand b' = InBand b" "Idx b' = Idx b" "touch_at b' = touch_at b"
  using assms by (auto simp: level_write_def heap_def InBand_def Idx_def touch_at_def fun_eq_iff)

lemma set_level_ok:
  assumes "shape_inv b" "InBand b px"
  shows "\<exists>b'. set_level b side px lvl = Some b' \<and> level_write side px lvl b b'"
proof (cases side)
  case kBuy
  let ?b = "b\<lparr>bk_bid_levels := (bk_bid_levels b)[Idx b px := lvl]\<rparr>"
  have "levels ?b s = ((levels b)(kBuy := (levels b kBuy)[Idx b px := lvl])) s" for s
    by (cases s) simp_all
  then have "level_write kBuy px lvl b ?b" by (simp add: level_write_def fun_eq_iff)
  then show ?thesis using kBuy Idx_less [OF assms, of kBuy] by simp
next
  case kSell
  let ?b = "b\<lparr>bk_ask_levels := (bk_ask_levels b)[Idx b px := lvl]\<rparr>"
  have "levels ?b s = ((levels b)(kSell := (levels b kSell)[Idx b px := lvl])) s" for s
    by (cases s) simp_all
  then have "level_write kSell px lvl b ?b" by (simp add: level_write_def fun_eq_iff)
  then show ?thesis using kSell Idx_less [OF assms, of kSell] by simp
qed

text \<open>\<open>base\<close> is the book the level is written to: the old ladder with a new slab and index.\<close>

definition same_ladder :: "OrderBook \<Rightarrow> OrderBook \<Rightarrow> bool" where
  "same_ladder b base \<longleftrightarrow> levels base = levels b \<and> bk_min_price base = bk_min_price b
     \<and> bk_max_price base = bk_max_price b"

lemma same_ladderD:
  assumes "same_ladder b base"
  shows "levels base = levels b" "InBand base = InBand b" "Idx base = Idx b" "shape_inv base = shape_inv b"
  using assms by (auto simp: same_ladder_def InBand_def Idx_def shape_inv_def fun_eq_iff)

lemma ladder_step:
  assumes inv: "core_inv b F" "InBand b px" and base: "same_ladder b base"
    and W: "level_write side px lvl base b'"
    and R: "level_rep (heap base) lvl ps"
    and fr: "\<And>s q p. (s, q) \<noteq> (side, px) \<Longrightarrow> p \<in> set (F s q) \<Longrightarrow> heap base p = heap b p"
  shows "shape_inv b'" "ladder_inv b' (put_fifo F side px ps)"
proof -
  note B = same_ladderD [OF base] and w = level_writeD [OF W] and c = core_invD [OF inv(1)]
  have "length (levels b' s) = length (levels b s)" for s
    using B(1) w(7) by simp
  then show sh: "shape_inv b'"
    using c(1) w(3,4) base by (simp add: shape_inv_def same_ladder_def)
  show "ladder_inv b' (put_fifo F side px ps)"
    unfolding ladder_inv_def
  proof (intro allI)
    fix s q
    show "if InBand b' q then level_rep (heap b') (levels b' s ! Idx b' q) (put_fifo F side px ps s q)
      else put_fifo F side px ps s q = []"
    proof (cases "(s, q) = (side, px)")
      case True
      then show ?thesis using R inv(2) B w Idx_less [OF c(1) inv(2)] by simp
    next
      case False
      have same: "put_fifo F side px ps s q = F s q" using False by auto
      show ?thesis
      proof (cases "InBand b q")
        case True
        have "levels b' s ! Idx b' q = levels b s ! Idx b q"
          using False True inv(2) B w Idx_inj [of b q px] by (auto simp: nth_list_update_neq)
        moreover have "level_rep (heap b') (levels b s ! Idx b q) (F s q)"
          using level_rep_frame [of "F s q" "heap b'" "heap b"] fr [OF False] w(8)
            ladder_rep [OF c(3) True] by simp
        ultimately show ?thesis using same B w True by simp
      next
        case out: False
        then show ?thesis using same B w ladder_out [OF c(3) out] by simp
      qed
    qed
  qed
qed

text \<open>A level with relinked nodes is written back to a book that has their new slab.\<close>

lemma write_level:
  assumes C: "core_inv b F" "InBand b px" and rep: "level_rep (deref sl) lvl ps"
    and fr: "\<forall>s q r. (s, q) \<noteq> (side, px) \<longrightarrow> r \<in> set (F s q) \<longrightarrow> deref sl r = heap b r"
  shows "\<exists>b1. set_level (b\<lparr>bk_slab := sl\<rparr>) side px lvl = Some b1
    \<and> level_write side px lvl (b\<lparr>bk_slab := sl\<rparr>) b1 \<and> shape_inv b1 \<and> ladder_inv b1 (put_fifo F side px ps)
    \<and> heap b1 = deref sl"
proof -
  let ?base = "b\<lparr>bk_slab := sl\<rparr>"
  have base: "same_ladder b ?base" and hb: "heap ?base = deref sl"
    by (simp_all add: same_ladder_def heap_def)
  obtain b1 where b1: "set_level ?base side px lvl = Some b1" "level_write side px lvl ?base b1"
    using set_level_ok [of ?base px side] core_invD(1) [OF C(1)] C(2) same_ladderD [OF base] by auto
  have "shape_inv b1" "ladder_inv b1 (put_fifo F side px ps)"
    by (rule ladder_step [OF C base b1(2) rep [folded hb]]; use fr hb in metis)+
  with b1 level_writeD(8) [OF b1(2)] hb show ?thesis by metis
qed

text \<open>The touch after a level has lost nodes: an emptied level is struck off.\<close>

lemma populated_put [simp]:
  "populated (put_fifo F side px ps) s =
     (if s \<noteq> side then populated F s
      else if ps = [] then populated F side - {px} else insert px (populated F side))"
  by (auto simp: populated_def)

lemma emptied_touch:
  assumes C: "core_inv b F" and T: "\<And>s. touch_inv b F s" and ne: "F side px \<noteq> []"
    and b1: "shape_inv b1" "ladder_inv b1 (put_fifo F side px ps)" "touch_at b1 = touch_at b" "InBand b1 = InBand b"
    and le: "level_empty lvl \<longleftrightarrow> ps = []"
  shows "\<exists>b2. (if level_empty lvl then MarkLevelEmptied side px b1 else Some b1) = Some b2
    \<and> touch_only side b1 b2 \<and> (\<forall>s. touch_inv b2 (put_fifo F side px ps) s)"
proof (cases "ps = []")
  case False
  have "insert px (populated F side) = populated F side" using ne by (auto simp: populated_def)
  with False T b1(3) have "touch_inv b1 (put_fifo F side px ps) s" for s by (simp add: touch_inv_def)
  with False le touch_only_refl show ?thesis by auto
next
  case True
  let ?F = "put_fifo F side px ps"
  let ?P = "populated ?F side"
  have P: "?P = populated F side - {px}" using True by simp
  then have ins: "insert px ?P = populated F side" using ne by (auto simp: populated_def)
  have fin: "finite ?P" "card ?P < 2 ^ 63"
    using populated_finite [OF C, of side] populated_card [OF C, of side]
      card_mono [OF populated_finite [OF C, of side], of ?P] unfolding P by auto
  have "touch_at b1 side (insert px ?P)" using T [of side] b1(3) unfolding ins by (simp add: touch_inv_def)
  from MarkLevelEmptied_ok [OF b1(1) ladder_tracks [OF b1(2)] _ _ fin this] P
    ladder_band [OF core_invD(3) [OF C] ne] b1(4) obtain b2 where
    m: "MarkLevelEmptied side px b1 = Some b2" "touch_only side b1 b2" "touch_at b2 side ?P" by auto
  have "touch_inv b2 ?F s" for s
    using m(3) touch_onlyD(10) [OF m(2)] T [of s] b1(3) by (cases "s = side") (simp_all add: touch_inv_def)
  with m(1,2) le True show ?thesis by auto
qed

text \<open>Nodes of other levels are not in \<open>A\<close>.\<close>

lemma other_level_frame:
  assumes "core_inv b F" "links_moved A (bk_slab b) sl" "A \<subseteq> set (F side px)"
    "(s, q) \<noteq> (side, px)" "p \<in> set (F s q)"
  shows "deref sl p = heap b p"
proof -
  have "p \<notin> A" using assms(3,4,5) fifo_disjoint [OF assms(1), of p s q side px] by auto
  with links_movedD(5) [OF assms(2)] show ?thesis by (simp add: heap_def)
qed

section \<open>Removing a node\<close>

lemma datum_Some: "datum h p = Some (i, px, q, s) \<longleftrightarrow>
    (\<exists>x. h p = Some x \<and> o_id x = i \<and> o_price x = px \<and> o_qty x = q \<and> o_side x = s)"
  by (auto simp: datum_def)

lemma orders_inv_datum:
  "orders_inv b F \<longleftrightarrow>
     (\<forall>side px p. p \<in> set (F side px) \<longrightarrow> (\<exists>i q. datum (heap b) p = Some (i, px, q, side) \<and> q \<noteq> 0))
     \<and> (\<forall>p. p \<in> live (bk_slab b) \<longrightarrow> (\<exists>side px. p \<in> set (F side px)))"
  unfolding orders_inv_def datum_Some by (rule arg_cong2 [where f = conj]) blast+

lemma index_agrees_datum:
  "index_agrees b \<longleftrightarrow> index_inv (bk_id_index b) \<and> sl_capacity (bk_slab b) < room (bk_id_index b)
     \<and> (\<forall>i p. contents (bk_id_index b) i = Some p
          \<longleftrightarrow> (\<exists>px q s. datum (heap b) p = Some (i, px, q, s)))"
  unfolding index_agrees_def datum_Some by blast

text \<open>The orders and the index when a node leaves the book.\<close>

lemma orders_drop:
  assumes C: "core_inv b F" and p: "heap b p = Some x" and fs: "F (o_side x) (o_price x) = xs @ p # ys"
    and F': "F' = put_fifo F (o_side x) (o_price x) (xs @ ys)"
    and b': "datum (heap b') = (datum (heap b))(p := None)" "live (bk_slab b') = live (bk_slab b) - {p}"
  shows "p \<notin> set (F' s q)" "orders_inv b' F'"
proof -
  have c: "orders_inv b F" using core_invD(4) [OF C] .
  have notp: "p \<notin> set (F' s q)" for s q
    using F' fs fifo_distinct [OF C, of "o_side x" "o_price x"]
      fifo_disjoint [OF C, of p s q "o_side x" "o_price x"] by auto
  then show "p \<notin> set (F' s q)" .
  have sub: "set (F' s q) \<subseteq> set (F s q)" for s q using F' fs by auto
  show "orders_inv b' F'"
    unfolding orders_inv_datum b'
  proof (intro conjI allI impI)
    fix s q r assume r: "r \<in> set (F' s q)"
    then have "r \<noteq> p" using notp by blast
    with r sub [of s q] c
    show "\<exists>i k. ((datum (heap b))(p := None)) r = Some (i, q, k, s) \<and> k \<noteq> 0"
      by (auto simp: orders_inv_datum)
  next
    fix r assume "r \<in> live (bk_slab b) - {p}"
    moreover then obtain s q where "r \<in> set (F s q)" using c by (auto simp: orders_inv_def)
    ultimately have "r \<in> set (F' s q)" using fs F' by auto
    then show "\<exists>s q. r \<in> set (F' s q)" by blast
  qed
qed

lemma index_drop:
  assumes C: "core_inv b F" and x: "heap b p = Some x"
    and b': "datum (heap b') = (datum (heap b))(p := None)" "sl_capacity (bk_slab b') = sl_capacity (bk_slab b)"
    and ix: "index_inv (bk_id_index b')" "contents (bk_id_index b') = (contents (bk_id_index b))(o_id x := None)"
      "room (bk_id_index b') = room (bk_id_index b)"
  shows "index_agrees b'"
proof -
  have A: "contents (bk_id_index b) j = Some u \<longleftrightarrow> (\<exists>px q s. datum (heap b) u = Some (j, px, q, s))" for j u
    using core_invD(5) [OF C] by (simp add: index_agrees_datum)
  have ip: "contents (bk_id_index b) (o_id x) = Some p" using A x by (simp add: datum_def)
  have "contents (bk_id_index b') i = Some r \<longleftrightarrow> (\<exists>px q s. datum (heap b') r = Some (i, px, q, s))" for i r
    unfolding ix(2) b'(1) using A [of i r] A [of i p] ip x by (auto simp: datum_def)
  then show ?thesis using ix(1,3) b'(2) core_invD(5) [OF C] by (simp add: index_agrees_datum)
qed

lemma drop_node:
  assumes C: "core_inv b F" and x: "heap b p = Some x" and fs: "F (o_side x) (o_price x) = xs @ p # ys"
    and F': "F' = put_fifo F (o_side x) (o_price x) (xs @ ys)"
    and sh: "shape_inv b1" and lad: "ladder_inv b1 F'"
    and sl: "slab_inv (bk_slab b1)" "live (bk_slab b1) = live (bk_slab b)"
      "sl_capacity (bk_slab b1) = sl_capacity (bk_slab b)"
    and dat: "\<And>q. q \<noteq> p \<Longrightarrow> datum (heap b1) q = datum (heap b) q"
    and ix: "index_inv ix" "contents ix = (contents (bk_id_index b))(o_id x := None)"
      "room ix = room (bk_id_index b)"
  shows "\<exists>sl2. Deallocate (Some p) (bk_slab b1) = Some sl2 \<and> sl_capacity sl2 = sl_capacity (bk_slab b)
    \<and> datum (deref sl2) = (datum (heap b))(p := None)
    \<and> core_inv (b1\<lparr>bk_slab := sl2, bk_id_index := ix\<rparr>) F'"
proof -
  have pl: "p \<in> live (bk_slab b1)" using x sl(2) live_heap [OF C] by auto
  from pool.free_live [OF sl(1) pl] obtain sl2 where
    d: "Deallocate (Some p) (bk_slab b1) = Some sl2" "live sl2 = live (bk_slab b) - {p}"
      "slab_inv sl2" "sl_capacity sl2 = sl_capacity (bk_slab b)" using sl by auto
  have fr: "deref sl2 q = heap b1 q" if "q \<noteq> p" for q
    using pool.free_frame [OF sl(1) pl d(1) that] by (simp add: heap_def)
  have "deref sl2 p = None" using pool.get_live [OF d(3), of p] d(2) by (cases "deref sl2 p") auto
  then have dd: "datum (deref sl2) = (datum (heap b))(p := None)"
    using fr dat by (auto simp: datum_def fun_eq_iff)
  let ?b = "b1\<lparr>bk_slab := sl2, bk_id_index := ix\<rparr>"
  have hb: "heap ?b = deref sl2" by (simp add: heap_def)
  have b: "datum (heap ?b) = (datum (heap b))(p := None)" "live (bk_slab ?b) = live (bk_slab b) - {p}"
    using dd d(2) hb by simp_all
  note od = orders_drop [OF C x fs F' b]
  have "level_rep (heap ?b) l (F' s q) = level_rep (heap b1) l (F' s q)" for l s q
    by (rule level_rep_frame) (use fr od(1) hb in metis)
  moreover have "InBand ?b = InBand b1" "Idx ?b = Idx b1" by (simp_all add: InBand_def Idx_def fun_eq_iff)
  ultimately have "ladder_inv ?b F'" using lad unfolding ladder_inv_def by simp
  moreover have "index_agrees ?b" by (rule index_drop [OF C x b(1)]) (use d(4) ix in simp_all)
  moreover have "shape_inv ?b" using sh by (simp add: shape_inv_def)
  ultimately have "core_inv ?b F'" using d(3) od(2) by (simp add: core_inv_def)
  with d(1,4) dd show ?thesis by blast
qed

section \<open>Shrinking the head, resting an order\<close>

text \<open>Taking \<open>fill\<close> off the head of a level and off the level's total.\<close>

abbreviation less_qty :: "Quantity \<Rightarrow> Order \<Rightarrow> Order" where
  "less_qty fill x \<equiv> x\<lparr>o_qty := o_qty x - fill\<rparr>"

abbreviation less_total :: "Quantity \<Rightarrow> LevelFIFO \<Rightarrow> LevelFIFO" where
  "less_total fill lvl \<equiv> lvl\<lparr>lv_total_qty := lv_total_qty lvl - fill\<rparr>"

lemma fifo_band: "core_inv b F \<Longrightarrow> F side px = p # ps \<Longrightarrow> InBand b px"
  using ladder_band [OF core_invD(3), of b F side px] by simp

lemma assign_qty:
  assumes C: "core_inv b F" and fs: "F side px = p # ps" and x: "heap b p = Some x"
    and L: "LevelAt b side px = Some lvl"
  shows "\<exists>sl. assign p (less_qty fill x) (bk_slab b) = Some sl \<and> slab_inv sl
    \<and> live sl = live (bk_slab b) \<and> sl_capacity sl = sl_capacity (bk_slab b)
    \<and> deref sl = (heap b)(p \<mapsto> less_qty fill x) \<and> level_rep (deref sl) (less_total fill lvl) (p # ps)"
proof -
  let ?x = "less_qty fill x"
  have rep: "level_rep (heap b) lvl (p # ps)"
    using LevelAt_rep [OF C fifo_band [OF C fs], of side] L fs by simp
  note D = level_repD [OF rep]
  from assign_ok [OF core_invD(2) [OF C], of p x ?x] x obtain sl where
    sl: "assign p ?x (bk_slab b) = Some sl" "slab_inv sl" "live sl = live (bk_slab b)"
      "sl_capacity sl = sl_capacity (bk_slab b)" "deref sl = (heap b)(p \<mapsto> ?x)"
    by (auto simp: heap_def)
  have n: "nextf (deref sl) = nextf (heap b)" "prevf (deref sl) = prevf (heap b)"
    using x sl(5) by (auto simp: nextf_def prevf_def fun_eq_iff)
  have "sum_list (map (qtyf (deref sl)) ps) = sum_list (map (qtyf (heap b)) ps)"
    by (rule arg_cong [where f = sum_list]) (use D(1) sl(5) in \<open>auto simp: qtyf_def\<close>)
  moreover have "qtyf (deref sl) p = qtyf (heap b) p - fill" using x sl(5) by (simp add: qtyf_def)
  ultimately have "sum_list (map (qtyf (deref sl)) (p # ps)) = sum_list (map (qtyf (heap b)) (p # ps)) - fill"
    by simp
  then have "level_rep (deref sl) (less_total fill lvl) (p # ps)"
    using D n sl(5) by (auto simp: level_rep_def)
  with sl show ?thesis by blast
qed

lemma shrink_head:
  assumes C: "core_inv b F" and fs: "F side px = p # ps" and x: "heap b p = Some x"
    and lt: "fill < o_qty x" and L: "LevelAt b side px = Some lvl"
  shows "\<exists>sl b'. assign p (less_qty fill x) (bk_slab b) = Some sl
    \<and> deref sl p = Some (less_qty fill x)
    \<and> set_level (b\<lparr>bk_slab := sl\<rparr>) side px (less_total fill lvl) = Some b'
    \<and> level_write side px (less_total fill lvl) (b\<lparr>bk_slab := sl\<rparr>) b'
    \<and> core_inv b' F \<and> sl_capacity sl = sl_capacity (bk_slab b)
    \<and> datum (heap b') = (datum (heap b))(p \<mapsto> (o_id x, o_price x, o_qty x - fill, o_side x))"
proof -
  note c = core_invD [OF C] and band = fifo_band [OF C fs]
  obtain sl where sl: "assign p (less_qty fill x) (bk_slab b) = Some sl" "slab_inv sl"
    "live sl = live (bk_slab b)" "sl_capacity sl = sl_capacity (bk_slab b)"
    "deref sl = (heap b)(p \<mapsto> less_qty fill x)" "level_rep (deref sl) (less_total fill lvl) (p # ps)"
    using assign_qty [OF C fs x L] by blast
  have fr: "deref sl r = heap b r" if "(s, q) \<noteq> (side, px)" "r \<in> set (F s q)" for s q r
    using that fs fifo_disjoint [OF C, of r s q side px] sl(5) by auto
  obtain b' where b': "set_level (b\<lparr>bk_slab := sl\<rparr>) side px (less_total fill lvl) = Some b'"
    "level_write side px (less_total fill lvl) (b\<lparr>bk_slab := sl\<rparr>) b'"
    "shape_inv b'" "ladder_inv b' (put_fifo F side px (p # ps))" "heap b' = deref sl"
    using write_level [OF C band sl(6), of side] fr by blast
  note w = level_writeD [OF b'(2)]
  have "put_fifo F side px (p # ps) = F" using fs by (auto simp: fun_eq_iff)
  with b'(3,4) have lad: "shape_inv b'" "ladder_inv b' F" by simp_all
  have dat: "datum (heap b') = (datum (heap b))(p \<mapsto> (o_id x, o_price x, o_qty x - fill, o_side x))"
    using b'(5) sl(5) by (auto simp: datum_def fun_eq_iff)
  have xo: "o_side x = side" "o_price x = px"
    using orders_invD [OF c(4), of p side px] fs x by auto
  have "o_qty x - fill \<noteq> 0" using lt by auto
  with c(4) fs xo w(1) sl(3) fifo_disjoint [OF C, of p _ _ side px]
  have "orders_inv b' F"
    unfolding orders_inv_datum dat by auto
  moreover have "index_agrees b'"
    using c(5) w(1,2) sl(4) x unfolding index_agrees_datum dat by (auto simp: datum_def)
  ultimately have "core_inv b' F" using lad sl(2) w(1) by (simp add: core_inv_def)
  with sl b'(1,2) dat show ?thesis by auto
qed

text \<open>The head of a level is filled and leaves the book.\<close>

lemma set_level_frame:
  "set_level (b\<lparr>bk_slab := sl\<rparr>) side px lvl = Some b1 \<Longrightarrow>
    set_level (b\<lparr>bk_slab := sl', bk_id_index := ix\<rparr>) side px lvl
      = Some (b1\<lparr>bk_slab := sl', bk_id_index := ix\<rparr>)"
  by (cases side) (auto simp: upd_opt_eq_Some Idx_def split: bind_splits)

text \<open>Its links and the level, before the node is freed and its id erased.\<close>

lemma head_unlinked:
  assumes C: "core_inv b F" and fs: "F side px = p # ps" and x: "heap b p = Some x"
    and L: "LevelAt b side px = Some lvl"
  shows "\<exists>sl1 lvl2 sl2 b1. assign p (less_qty (o_qty x) x) (bk_slab b) = Some sl1
    \<and> deref sl1 p = Some (less_qty (o_qty x) x)
    \<and> PopHead (less_total (o_qty x) lvl) p sl1 = Some (lvl2, sl2)
    \<and> set_level (b\<lparr>bk_slab := sl2\<rparr>) side px lvl2 = Some b1
    \<and> level_write side px lvl2 (b\<lparr>bk_slab := sl2\<rparr>) b1
    \<and> shape_inv b1 \<and> ladder_inv b1 (put_fifo F side px ps)
    \<and> slab_inv sl2 \<and> live sl2 = live (bk_slab b) \<and> sl_capacity sl2 = sl_capacity (bk_slab b)
    \<and> (\<forall>q. q \<noteq> p \<longrightarrow> datum (heap b1) q = datum (heap b) q)"
proof -
  let ?l1 = "less_total (o_qty x) lvl"
  obtain sl1 where sl1: "assign p (less_qty (o_qty x) x) (bk_slab b) = Some sl1" "slab_inv sl1"
    "live sl1 = live (bk_slab b)" "sl_capacity sl1 = sl_capacity (bk_slab b)"
    "deref sl1 = (heap b)(p \<mapsto> less_qty (o_qty x) x)" "level_rep (deref sl1) ?l1 (p # ps)"
    using assign_qty [OF C fs x L] by blast
  from PopHead_ok [OF sl1(2,6)] obtain lvl2 sl2 where pop: "PopHead ?l1 p sl1 = Some (lvl2, sl2)"
    "level_rep (deref sl2) (lvl2\<lparr>lv_total_qty := lv_total_qty ?l1 - qtyf (deref sl1) p\<rparr>) ps"
    "lv_total_qty lvl2 = lv_total_qty ?l1" "links_moved (set ps) sl1 sl2" by blast
  note M = links_movedD [OF pop(4)]
  have "qtyf (deref sl1) p = 0" using sl1(5) by (simp add: qtyf_def)
  then have "lvl2\<lparr>lv_total_qty := lv_total_qty ?l1 - qtyf (deref sl1) p\<rparr> = lvl2"
    using pop(3) by simp
  with pop(2) have rep2: "level_rep (deref sl2) lvl2 ps" by (simp only:)
  have fr: "deref sl2 r = heap b r" if r: "(s, q) \<noteq> (side, px)" "r \<in> set (F s q)" for s q r
  proof -
    have "r \<notin> set (p # ps)" using r fs fifo_disjoint [OF C, of r s q side px] by auto
    then show ?thesis using M(5) [of r] sl1(5) by simp
  qed
  obtain b1 where b1: "set_level (b\<lparr>bk_slab := sl2\<rparr>) side px lvl2 = Some b1"
    "level_write side px lvl2 (b\<lparr>bk_slab := sl2\<rparr>) b1"
    "shape_inv b1" "ladder_inv b1 (put_fifo F side px ps)" "heap b1 = deref sl2"
    using write_level [OF C fifo_band [OF C fs] rep2, of side] fr by blast
  have "datum (heap b1) q = datum (heap b) q" if "q \<noteq> p" for q
    using that sl1(5) b1(5) fun_cong [OF M(4), of q] by (simp add: datum_def)
  moreover have "deref sl1 p = Some (less_qty (o_qty x) x)" using sl1(5) by simp
  ultimately show ?thesis using sl1(1,3,4) pop(1) M(1-3) b1(1-4)
    by (intro exI [of _ sl1] exI [of _ lvl2] exI [of _ sl2] exI [of _ b1]) auto
qed

lemma pop_head:
  assumes C: "core_inv b F" and fs: "F side px = p # ps" and x: "heap b p = Some x"
    and L: "LevelAt b side px = Some lvl"
  shows "\<exists>sl1 lvl2 sl2 ix sl3 b'. assign p (less_qty (o_qty x) x) (bk_slab b) = Some sl1
    \<and> deref sl1 p = Some (less_qty (o_qty x) x)
    \<and> PopHead (less_total (o_qty x) lvl) p sl1 = Some (lvl2, sl2)
    \<and> LookupAndEraseId (o_id x) (bk_id_index b) = Some (Some p, ix)
    \<and> Deallocate (Some p) sl2 = Some sl3
    \<and> set_level (b\<lparr>bk_slab := sl3, bk_id_index := ix\<rparr>) side px lvl2 = Some b'
    \<and> level_write side px lvl2 (b\<lparr>bk_slab := sl3, bk_id_index := ix\<rparr>) b'
    \<and> core_inv b' (put_fifo F side px ps) \<and> sl_capacity sl3 = sl_capacity (bk_slab b)
    \<and> datum (heap b') = (datum (heap b))(p := None)"
proof -
  note c = core_invD [OF C]
  obtain sl1 lvl2 sl2 b1 where u: "assign p (less_qty (o_qty x) x) (bk_slab b) = Some sl1"
    "deref sl1 p = Some (less_qty (o_qty x) x)" "PopHead (less_total (o_qty x) lvl) p sl1 = Some (lvl2, sl2)"
    "set_level (b\<lparr>bk_slab := sl2\<rparr>) side px lvl2 = Some b1" "level_write side px lvl2 (b\<lparr>bk_slab := sl2\<rparr>) b1"
    "shape_inv b1" "ladder_inv b1 (put_fifo F side px ps)"
    "slab_inv sl2" "live sl2 = live (bk_slab b)" "sl_capacity sl2 = sl_capacity (bk_slab b)"
    "\<And>q. q \<noteq> p \<Longrightarrow> datum (heap b1) q = datum (heap b) q"
    using head_unlinked [OF C fs x L] by blast
  have w: "bk_slab b1 = sl2" using level_writeD(1) [OF u(5)] by simp
  have xo: "o_side x = side" "o_price x = px"
    using orders_invD [OF c(4), of p side px] fs x by auto
  have "contents (bk_id_index b) (o_id x) = Some p" using c(5) x by (auto simp: index_agrees_def)
  with ids.erase_ok [of "bk_id_index b" "o_id x"] index_has_room [OF C] c(5) obtain ix where
    ix: "LookupAndEraseId (o_id x) (bk_id_index b) = Some (Some p, ix)" "index_inv ix"
      "contents ix = (contents (bk_id_index b))(o_id x := None)" "room ix = room (bk_id_index b)"
    by (auto simp: index_agrees_def)
  have F': "put_fifo F side px ps = put_fifo F (o_side x) (o_price x) ([] @ ps)" using xo by simp
  have fs': "F (o_side x) (o_price x) = [] @ p # ps" using fs xo by simp
  from drop_node [OF C x fs' F' u(6,7) _ _ _ u(11) ix(2-4)] u(8-10) w obtain sl3 where
    d: "Deallocate (Some p) sl2 = Some sl3" "sl_capacity sl3 = sl_capacity (bk_slab b)"
      "datum (deref sl3) = (datum (heap b))(p := None)"
      "core_inv (b1\<lparr>bk_slab := sl3, bk_id_index := ix\<rparr>) (put_fifo F side px ps)" by auto
  let ?b' = "b1\<lparr>bk_slab := sl3, bk_id_index := ix\<rparr>"
  have "set_level (b\<lparr>bk_slab := sl3, bk_id_index := ix\<rparr>) side px lvl2 = Some ?b'"
    by (rule set_level_frame [OF u(4)])
  moreover have "level_write side px lvl2 (b\<lparr>bk_slab := sl3, bk_id_index := ix\<rparr>) ?b'"
    using u(5) by (simp add: level_write_def Idx_def)
  moreover have "datum (heap ?b') = (datum (heap b))(p := None)" using d(3) by (simp add: heap_def)
  ultimately show ?thesis using u(1-3) ix(1) d by blast
qed

text \<open>A residual is rested.\<close>

lemma Rest_out: "\<not> InBand b px \<Longrightarrow> Rest i side px qty b = Some (False, b)"
  by (simp add: Rest_def)

lemma Rest_full:
  assumes "core_inv b F" "InBand b px" "card (live (bk_slab b)) = sl_capacity (bk_slab b)"
  shows "Rest i side px qty b = Some (False, b)"
  using pool.alloc_full [OF core_invD(2) [OF assms(1)] assms(3)] assms(2) by (simp add: Rest_def)

text \<open>The new node before it is linked: a fresh slot holds the order, the others are untouched.\<close>

lemma new_node:
  assumes C: "core_inv b F" and sp: "card (live (bk_slab b)) < sl_capacity (bk_slab b)"
  shows "\<exists>p sl sl1. Allocate (bk_slab b) = Some (Some p, sl) \<and> assign p x sl = Some sl1 \<and> slab_inv sl1
    \<and> p \<notin> live (bk_slab b) \<and> live sl1 = insert p (live (bk_slab b))
    \<and> sl_capacity sl1 = sl_capacity (bk_slab b) \<and> deref sl1 = (heap b)(p \<mapsto> x)"
proof -
  note c = core_invD [OF C]
  obtain p sl where a: "Allocate (bk_slab b) = Some (Some p, sl)" "p \<notin> live (bk_slab b)"
    "live sl = insert p (live (bk_slab b))" "slab_inv sl" "sl_capacity sl = sl_capacity (bk_slab b)"
    using pool.alloc_fresh [OF c(2) sp] by blast
  obtain sl1 where s: "assign p x sl = Some sl1" "slab_inv sl1" "live sl1 = live sl"
    "sl_capacity sl1 = sl_capacity sl" "deref sl1 = (deref sl)(p \<mapsto> x)"
    using pool.put_live [OF a(4), of p x] a(3) by auto
  have "deref sl q = heap b q" if "q \<noteq> p" for q
  proof (cases "q \<in> live (bk_slab b)")
    case True
    then show ?thesis using pool.alloc_frame [OF c(2) a(1)] by (simp add: heap_def)
  next
    case False
    then have "deref sl q = None" using pool.get_live [OF a(4), of q] a(3) that by (cases "deref sl q") auto
    moreover have "heap b q = None" using False live_heap [OF C] by auto
    ultimately show ?thesis by simp
  qed
  then have "deref sl1 = (heap b)(p \<mapsto> x)" using s(5) by (auto simp: fun_eq_iff)
  with a s show ?thesis by auto
qed

lemma Rest_links:
  assumes C: "core_inv b F" and band: "InBand b px" and L: "LevelAt b side px = Some lvl"
    and sl: "slab_inv sl1" "deref sl1 = (heap b)(p \<mapsto> x)" and p: "p \<notin> live (bk_slab b)"
  shows "\<exists>lvl1 sl2 b1. PushBackToLevel lvl p sl1 = Some (lvl1, sl2)
    \<and> set_level (b\<lparr>bk_slab := sl2\<rparr>) side px lvl1 = Some b1
    \<and> level_write side px lvl1 (b\<lparr>bk_slab := sl2\<rparr>) b1
    \<and> slab_inv sl2 \<and> live sl2 = live sl1 \<and> sl_capacity sl2 = sl_capacity sl1
    \<and> datum (deref sl2) = datum (deref sl1)
    \<and> shape_inv b1 \<and> ladder_inv b1 (put_fifo F side px (F side px @ [p]))"
proof -
  note c = core_invD [OF C]
  have np: "p \<notin> set (F s q)" for s q
    using p orders_invD [OF c(4), of p s q] live_heap [OF C] by auto
  have "level_rep (heap b) lvl (F side px)" using LevelAt_rep [OF C band, of side] L by simp
  then have R: "level_rep (deref sl1) lvl (F side px)"
    by (subst level_rep_frame [of "F side px" "deref sl1" "heap b"]) (use sl(2) np [of side px] in auto)
  have xp: "deref sl1 p = Some x" using sl(2) by simp
  from PushBackToLevel_ok [OF sl(1) R xp np] obtain lvl1 sl2 where
    P: "PushBackToLevel lvl p sl1 = Some (lvl1, sl2)" "level_rep (deref sl2) lvl1 (F side px @ [p])"
      "links_moved (set (F side px @ [p])) sl1 sl2" by blast
  note M = links_movedD [OF P(3)]
  have fr: "deref sl2 r = heap b r" if r: "(s, q) \<noteq> (side, px)" "r \<in> set (F s q)" for s q r
  proof -
    have "r \<notin> set (F side px @ [p])" using r np [of s q] fifo_disjoint [OF C, of r s q side px] by auto
    then show ?thesis using M(5) [of r] sl(2) r(2) np [of s q] by auto
  qed
  then have "\<forall>s q r. (s, q) \<noteq> (side, px) \<longrightarrow> r \<in> set (F s q) \<longrightarrow> deref sl2 r = heap b r" by blast
  from write_level [OF C band P(2) this] P(1) M(1-4) show ?thesis by blast
qed

lemma touch_at_index [simp]: "touch_at (b\<lparr>bk_id_index := ix\<rparr>) = touch_at b"
  by (simp add: touch_at_def fun_eq_iff)

lemma Rest_touch:
  assumes C: "core_inv b F" and T: "\<And>s. touch_inv b F s" and W: "touch_at b1 = touch_at b"
    and b2: "b2 = (if F side px = [] then MarkLevelLive side px b1 else b1)"
  shows "touch_only side b1 b2" "touch_at b2 s (populated (put_fifo F side px (F side px @ [p])) s)"
proof -
  have t: "touch_at b1 s (populated F s)" for s using T W by (simp add: touch_inv_def)
  have cd: "card (populated F side) < 2 ^ 64" using populated_card [OF C, of side] by simp
  show to: "touch_only side b1 b2"
    using b2 MarkLevelLive_ok(1) [OF t [of side] populated_finite [OF C] cd, of px] touch_only_refl
    by (auto simp: populated_def)
  show "touch_at b2 s (populated (put_fifo F side px (F side px @ [p])) s)"
  proof (cases "s = side")
    case False
    then show ?thesis using touch_onlyD(10) [OF to False] t by simp
  next
    case True
    show ?thesis
    proof (cases "F side px = []")
      case e: True
      then have "px \<notin> populated F side" by (simp add: populated_def)
      from MarkLevelLive_ok(2) [OF t [of side] populated_finite [OF C] cd this] b2 e True
      show ?thesis by simp
    next
      case e: False
      then have "insert px (populated F side) = populated F side" by (auto simp: populated_def)
      with t [of side] b2 e True show ?thesis by simp
    qed
  qed
qed

text \<open>The orders and the index when a fresh node has joined a level.\<close>

lemma orders_add:
  assumes "orders_inv b F" "datum (heap b) p = None" "qty \<noteq> 0"
    and "datum (heap b') = (datum (heap b))(p \<mapsto> (i, px, qty, side))" "live (bk_slab b') = insert p (live (bk_slab b))"
  shows "orders_inv b' (put_fifo F side px (F side px @ [p]))"
  using assms(1-3) unfolding orders_inv_datum assms(4,5) by auto (metis option.distinct(1))+

lemma index_add:
  assumes c: "index_agrees b" and p: "datum (heap b) p = None" and fresh: "contents (bk_id_index b) i = None"
    and b': "datum (heap b') = (datum (heap b))(p \<mapsto> (i, px, qty, side))"
      "sl_capacity (bk_slab b') = sl_capacity (bk_slab b)"
    and ix: "index_inv (bk_id_index b')" "contents (bk_id_index b') = (contents (bk_id_index b))(i \<mapsto> p)"
      "room (bk_id_index b') = room (bk_id_index b)"
  shows "index_agrees b'"
proof -
  have "datum (heap b) r \<noteq> Some (i, q, k, s)" for r q k s
    using c fresh unfolding index_agrees_datum by (metis option.distinct(1))
  then show ?thesis using c p fresh b'(2) ix unfolding index_agrees_datum b'(1) by auto
qed

text \<open>What \<^verbatim>\<open>Rest\<close> runs through: the slot, the links, the level, the index.\<close>

lemma Rest_stages:
  assumes C: "core_inv b F" and T: "\<And>s. touch_inv b F s" and band: "InBand b px"
    and sp: "card (live (bk_slab b)) < sl_capacity (bk_slab b)" and fresh: "contents (bk_id_index b) i = None"
  obtains p lvl sl b1 b2 ix where
    "Rest i side px qty b = Some (True, b2\<lparr>bk_id_index := ix\<rparr>)" "p \<notin> live (bk_slab b)"
    "level_write side px lvl (b\<lparr>bk_slab := sl\<rparr>) b1" "shape_inv b1" "ladder_inv b1 (put_fifo F side px (F side px @ [p]))"
    "b2 = (if F side px = [] then MarkLevelLive side px b1 else b1)"
    "slab_inv sl" "live sl = insert p (live (bk_slab b))" "sl_capacity sl = sl_capacity (bk_slab b)"
    "datum (deref sl) = (datum (heap b))(p \<mapsto> (i, px, qty, side))"
    "index_inv ix" "contents ix = (contents (bk_id_index b))(i \<mapsto> p)" "room ix = room (bk_id_index b)"
proof -
  note c = core_invD [OF C]
  let ?x = "\<lparr>o_id = i, o_price = px, o_qty = qty, o_side = side, o_prev = None, o_next = None\<rparr>"
  obtain p sl sl1 where n: "Allocate (bk_slab b) = Some (Some p, sl)" "assign p ?x sl = Some sl1"
    "slab_inv sl1" "p \<notin> live (bk_slab b)" "live sl1 = insert p (live (bk_slab b))"
    "sl_capacity sl1 = sl_capacity (bk_slab b)" "deref sl1 = (heap b)(p \<mapsto> ?x)"
    using new_node [OF C sp, of ?x] by blast
  obtain lvl where L: "LevelAt b side px = Some lvl" "level_rep (heap b) lvl (F side px)"
    using LevelAt_rep [OF C band] by blast
  obtain lvl1 sl2 b1 where P: "PushBackToLevel lvl p sl1 = Some (lvl1, sl2)"
    "set_level (b\<lparr>bk_slab := sl2\<rparr>) side px lvl1 = Some b1"
    "level_write side px lvl1 (b\<lparr>bk_slab := sl2\<rparr>) b1"
    "slab_inv sl2" "live sl2 = live sl1" "sl_capacity sl2 = sl_capacity sl1"
    "datum (deref sl2) = datum (deref sl1)" "shape_inv b1"
    "ladder_inv b1 (put_fifo F side px (F side px @ [p]))"
    using Rest_links [OF C band L(1) n(3,7,4)] by blast
  define b2 where "b2 = (if level_empty lvl then MarkLevelLive side px b1 else b1)"
  have b2: "b2 = (if F side px = [] then MarkLevelLive side px b1 else b1)"
    using level_empty_iff [OF L(2)] by (simp add: b2_def)
  have "touch_at b1 = touch_at b" using level_writeD(11) [OF P(3)] by (simp add: touch_at_def fun_eq_iff)
  note t = touch_onlyD [OF Rest_touch(1) [OF C T this b2]]
  obtain ix where ix: "InsertId i p (bk_id_index b) = Some ix" "index_inv ix"
    "contents ix = (contents (bk_id_index b))(i \<mapsto> p)" "room ix = room (bk_id_index b)"
    using ids.insert_ok [of "bk_id_index b" i p] c(5) fresh index_has_room [OF C]
    by (auto simp: index_agrees_def)
  have run: "Rest i side px qty b = Some (True, b2\<lparr>bk_id_index := ix\<rparr>)"
    using band n(1,2) L(1) P(1,2) ix(1) t(5) level_writeD(2) [OF P(3)] by (simp add: Rest_def b2_def Let_def)
  have dat: "datum (deref sl2) = (datum (heap b))(p \<mapsto> (i, px, qty, side))"
    using P(7) n(7) by (auto simp: datum_def fun_eq_iff)
  show thesis
    by (rule that [OF run n(4) P(3,8,9) b2 P(4) _ _ dat ix(2-4)]) (simp_all add: P(5,6) n(5,6))
qed

lemma Rest_ok:
  assumes R: "book_rep b F" and band: "InBand b px"
    and sp: "card (live (bk_slab b)) < sl_capacity (bk_slab b)"
    and fresh: "contents (bk_id_index b) i = None" and qty: "qty \<noteq> 0"
  shows "\<exists>p b'. Rest i side px qty b = Some (True, b') \<and> p \<notin> live (bk_slab b)
    \<and> book_rep b' (put_fifo F side px (F side px @ [p]))
    \<and> datum (heap b') = (datum (heap b))(p \<mapsto> (i, px, qty, side))
    \<and> bk_min_price b' = bk_min_price b \<and> bk_max_price b' = bk_max_price b
    \<and> sl_capacity (bk_slab b') = sl_capacity (bk_slab b)"
proof -
  have C: "core_inv b F" and T: "\<And>s. touch_inv b F s" using R by (auto simp: book_rep_def)
  note c = core_invD [OF C]
  let ?F = "\<lambda>p. put_fifo F side px (F side px @ [p])"
  obtain p lvl sl b1 b2 ix where st: "Rest i side px qty b = Some (True, b2\<lparr>bk_id_index := ix\<rparr>)" "p \<notin> live (bk_slab b)"
    "level_write side px lvl (b\<lparr>bk_slab := sl\<rparr>) b1" "shape_inv b1" "ladder_inv b1 (?F p)"
    "b2 = (if F side px = [] then MarkLevelLive side px b1 else b1)"
    and sl: "slab_inv sl" "live sl = insert p (live (bk_slab b))" "sl_capacity sl = sl_capacity (bk_slab b)"
    "datum (deref sl) = (datum (heap b))(p \<mapsto> (i, px, qty, side))"
    and ix: "index_inv ix" "contents ix = (contents (bk_id_index b))(i \<mapsto> p)" "room ix = room (bk_id_index b)"
    by (rule Rest_stages [OF C T band sp fresh])
  note w = level_writeD [OF st(3)]
  have "touch_at b1 = touch_at b" using w(11) by (simp add: touch_at_def fun_eq_iff)
  note to = Rest_touch [OF C T this st(6)] and t = touch_onlyD [OF Rest_touch(1) [OF C T this st(6)]]
  let ?b = "b2\<lparr>bk_id_index := ix\<rparr>"
  have slb: "bk_slab ?b = sl" using t(1) w(1) by simp
  have dat: "datum (heap ?b) = (datum (heap b))(p \<mapsto> (i, px, qty, side))" using slb sl(4) by (simp add: heap_def)
  have np: "datum (heap b) p = None" using st(2) live_heap [OF C] by (auto simp: datum_def)
  have "InBand ?b = InBand b2" "Idx ?b = Idx b2" "heap ?b = heap b2" "levels ?b = levels b2"
    by (simp_all add: InBand_def Idx_def heap_def fun_eq_iff)
  then have "ladder_inv ?b (?F p)"
    using st(5) t(4,6,7,8) ladder_inv_cong [of ?b b1 "?F p"] by (simp only:)
  moreover have "orders_inv ?b (?F p)"
    by (rule orders_add [OF c(4) np qty dat]) (use sl(2) slb in simp)
  moreover have "index_agrees ?b"
    by (rule index_add [OF c(5) np fresh dat]) (use ix sl(3) slb in simp_all)
  moreover have "shape_inv ?b" using t(9) st(4) by (simp add: shape_inv_def)
  ultimately have "core_inv ?b (?F p)" using sl(1) slb by (simp add: core_inv_def)
  moreover have "touch_inv ?b (?F p) s" for s using to(2) by (simp add: touch_inv_def)
  ultimately have "book_rep ?b (?F p)" by (simp add: book_rep_def)
  moreover have "bk_min_price ?b = bk_min_price b" "bk_max_price ?b = bk_max_price b"
    "sl_capacity (bk_slab ?b) = sl_capacity (bk_slab b)"
    using t(2,3) w(3,4) slb sl(3) by simp_all
  ultimately show ?thesis using st(1,2) dat by blast
qed

end
