(* ===== verification/Book_Matching.thy ===== *)
theory Book_Matching imports Book_Steps begin

text \<open>
  The matching loops refine the sweep of \<open>Book_Spec\<close>: \<^verbatim>\<open>ConsumeLevel\<close> is
  \<open>fill_queue\<close> on the queue of its level, one round of \<^verbatim>\<open>MatchBuy\<close> or
  \<^verbatim>\<open>MatchSell\<close> handles the best populated price, and the loops end because every
  round empties a level or the taker.
\<close>

section \<open>The queues of a book\<close>

definition entry :: "(OrderId \<times> Price \<times> Quantity \<times> Side) option \<Rightarrow> OrderId \<times> Quantity" where
  "entry d = (case d of Some (i, _, q, _) \<Rightarrow> (i, q) | None \<Rightarrow> (0, 0))"

definition resting :: "OrderBook \<Rightarrow> fifos \<Rightarrow> depth" where
  "resting b F = (\<lambda>side px. map (\<lambda>p. entry (datum (heap b) p)) (F side px))"

lemma entry_heap: "heap b p = Some x \<Longrightarrow> entry (datum (heap b) p) = (o_id x, o_qty x)"
  by (simp add: entry_def datum_def)

lemma length_resting [simp]: "length (resting b F side px) = length (F side px)"
  by (simp add: resting_def)

lemma resting_Nil [simp]: "resting b F side px = [] \<longleftrightarrow> F side px = []"
  by (simp add: resting_def)

lemma populated_resting: "populated F side = {px. resting b F side px \<noteq> []}"
  by (simp add: populated_def)

lemma resting_nonzero: "core_inv b F \<Longrightarrow> e \<in> set (resting b F side px) \<Longrightarrow> snd e \<noteq> 0"
  using orders_invD [OF core_invD(4)] by (fastforce simp: resting_def entry_heap)

text \<open>What stays fixed across every operation.\<close>

definition same_frame :: "OrderBook \<Rightarrow> OrderBook \<Rightarrow> bool" where
  "same_frame b b' \<longleftrightarrow> bk_min_price b' = bk_min_price b \<and> bk_max_price b' = bk_max_price b
     \<and> sl_capacity (bk_slab b') = sl_capacity (bk_slab b)"

lemma same_frame_refl [simp]: "same_frame b b"
  by (simp add: same_frame_def)

lemma same_frame_trans: "same_frame b b' \<Longrightarrow> same_frame b' b'' \<Longrightarrow> same_frame b b''"
  by (simp add: same_frame_def)

lemma same_frame_band: "same_frame b b' \<Longrightarrow> InBand b' = InBand b"
  by (simp add: same_frame_def InBand_def fun_eq_iff)

lemma resting_upd:
  assumes "core_inv b F" "p \<in> set (F side px)" "\<And>q. q \<noteq> p \<Longrightarrow> datum (heap b') q = datum (heap b) q"
  shows "resting b' (put_fifo F side px ps)
    = put_queue (resting b F) side px (map (\<lambda>p. entry (datum (heap b') p)) ps)"
proof (intro ext)
  fix s q
  have "entry (datum (heap b') r) = entry (datum (heap b) r)" if "r \<in> set (F s q)" "(s, q) \<noteq> (side, px)" for r
    using that assms(3) [of r] fifo_disjoint [OF assms(1,2), of s q] by (cases "r = p") auto
  then show "resting b' (put_fifo F side px ps) s q
    = put_queue (resting b F) side px (map (\<lambda>p. entry (datum (heap b') p)) ps) s q"
    by (auto simp: resting_def)
qed

section \<open>One level\<close>

definition level_touched :: "OrderBook \<Rightarrow> OrderBook \<Rightarrow> bool" where
  "level_touched b b' \<longleftrightarrow> same_frame b b' \<and> best_px b' = best_px b \<and> live_levels b' = live_levels b"

lemma level_touched_trans: "level_touched b b' \<Longrightarrow> level_touched b' b'' \<Longrightarrow> level_touched b b''"
  by (auto simp: level_touched_def intro: same_frame_trans)

lemma put_fifo_twice [simp]: "put_fifo (put_fifo F side px ps) side px qs = put_fifo F side px qs"
  by simp

lemma fold_fills:
  "fold on_fill (map (to_fill i side) (map (Pair px) ((m, q) # fs))) s
     = fold on_fill (map (to_fill i side) (map (Pair px) fs))
         (on_fill \<lparr>fl_maker_id = m, fl_taker_id = i, fl_price = px, fl_qty = q, fl_taker_side = side\<rparr> s)"
  by (simp add: to_fill_def)

lemma ConsumeLevel_done:
  assumes "LevelAt b lside px = Some lvl" "r = 0 \<or> lv_head lvl = None"
  shows "ConsumeLevel on_fill i tside px lside r b s = Some (r, b, s)"
  using assms by (subst ConsumeLevel.simps) auto

text \<open>The level of \<open>px\<close> now holds the nodes \<open>ps\<close> and the queue \<open>q\<close>.\<close>

definition level_is :: "OrderBook \<Rightarrow> fifos \<Rightarrow> Side \<Rightarrow> Price \<Rightarrow> ptr list \<Rightarrow> queue \<Rightarrow> OrderBook \<Rightarrow> bool" where
  "level_is b F side px ps q b' \<longleftrightarrow> core_inv b' (put_fifo F side px ps) \<and> level_touched b b'
     \<and> resting b' (put_fifo F side px ps) = put_queue (resting b F) side px q"

lemma level_is_refl:
  "core_inv b F \<Longrightarrow> F side px = ps \<Longrightarrow> resting b F side px = q \<Longrightarrow> level_is b F side px ps q b"
  by (auto simp only: level_is_def level_touched_def fun_upd_triv same_frame_refl)

lemma level_is_trans:
  "level_is b F side px ps q b1 \<Longrightarrow> level_is b1 (put_fifo F side px ps) side px qs q' b2
   \<Longrightarrow> level_is b F side px qs q' b2"
  unfolding level_is_def using level_touched_trans by auto

abbreviation maker_fill :: "Order \<Rightarrow> OrderId \<Rightarrow> Side \<Rightarrow> Price \<Rightarrow> Quantity \<Rightarrow> Fill" where
  "maker_fill x i tside px k \<equiv>
     \<lparr>fl_maker_id = o_id x, fl_taker_id = i, fl_price = px, fl_qty = k, fl_taker_side = tside\<rparr>"

text \<open>The queue behind the head, which a step of the loop leaves alone.\<close>

abbreviation queue_of :: "OrderBook \<Rightarrow> ptr list \<Rightarrow> queue" where
  "queue_of b ps \<equiv> map (\<lambda>p. entry (datum (heap b) p)) ps"

lemma level_front:
  assumes C: "core_inv b F" and band: "InBand b px" and fs: "F lside px = p # ps"
  obtains lvl x where "LevelAt b lside px = Some lvl" "lv_head lvl = Some p" "heap b p = Some x"
    "deref (bk_slab b) p = Some x" "o_qty x \<noteq> 0"
    "resting b F lside px = (o_id x, o_qty x) # queue_of b ps" "p \<in> set (F lside px)" "p \<notin> set ps"
proof -
  obtain lvl where L: "LevelAt b lside px = Some lvl" "level_rep (heap b) lvl (F lside px)"
    using LevelAt_rep [OF C band] by blast
  obtain x where x: "heap b p = Some x" "o_qty x \<noteq> 0"
    using orders_invD [OF core_invD(4) [OF C], of p lside px] fs by auto
  have "deref (bk_slab b) p = Some x" using x(1) by (simp add: heap_def)
  with that [OF L(1) _ x(1) _ x(2)] show ?thesis
    using level_rep_head [OF L(2)] fifo_distinct [OF C, of lside px] fs x(1)
    by (simp add: first_def resting_def entry_heap)
qed

lemma queue_of_frame:
  "p \<notin> set ps \<Longrightarrow> (\<And>q. q \<noteq> p \<Longrightarrow> datum (heap b') q = datum (heap b) q) \<Longrightarrow> queue_of b' ps = queue_of b ps"
  by (rule map_cong) metis+

text \<open>The taker is used up by the maker at the head.\<close>

lemma ConsumeLevel_partial:
  assumes C: "core_inv b F" and band: "InBand b px" and fs: "F lside px = p # ps"
    and x: "heap b p = Some x" and r: "r \<noteq> 0" "r < o_qty x"
  shows "\<exists>b'. ConsumeLevel on_fill i tside px lside r b s = Some (0, b', on_fill (maker_fill x i tside px r) s)
    \<and> level_is b F lside px (p # ps) ((o_id x, o_qty x - r) # queue_of b ps) b'"
proof -
  obtain lvl where L: "LevelAt b lside px = Some lvl" "lv_head lvl = Some p" "deref (bk_slab b) p = Some x"
    and pin: "p \<in> set (F lside px)" and ptl: "p \<notin> set ps"
    using level_front [OF C band fs] x by (metis option.inject)
  from shrink_head [OF C fs x r(2) L(1)] obtain sl b' where
    h: "assign p (less_qty r x) (bk_slab b) = Some sl" "deref sl p = Some (less_qty r x)"
    "set_level (b\<lparr>bk_slab := sl\<rparr>) lside px (less_total r lvl) = Some b'"
    "level_write lside px (less_total r lvl) (b\<lparr>bk_slab := sl\<rparr>) b'"
    "core_inv b' F" "sl_capacity sl = sl_capacity (bk_slab b)"
    "datum (heap b') = (datum (heap b))(p \<mapsto> (o_id x, o_price x, o_qty x - r, o_side x))" by blast
  note w = level_writeD [OF h(4)]
  have tch: "level_touched b b'" using w h(6) by (simp add: level_touched_def same_frame_def)
  have "InBand b' px" using band w(9) by (simp add: InBand_def)
  then obtain lvl' where L': "LevelAt b' lside px = Some lvl'" using LevelAt_rep [OF h(5)] by blast
  have "ConsumeLevel on_fill i tside px lside 0 b' s1 = Some (0, b', s1)" for s1
    by (intro ConsumeLevel_done [OF L'] disjI1 refl)
  moreover have "min r (o_qty x) = r" "o_qty x \<noteq> r" "0 < r" using r by (auto simp: word_gt_0)
  ultimately have "ConsumeLevel on_fill i tside px lside r b s = Some (0, b', on_fill (maker_fill x i tside px r) s)"
    using L h(1-3) by (subst ConsumeLevel.simps) (simp add: Let_def)
  moreover have F: "put_fifo F lside px (p # ps) = F" using fs by (auto simp: fun_eq_iff)
  moreover have "queue_of b' ps = queue_of b ps" by (rule queue_of_frame [OF ptl]) (simp add: h(7))
  then have e: "queue_of b' (p # ps) = (o_id x, o_qty x - r) # queue_of b ps"
    by (simp only: list.map) (simp add: h(7) entry_def)
  have "resting b' F = put_queue (resting b F) lside px ((o_id x, o_qty x - r) # queue_of b ps)"
    using resting_upd [OF C pin, of b' "p # ps", unfolded F e] by (simp add: h(7))
  ultimately show ?thesis using h(5) tch unfolding level_is_def by metis
qed

text \<open>The maker at the head is used up, and the loop goes on.\<close>

lemma ConsumeLevel_pop:
  assumes C: "core_inv b F" and band: "InBand b px" and fs: "F lside px = p # ps"
    and x: "heap b p = Some x" and r: "r \<noteq> 0" "\<not> r < o_qty x"
  shows "\<exists>b1. ConsumeLevel on_fill i tside px lside r b s
      = ConsumeLevel on_fill i tside px lside (r - o_qty x) b1 (on_fill (maker_fill x i tside px (o_qty x)) s)
    \<and> level_is b F lside px ps (queue_of b ps) b1 \<and> InBand b1 px"
proof -
  obtain lvl where L: "LevelAt b lside px = Some lvl" "lv_head lvl = Some p" "deref (bk_slab b) p = Some x"
    and pin: "p \<in> set (F lside px)" and ptl: "p \<notin> set ps"
    using level_front [OF C band fs] x by (metis option.inject)
  from pop_head [OF C fs x L(1)] obtain sl1 lvl2 sl2 ix sl3 b1 where
    h: "assign p (less_qty (o_qty x) x) (bk_slab b) = Some sl1"
      "deref sl1 p = Some (less_qty (o_qty x) x)"
      "PopHead (less_total (o_qty x) lvl) p sl1 = Some (lvl2, sl2)"
      "LookupAndEraseId (o_id x) (bk_id_index b) = Some (Some p, ix)"
      "Deallocate (Some p) sl2 = Some sl3"
      "set_level (b\<lparr>bk_slab := sl3, bk_id_index := ix\<rparr>) lside px lvl2 = Some b1"
      "level_write lside px lvl2 (b\<lparr>bk_slab := sl3, bk_id_index := ix\<rparr>) b1"
      "core_inv b1 (put_fifo F lside px ps)" "sl_capacity sl3 = sl_capacity (bk_slab b)"
      "datum (heap b1) = (datum (heap b))(p := None)" by blast
  note w = level_writeD [OF h(7)]
  have "level_touched b b1" using w h(9) by (simp add: level_touched_def same_frame_def)
  moreover have e: "queue_of b1 ps = queue_of b ps" by (rule queue_of_frame [OF ptl]) (simp add: h(10))
  have "resting b1 (put_fifo F lside px ps) = put_queue (resting b F) lside px (queue_of b ps)"
    unfolding e [symmetric] by (rule resting_upd [OF C pin]) (simp add: h(10))
  ultimately have "level_is b F lside px ps (queue_of b ps) b1" using h(8) unfolding level_is_def by blast
  moreover have "min r (o_qty x) = o_qty x" "0 < r" using r by (auto simp: word_gt_0)
  then have "ConsumeLevel on_fill i tside px lside r b s
      = ConsumeLevel on_fill i tside px lside (r - o_qty x) b1 (on_fill (maker_fill x i tside px (o_qty x)) s)"
    using L h(1-6) by (subst ConsumeLevel.simps) (simp add: Let_def)
  moreover have "InBand b1 px" using band w(9) by (simp add: InBand_def)
  ultimately show ?thesis by blast
qed

lemma ConsumeLevel_empty:
  assumes C: "core_inv b F" and band: "InBand b px" and e: "F lside px = []"
  shows "ConsumeLevel on_fill i tside px lside r b s = Some (r, b, s)" "level_is b F lside px [] [] b"
    "resting b F lside px = []"
proof -
  obtain lvl where L: "LevelAt b lside px = Some lvl" "level_rep (heap b) lvl (F lside px)"
    using LevelAt_rep [OF C band] by blast
  have "lv_head lvl = None" using level_rep_head [OF L(2)] e by (simp add: first_def)
  then show "ConsumeLevel on_fill i tside px lside r b s = Some (r, b, s)"
    by (intro ConsumeLevel_done [OF L(1)] disjI2)
  show r: "resting b F lside px = []" using e by (simp add: resting_def)
  show "level_is b F lside px [] [] b" using level_is_refl [OF C] e r by metis
qed

lemma ConsumeLevel_ok:
  assumes "core_inv b F" "InBand b px" "fill_queue r (resting b F lside px) = (fs, r', rest)"
  shows "\<exists>b' ps. ConsumeLevel on_fill i tside px lside r b s
      = Some (r', b', fold on_fill (map (to_fill i tside) (map (Pair px) fs)) s)
    \<and> level_is b F lside px ps rest b'"
  using assms
proof (induction "F lside px" arbitrary: F b r s fs)
  case Nil
  note e = ConsumeLevel_empty [OF Nil(2,3) Nil(1) [symmetric]]
  have "fs = []" "r' = r" "rest = []" using Nil(4) e(3) by auto
  then show ?case using e(2) by (auto simp: e(1))
next
  case (Cons p ps)
  note C = Cons.prems(1) and fs = Cons.hyps(2) [symmetric] and band = Cons.prems(2)
  obtain lvl x where L: "LevelAt b lside px = Some lvl" and x: "heap b p = Some x"
    and q: "resting b F lside px = (o_id x, o_qty x) # queue_of b ps"
    using level_front [OF C band fs] by metis
  consider "r = 0" | "r \<noteq> 0" "r < o_qty x" | "r \<noteq> 0" "\<not> r < o_qty x" by blast
  then show ?case
  proof cases
    case 1
    then have "ConsumeLevel on_fill i tside px lside r b s = Some (r, b, s)"
      by (intro ConsumeLevel_done [OF L] disjI1)
    with Cons.prems(3) 1 level_is_refl [OF C fs refl] show ?thesis by auto
  next
    case 2
    then have "fs = [(o_id x, r)]" "r' = 0" "rest = (o_id x, o_qty x - r) # queue_of b ps"
      using Cons.prems(3) q by auto
    with ConsumeLevel_partial [OF C band fs x 2, of on_fill i tside s] show ?thesis
      by (auto simp: to_fill_def)
  next
    case 3
    obtain gs where g: "fill_queue (r - o_qty x) (queue_of b ps) = (gs, r', rest)" "fs = (o_id x, o_qty x) # gs"
      using Cons.prems(3) q 3 by (auto simp: Let_def split: prod.splits)
    obtain b1 where step: "ConsumeLevel on_fill i tside px lside r b s
        = ConsumeLevel on_fill i tside px lside (r - o_qty x) b1 (on_fill (maker_fill x i tside px (o_qty x)) s)"
      and l: "level_is b F lside px ps (queue_of b ps) b1" "InBand b1 px"
      using ConsumeLevel_pop [OF C band fs x 3, of on_fill i tside s] by blast
    then have "core_inv b1 (put_fifo F lside px ps)"
      "fill_queue (r - o_qty x) (resting b1 (put_fifo F lside px ps) lside px) = (gs, r', rest)"
      using g(1) by (simp_all add: level_is_def)
    with Cons.hyps(1) [of "put_fifo F lside px ps" b1 "r - o_qty x" gs] l(2) obtain b' qs where
      I: "ConsumeLevel on_fill i tside px lside (r - o_qty x) b1 (on_fill (maker_fill x i tside px (o_qty x)) s)
          = Some (r', b', fold on_fill (map (to_fill i tside) (map (Pair px) gs)) (on_fill (maker_fill x i tside px (o_qty x)) s))"
        "level_is b1 (put_fifo F lside px ps) lside px qs rest b'" by fastforce
    from level_is_trans [OF l(1) I(2)] step I(1) g(2) fold_fills [of on_fill i tside px "o_id x" "o_qty x" gs s]
    show ?thesis by (simp del: fun_upd_apply) blast
  qed
qed

section \<open>One round, and the loop\<close>

text \<open>The two matching loops as one function of the taker's side.\<close>

definition Match :: "Side \<Rightarrow> (Fill \<Rightarrow> 's \<Rightarrow> 's) \<Rightarrow> OrderId \<Rightarrow> Price \<Rightarrow> Quantity \<Rightarrow> OrderBook \<Rightarrow> 's
    \<Rightarrow> (Quantity \<times> OrderBook \<times> 's) option" where
  "Match side = (case side of kBuy \<Rightarrow> MatchBuy | kSell \<Rightarrow> MatchSell)"

lemma Match_unfold:
  "Match side on_fill i tp r b s =
     (let opp = opposite side; px = best_px b opp in
      if \<not> (r > 0 \<and> live_levels b opp > 0) \<or> better side px tp then Some (r, b, s)
      else do {
        (r1, b1, s1) \<leftarrow> ConsumeLevel on_fill i side px opp r b s;
        lvl \<leftarrow> LevelAt b1 opp px;
        b2 \<leftarrow> (if level_empty lvl then MarkLevelEmptied opp px b1 else Some b1);
        Match side on_fill i tp r1 b2 s1
      })"
  by (cases side) (simp_all add: Match_def Let_def MatchBuy.simps [of on_fill i tp r b s]
      MatchSell.simps [of on_fill i tp r b s] cong: if_cong)

text \<open>After \<^verbatim>\<open>ConsumeLevel\<close> the touch still describes the level as populated; an
  emptied level is then struck off.\<close>

lemma level_is_book_rep:
  assumes R: "book_rep b F" and L: "level_is b F opp px ps q b1" and ne: "F opp px \<noteq> []"
  shows "\<exists>lvl b2. LevelAt b1 opp px = Some lvl
    \<and> (if level_empty lvl then MarkLevelEmptied opp px b1 else Some b1) = Some b2
    \<and> book_rep b2 (put_fifo F opp px ps) \<and> same_frame b b2
    \<and> resting b2 (put_fifo F opp px ps) = put_queue (resting b F) opp px q"
proof -
  let ?F = "put_fifo F opp px ps"
  have C: "core_inv b F" and T: "\<And>s. touch_inv b F s" using R by (auto simp: book_rep_def)
  have C1: "core_inv b1 ?F" and lt: "level_touched b b1"
    and q: "resting b1 ?F = put_queue (resting b F) opp px q"
    using L by (auto simp only: level_is_def)
  have sf: "same_frame b b1" and ta: "touch_at b1 s P = touch_at b s P" for s P
    using lt by (auto simp: level_touched_def touch_at_def)
  have band: "InBand b1 px"
    using ladder_band [OF core_invD(3) [OF C] ne] same_frame_band [OF sf] by simp
  obtain lvl where lv: "LevelAt b1 opp px = Some lvl" "level_rep (heap b1) lvl (?F opp px)"
    using LevelAt_rep [OF C1 band] by blast
  have le: "level_empty lvl \<longleftrightarrow> ps = []" using level_empty_iff [OF lv(2)] by simp
  have "touch_at b1 = touch_at b" by (intro ext) (rule ta)
  from emptied_touch [OF C T ne core_invD(1) [OF C1] core_invD(3) [OF C1] this same_frame_band [OF sf] le]
  obtain b2 where m: "(if level_empty lvl then MarkLevelEmptied opp px b1 else Some b1) = Some b2"
    "touch_only opp b1 b2" "\<forall>s. touch_inv b2 ?F s" by blast
  note t = touch_onlyD [OF m(2)]
  have "book_rep b2 ?F" using C1 core_inv_touch_only [OF m(2)] m(3) unfolding book_rep_def by blast
  moreover have "same_frame b b2" using sf t(1-3) by (simp add: same_frame_def)
  moreover have "resting b2 ?F = resting b1 ?F" using t(8) by (simp only: resting_def)
  ultimately show ?thesis using lv(1) m(1) q by auto
qed

lemma round_ok:
  assumes R: "book_rep b F" and ne: "F (opposite side) px \<noteq> []"
    and f: "fill_queue r (resting b F (opposite side) px) = (fs, r1, rest)"
  shows "\<exists>b1 s1 lvl b2 F2. ConsumeLevel on_fill i side px (opposite side) r b s = Some (r1, b1, s1)
    \<and> s1 = fold on_fill (map (to_fill i side) (map (Pair px) fs)) s
    \<and> LevelAt b1 (opposite side) px = Some lvl
    \<and> (if level_empty lvl then MarkLevelEmptied (opposite side) px b1 else Some b1) = Some b2
    \<and> book_rep b2 F2 \<and> same_frame b b2
    \<and> resting b2 F2 = put_queue (resting b F) (opposite side) px rest"
proof -
  have C: "core_inv b F" using R by (auto simp: book_rep_def)
  have band: "InBand b px" using ladder_band [OF core_invD(3) [OF C] ne] .
  from ConsumeLevel_ok [OF C band f, of on_fill i side s] obtain b' ps where
    c: "ConsumeLevel on_fill i side px (opposite side) r b s
      = Some (r1, b', fold on_fill (map (to_fill i side) (map (Pair px) fs)) s)"
      "level_is b F (opposite side) px ps rest b'" by blast
  from level_is_book_rep [OF R c(2) ne] c(1) show ?thesis by blast
qed

lemma card_populated_less:
  assumes "core_inv b F" "F side px \<noteq> []" "resting b2 F2 = put_queue (resting b F) side px []"
  shows "card (populated F2 side) < card (populated F side)"
proof -
  have "populated F2 side = populated F side - {px}"
    unfolding populated_resting [of F2 side b2] populated_resting [of F side b] assms(3) by auto
  moreover have "px \<in> populated F side" using assms(2) by (simp add: populated_def)
  ultimately show ?thesis using card_Diff1_less [OF populated_finite [OF assms(1)]] by simp
qed

abbreviation crossed :: "OrderBook \<Rightarrow> Side \<Rightarrow> Price \<Rightarrow> Price list" where
  "crossed b side tp \<equiv> crossing side (bk_min_price b) (bk_max_price b) tp"

text \<open>Nothing to trade: the loop does not run, and the sweep finds no maker.\<close>

lemma Match_idle:
  assumes R: "book_rep b F"
    and idle: "\<not> (r > 0 \<and> populated F (opposite side) \<noteq> {} \<and> \<not> better side (best_px b (opposite side)) tp)"
  shows "Match side on_fill i tp r b s = Some (r, b, s)"
    and "sweep (crossed b side tp) r (resting b F (opposite side)) = ([], r, resting b F (opposite side))"
proof -
  let ?opp = "opposite side"
  have T: "touch_inv b F ?opp" and lp: "live_levels b ?opp > 0 \<longleftrightarrow> populated F ?opp \<noteq> {}"
    using R live_pos_iff by (auto simp: book_rep_def)
  show "Match side on_fill i tp r b s = Some (r, b, s)"
    by (subst Match_unfold) (use idle lp in \<open>auto simp: Let_def\<close>)
  show "sweep (crossed b side tp) r (resting b F ?opp) = ([], r, resting b F ?opp)"
  proof (cases "r = 0")
    case nz: False
    have "resting b F ?opp q = []" if "q \<in> set (crossed b side tp)" for q
    proof (rule ccontr)
      assume "resting b F ?opp q \<noteq> []"
      then have q: "F ?opp q \<noteq> []" by simp
      then have ne: "populated F ?opp \<noteq> {}" by (auto simp: populated_def)
      then have "better side (best_px b ?opp) tp" using idle nz by (auto simp: word_gt_0)
      moreover have "\<not> better side q tp" using that by (simp add: set_crossing)
      moreover have "\<not> better ?opp q (best_px b ?opp)" using best_populated(2) [OF T ne q] .
      ultimately show False by (cases side) auto
    qed
    then show ?thesis by (intro sweep_skip) blast
  qed simp
qed

text \<open>One round of the loop is the sweep's visit to the best price, after which either the taker is
  used up or one level less is populated.\<close>

lemma Match_round:
  assumes R: "book_rep b F"
    and live: "r > 0" "populated F (opposite side) \<noteq> {}" "\<not> better side (best_px b (opposite side)) tp"
    and sw: "sweep (crossed b side tp) r (resting b F (opposite side)) = (fs, r', D)"
  shows "\<exists>gs hs r1 b2 F2. fs = gs @ hs
    \<and> Match side on_fill i tp r b s = Match side on_fill i tp r1 b2 (fold on_fill (map (to_fill i side) gs) s)
    \<and> book_rep b2 F2 \<and> same_frame b b2 \<and> (resting b2 F2)(opposite side := D) = (resting b F)(opposite side := D)
    \<and> sweep (crossed b2 side tp) r1 (resting b2 F2 (opposite side)) = (hs, r', D)
    \<and> (r1 = 0 \<or> card (populated F2 (opposite side)) < card (populated F (opposite side)))"
proof -
  let ?opp = "opposite side" and ?px = "best_px b (opposite side)" and ?D = "resting b F (opposite side)"
  have C: "core_inv b F" and T: "touch_inv b F ?opp" using R by (auto simp: book_rep_def)
  have ne: "F ?opp ?px \<noteq> []" using best_populated(1) [OF T] live(2) by blast
  have "InBand b ?px" using ladder_band [OF core_invD(3) [OF C] ne] .
  with crossing_split [of "bk_min_price b" ?px "bk_max_price b" side tp] live(3) obtain xs ys where
    split: "crossed b side tp = xs @ ?px # ys" "\<forall>q\<in>set xs. better ?opp q ?px" "?px \<notin> set xs"
    by (auto simp: InBand_def)
  have empty: "\<forall>q\<in>set xs. ?D q = []" using split(2) best_populated(2) [OF T] live(2) by auto
  obtain gs r1 rest where f: "fill_queue r (?D ?px) = (gs, r1, rest)" by (cases "fill_queue r (?D ?px)")
  obtain hs D2 r2 where h: "sweep (xs @ ?px # ys) r1 (?D(?px := rest)) = (hs, r2, D2)"
    by (cases "sweep (xs @ ?px # ys) r1 (?D(?px := rest))")
  from sweep_at [OF empty split(3) f h] sw split(1)
  have eqs: "fs = map (Pair ?px) gs @ hs" "r' = r2" "D = D2" by auto
  from round_ok [OF R ne f, of on_fill i s] obtain b1 s1 lvl b2 F2 where
    o: "ConsumeLevel on_fill i side ?px ?opp r b s = Some (r1, b1, s1)"
      "s1 = fold on_fill (map (to_fill i side) (map (Pair ?px) gs)) s"
      "LevelAt b1 ?opp ?px = Some lvl"
      "(if level_empty lvl then MarkLevelEmptied ?opp ?px b1 else Some b1) = Some b2"
      "book_rep b2 F2" "same_frame b b2" "resting b2 F2 = put_queue (resting b F) ?opp ?px rest" by blast
  have "Match side on_fill i tp r b s = Match side on_fill i tp r1 b2 s1"
    by (subst Match_unfold) (use live live_pos_iff [OF C T] o(1,3,4) in \<open>simp add: Let_def\<close>)
  moreover have "sweep (crossed b2 side tp) r1 (resting b2 F2 ?opp) = (hs, r', D)"
    using h eqs split(1) o(6,7) by (simp add: same_frame_def)
  moreover have "card (populated F2 ?opp) < card (populated F ?opp)" if "r1 \<noteq> 0"
    using card_populated_less [OF C ne, of b2 F2] fill_queue_left [OF f that] o(7) by simp
  moreover have "(resting b2 F2)(?opp := D) = (resting b F)(?opp := D)" using o(7) by simp
  ultimately show ?thesis using eqs(1) o(2,5,6) by blast
qed

lemma Match_ok:
  assumes "book_rep b F" "sweep (crossed b side tp) r (resting b F (opposite side)) = (fs, r', D)"
  shows "\<exists>b' F'. Match side on_fill i tp r b s = Some (r', b', fold on_fill (map (to_fill i side) fs) s)
    \<and> book_rep b' F' \<and> same_frame b b' \<and> resting b' F' = (resting b F)(opposite side := D)"
  using assms
proof (induction "card (populated F (opposite side))" arbitrary: b F r s fs rule: less_induct)
  case less
  show ?case
  proof (cases "r > 0 \<and> populated F (opposite side) \<noteq> {} \<and> \<not> better side (best_px b (opposite side)) tp")
    case False
    from Match_idle(1) [OF less.prems(1) False, of on_fill i s] Match_idle(2) [OF less.prems(1) False] less.prems show ?thesis
      by (intro exI [of _ b] exI [of _ F]) auto
  next
    case True
    from Match_round [OF less.prems(1) _ _ _ less.prems(2), of on_fill i s] True obtain gs hs r1 b2 F2 where
      o: "fs = gs @ hs"
      "Match side on_fill i tp r b s = Match side on_fill i tp r1 b2 (fold on_fill (map (to_fill i side) gs) s)"
      "book_rep b2 F2" "same_frame b b2" "(resting b2 F2)(opposite side := D) = (resting b F)(opposite side := D)"
      "sweep (crossed b2 side tp) r1 (resting b2 F2 (opposite side)) = (hs, r', D)"
      "r1 = 0 \<or> card (populated F2 (opposite side)) < card (populated F (opposite side))" by blast
    have "\<exists>b' F'. Match side on_fill i tp r1 b2 t = Some (r', b', fold on_fill (map (to_fill i side) hs) t)
      \<and> book_rep b' F' \<and> same_frame b2 b' \<and> resting b' F' = (resting b2 F2)(opposite side := D)" for t
    proof (cases "r1 = 0")
      case True
      then have idle: "\<not> (r1 > 0 \<and> populated F2 (opposite side) \<noteq> {} \<and> \<not> better side (best_px b2 (opposite side)) tp)"
        by simp
      from Match_idle(1) [OF o(3) idle, of on_fill i t] Match_idle(2) [OF o(3) idle] o(3,6) show ?thesis
        by (intro exI [of _ b2] exI [of _ F2]) auto
    next
      case False
      with o(7) less.hyps [OF _ o(3,6)] show ?thesis by blast
    qed
    from this [of "fold on_fill (map (to_fill i side) gs) s"] obtain b' F' where
      "Match side on_fill i tp r b s = Some (r', b', fold on_fill (map (to_fill i side) fs) s)"
      "book_rep b' F'" "same_frame b2 b'" "resting b' F' = (resting b F)(opposite side := D)"
      unfolding o(2,5) by (auto simp: o(1))
    with same_frame_trans [OF o(4)] show ?thesis by blast
  qed
qed

end
