(* ===== verification/Book_Correct.thy ===== *)
theory Book_Correct imports Book_Matching begin

text \<open>
  The public operations of the book refine \<open>Book_Spec\<close>. The abstraction \<open>depth_of\<close> walks
  the links of a level, as a debugger would; the representation relation of
  \<open>Book_Invariant\<close> stays inside the proofs. The theorems give \<^verbatim>\<open>AddLimit\<close>,
  \<^verbatim>\<open>Cancel\<close> and the observers their full functional behaviour, and run them in
  arbitrary scripts.
\<close>

section \<open>The queues, read off the links\<close>

fun chase :: "nat \<Rightarrow> (ptr \<Rightarrow> Order option) \<Rightarrow> ptr option \<Rightarrow> queue" where
  "chase n h None = []"
| "chase 0 h (Some p) = []"
| "chase (Suc n) h (Some p) =
     (case h p of None \<Rightarrow> [] | Some x \<Rightarrow> (o_id x, o_qty x) # chase n h (o_next x))"

definition depth_of :: "OrderBook \<Rightarrow> depth" where
  "depth_of b = (\<lambda>side px. case LevelAt b side px of
     None \<Rightarrow> []
   | Some lvl \<Rightarrow> chase (sl_capacity (bk_slab b)) (deref (bk_slab b)) (lv_head lvl))"

lemma chase_lst:
  "lst (nextf h) x ps \<Longrightarrow> set ps \<subseteq> dom h \<Longrightarrow> length ps \<le> n \<Longrightarrow>
    chase n h x = map (\<lambda>p. entry (datum h p)) ps"
proof (induction ps arbitrary: x n)
  case Nil
  then show ?case by simp
next
  case (Cons p ps)
  then obtain m r where "n = Suc m" "h p = Some r" by (cases n) auto
  with Cons show ?case by (auto simp: nextf_def entry_def datum_def)
qed

lemma fifo_length:
  assumes "core_inv b F"
  shows "length (F side px) \<le> sl_capacity (bk_slab b)"
proof -
  have "set (F side px) \<subseteq> live (bk_slab b)"
    using orders_invD [OF core_invD(4) [OF assms]] live_heap [OF assms] by fastforce
  then have "card (set (F side px)) \<le> card (live (bk_slab b))" by (rule card_mono [OF live_finite])
  then show ?thesis
    using pool.live_bounded [OF core_invD(2) [OF assms]] distinct_card [OF fifo_distinct [OF assms]]
    by (metis le_trans)
qed

lemma depth_resting:
  assumes "core_inv b F"
  shows "depth_of b = resting b F"
proof (intro ext)
  fix side px
  show "depth_of b side px = resting b F side px"
  proof (cases "InBand b px")
    case True
    then obtain lvl where L: "LevelAt b side px = Some lvl" "level_rep (heap b) lvl (F side px)"
      using LevelAt_rep [OF assms] by blast
    from chase_lst [OF level_repD(3,2) [OF L(2)] fifo_length [OF assms]] L(1)
    show ?thesis by (simp add: depth_of_def resting_def heap_def)
  next
    case False
    then show ?thesis
      using ladder_out [OF core_invD(3) [OF assms] False] by (simp add: depth_of_def LevelAt_def resting_def)
  qed
qed

lemma depth_repD: "book_rep b F \<Longrightarrow> depth_of b = resting b F"
  by (simp add: book_rep_def depth_resting)

text \<open>Unknown to the index means resting nowhere.\<close>

lemma contents_iff_resting:
  assumes "core_inv b F"
  shows "contents (bk_id_index b) i \<noteq> None \<longleftrightarrow> spec_resting i (depth_of b)"
proof -
  have A: "contents (bk_id_index b) i = Some p \<longleftrightarrow> (\<exists>x. heap b p = Some x \<and> o_id x = i)" for p
    using core_invD(5) [OF assms] by (simp add: index_agrees_def)
  show ?thesis
  proof
    assume "contents (bk_id_index b) i \<noteq> None"
    then obtain p x where x: "heap b p = Some x" "o_id x = i" using A by auto
    have "(i, o_qty x) \<in> set (resting b F (o_side x) (o_price x))"
      using orders_heap(1) [OF assms x(1)] entry_heap [OF x(1)] x(2) by (auto simp: resting_def image_iff intro!: bexI)
    then show "spec_resting i (depth_of b)" unfolding depth_resting [OF assms] spec_resting_def by blast
  next
    assume "spec_resting i (depth_of b)"
    then obtain side px q where "(i, q) \<in> set (resting b F side px)"
      unfolding depth_resting [OF assms] spec_resting_def by blast
    then obtain p where p: "p \<in> set (F side px)" "entry (datum (heap b) p) = (i, q)"
      by (auto simp: resting_def)
    from orders_invD [OF core_invD(4) [OF assms] p(1)] obtain x where "heap b p = Some x" by blast
    with entry_heap [of b p x] p(2) A [of p] show "contents (bk_id_index b) i \<noteq> None" by auto
  qed
qed

section \<open>How many orders rest\<close>

lemma order_total_live:
  assumes "core_inv b F"
  shows "order_total (bk_min_price b) (bk_max_price b) (resting b F) = card (live (bk_slab b))"
proof -
  let ?B = "{bk_min_price b..bk_max_price b}"
  have side: "card (\<Union>px\<in>?B. set (F side px)) = (\<Sum>px\<in>?B. length (F side px))" for side
  proof -
    have "\<forall>p\<in>?B. \<forall>q\<in>?B. p \<noteq> q \<longrightarrow> set (F side p) \<inter> set (F side q) = {}"
      using fifo_disjoint [OF assms] by blast
    then have "card (\<Union>px\<in>?B. set (F side px)) = (\<Sum>px\<in>?B. card (set (F side px)))"
      by (intro card_UN_disjoint) auto
    then show ?thesis using distinct_card [OF fifo_distinct [OF assms]] by simp
  qed
  have in_band: "px \<in> ?B" if "p \<in> set (F side px)" for p side px
    using ladder_band [OF core_invD(3) [OF assms], of side px] that
    by (cases "F side px") (auto simp: InBand_def)
  have "live (bk_slab b) = (\<Union>px\<in>?B. set (F kBuy px)) \<union> (\<Union>px\<in>?B. set (F kSell px))"
  proof (intro equalityI subsetI)
    fix p assume "p \<in> live (bk_slab b)"
    then obtain s px where "p \<in> set (F s px)"
      using core_invD(4) [OF assms] by (auto simp: orders_inv_def)
    with in_band show "p \<in> (\<Union>px\<in>?B. set (F kBuy px)) \<union> (\<Union>px\<in>?B. set (F kSell px))"
      by (cases s) blast+
  next
    fix p assume "p \<in> (\<Union>px\<in>?B. set (F kBuy px)) \<union> (\<Union>px\<in>?B. set (F kSell px))"
    then obtain s px where "p \<in> set (F s px)" by blast
    then show "p \<in> live (bk_slab b)"
      using orders_invD [OF core_invD(4) [OF assms]] live_heap [OF assms] by fastforce
  qed
  moreover have "(\<Union>px\<in>?B. set (F kBuy px)) \<inter> (\<Union>px\<in>?B. set (F kSell px)) = {}"
    using fifo_disjoint [OF assms] by blast
  ultimately have "card (live (bk_slab b))
      = (\<Sum>px\<in>?B. length (F kBuy px)) + (\<Sum>px\<in>?B. length (F kSell px))"
    using side by (simp add: card_Un_disjoint)
  then show ?thesis by (simp add: order_total_def sum.distrib)
qed

section \<open>Construction\<close>

lemma new_core:
  assumes ix: "index_inv ix" "contents ix = Map.empty" "unat c < room ix"
    and band: "mn \<le> mx" "mx - mn + 1 < 2 ^ 63"
    and b: "b = \<lparr>bk_slab = new_slab (unat c), bk_min_price = mn, bk_max_price = mx,
      bk_bid_levels = replicate (nat (mx - mn + 1)) empty_level,
      bk_ask_levels = replicate (nat (mx - mn + 1)) empty_level,
      bk_best_bid_px = 0, bk_best_ask_px = 0, bk_live_bid_levels = 0, bk_live_ask_levels = 0,
      bk_id_index = ix\<rparr>"
  shows "book_rep b (\<lambda>_ _. [])"
proof -
  note sl = new_slab_inv [of "unat c"]
  have lv: "levels b s = replicate (nat (mx - mn + 1)) empty_level" for s
    by (cases s) (simp_all add: b)
  have cp: "sl_capacity (bk_slab b) = unat c" using new_slab_fields(1) by (simp add: b)
  have lp: "live (bk_slab b) = {}" using new_slab_live by (simp add: b)
  have hp: "heap b p = None" for p
    using pool.get_live [of "bk_slab b" p] sl lp by (cases "heap b p") (auto simp: heap_def b)
  have "shape_inv b" using band lv by (simp add: shape_inv_def) (simp add: b)
  moreover have "ladder_inv b (\<lambda>_ _. [])"
    using lv by (auto simp: ladder_inv_def InBand_def Idx_def b)
  moreover have "orders_inv b (\<lambda>_ _. [])" using lp by (simp add: orders_inv_def)
  moreover have "index_agrees b"
    using ix hp cp by (simp add: index_agrees_def) (simp add: b)
  moreover have "slab_inv (bk_slab b)" using sl by (simp add: b)
  moreover have "touch_inv b (\<lambda>_ _. []) s" for s
    by (cases s) (simp_all add: touch_inv_def touch_at_def populated_def b)
  ultimately show ?thesis by (simp add: book_rep_def core_inv_def)
qed

lemma Order_slab:
  "SlabAllocator sizeof_Order c = (if unat c < 2 ^ 58 then Some (new_slab (unat c)) else None)"
proof -
  have k: "unat (kSlotSize sizeof_Order) = 64" by (simp add: kSlotSize_nat sizeof_Order_def)
  then have "0 < unat (kSlotSize sizeof_Order)" by simp
  from SlabAllocator_eq [OF this, of c] show ?thesis unfolding k by (simp split: if_splits)
qed

lemma OrderBook_new_bound: "OrderBook_new c mn mx = Some b \<Longrightarrow> c < 2 ^ 58"
  by (auto simp: OrderBook_new_def Order_slab word_less_nat_alt split: if_splits bind_splits)

lemma OrderBook_new_ok:
  assumes "c < 2 ^ 58" "mn \<le> mx" "- (2 ^ 63) \<le> mn" "mx < 2 ^ 63" "mx - mn + 1 < 2 ^ 63"
  shows "\<exists>b. OrderBook_new c mn mx = Some b \<and> book_inv b \<and> depth_of b = (\<lambda>_ _. [])
    \<and> bk_min_price b = mn \<and> bk_max_price b = mx \<and> slab_capacity b = unat c"
proof -
  obtain ix where ix: "id_index_new c = Some ix" "index_inv ix" "contents ix = Map.empty"
    "2 * max (unat c) 1 \<le> room ix"
    using id_index_new_ok [of c] assms(1) by (auto simp: word_le_nat_alt word_less_nat_alt)
  have c: "unat c < 2 ^ 58" using assms(1) by (simp add: word_less_nat_alt)
  have "unat c < room ix" using ix(4) by linarith
  note R = new_core [OF ix(2,3) this assms(2,5) refl]
  have "OrderBook_new c mn mx = Some \<lparr>bk_slab = new_slab (unat c), bk_min_price = mn, bk_max_price = mx,
      bk_bid_levels = replicate (nat (mx - mn + 1)) empty_level,
      bk_ask_levels = replicate (nat (mx - mn + 1)) empty_level,
      bk_best_bid_px = 0, bk_best_ask_px = 0, bk_live_bid_levels = 0, bk_live_ask_levels = 0,
      bk_id_index = ix\<rparr>"
    using assms(2-5) c ix(1) by (simp add: OrderBook_new_def Order_slab Let_def)
  with R depth_repD [OF R] show ?thesis
    by (auto simp: book_inv_def slab_capacity_def new_slab_fields resting_def)
qed

section \<open>The operations\<close>

lemma AddLimit_Match:
  "AddLimit on_fill i side px qty b s =
     (if qty = 0 then None
      else do {
        (r, b1, s1) \<leftarrow> Match side on_fill i px qty b s;
        if r = 0 then Some (True, b1, s1)
        else do { (ok, b2) \<leftarrow> Rest i side px r b1; Some (ok, b2, s1) }
      })"
  by (cases side) (simp_all add: AddLimit_def Match_def cong: if_cong)

text \<open>Resting the residual, against \<open>Book_Spec\<close>: it joins the back of its queue unless its price is
  outside the band or the slab is full.\<close>

lemma Rest_refines:
  assumes R: "book_rep b F" and fresh: "\<not> spec_resting i (resting b F)" and r: "r \<noteq> 0"
    and ok: "ok \<longleftrightarrow> bk_min_price b \<le> px \<and> px \<le> bk_max_price b
      \<and> order_total (bk_min_price b) (bk_max_price b) (resting b F) < sl_capacity (bk_slab b)"
  shows "\<exists>b' F'. Rest i side px r b = Some (ok, b') \<and> book_rep b' F' \<and> same_frame b b'
    \<and> resting b' F' = (if ok then put_queue (resting b F) side px (resting b F side px @ [(i, r)]) else resting b F)"
proof -
  have C: "core_inv b F" using R by (simp add: book_rep_def)
  have ok: "ok \<longleftrightarrow> InBand b px \<and> card (live (bk_slab b)) < sl_capacity (bk_slab b)"
    using ok order_total_live [OF C] by (auto simp: InBand_def)
  show ?thesis
  proof (cases ok)
    case True
    have "contents (bk_id_index b) i = None"
      using fresh contents_iff_resting [OF C, of i] depth_resting [OF C]
      by (cases "contents (bk_id_index b) i") auto
    with Rest_ok [OF R _ _ this r] True ok obtain p b2 where
      rs: "Rest i side px r b = Some (True, b2)" "p \<notin> live (bk_slab b)"
        "book_rep b2 (put_fifo F side px (F side px @ [p]))"
        "datum (heap b2) = (datum (heap b))(p \<mapsto> (i, px, r, side))"
        "bk_min_price b2 = bk_min_price b" "bk_max_price b2 = bk_max_price b"
        "sl_capacity (bk_slab b2) = sl_capacity (bk_slab b)" by blast
    have np: "p \<notin> set (F s q)" for s q
      using rs(2) orders_invD [OF core_invD(4) [OF C], of p s q] live_heap [OF C] by auto
    have "resting b2 (put_fifo F side px (F side px @ [p])) = put_queue (resting b F) side px (resting b F side px @ [(i, r)])"
      unfolding resting_def rs(4) using np by (auto simp: fun_eq_iff entry_def)
    moreover have "same_frame b b2" using rs(5-7) by (simp add: same_frame_def)
    ultimately show ?thesis using rs(1,3) True by auto
  next
    case False
    then have "Rest i side px r b = Some (False, b)"
      using ok Rest_out Rest_full [OF C] pool.live_bounded [OF core_invD(2) [OF C]] by (cases "InBand b px") auto
    with R False show ?thesis by (intro exI [of _ b] exI [of _ F]) simp
  qed
qed

lemma AddLimit_ok:
  assumes R: "book_rep b F" and qty: "qty \<noteq> 0" and fresh: "\<not> spec_resting i (resting b F)"
    and spec: "spec_add (bk_min_price b) (bk_max_price b) (sl_capacity (bk_slab b)) i side px qty (resting b F)
      = (ok, fills, D')"
  shows "\<exists>b' F'. AddLimit on_fill i side px qty b s = Some (ok, b', fold on_fill fills s)
    \<and> book_rep b' F' \<and> same_frame b b' \<and> resting b' F' = D'"
proof -
  let ?mn = "bk_min_price b" and ?mx = "bk_max_price b"
  obtain fs r D1 where sw: "sweep (crossing side ?mn ?mx px) qty (resting b F (opposite side)) = (fs, r, D1)"
    by (cases "sweep (crossing side ?mn ?mx px) qty (resting b F (opposite side))")
  from Match_ok [OF R sw, of on_fill i s] obtain b1 F1 where
    m: "Match side on_fill i px qty b s = Some (r, b1, fold on_fill (map (to_fill i side) fs) s)"
      "book_rep b1 F1" "same_frame b b1" "resting b1 F1 = (resting b F)(opposite side := D1)" by blast
  have sf: "bk_min_price b1 = ?mn" "bk_max_price b1 = ?mx" "sl_capacity (bk_slab b1) = sl_capacity (bk_slab b)"
    using m(3) by (auto simp: same_frame_def)
  have fresh1: "\<not> spec_resting i (resting b1 F1)"
    using fresh sweep_resting [OF sw] unfolding m(4) spec_resting_def by (auto split: if_splits) metis
  show ?thesis
  proof (cases "r = 0")
    case True
    with m sw spec qty show ?thesis
      by (intro exI [of _ b1] exI [of _ F1]) (auto simp: AddLimit_Match spec_add_def Let_def)
  next
    case r0: False
    then have "ok \<longleftrightarrow> bk_min_price b1 \<le> px \<and> px \<le> bk_max_price b1
        \<and> order_total (bk_min_price b1) (bk_max_price b1) (resting b1 F1) < sl_capacity (bk_slab b1)"
      "fills = map (to_fill i side) fs"
      "D' = (if ok then put_queue (resting b1 F1) side px (resting b1 F1 side px @ [(i, r)]) else resting b1 F1)"
      using spec sw unfolding sf m(4) by (auto simp: spec_add_def Let_def split: if_splits)
    with Rest_refines [OF m(2) fresh1 r0, of ok px side] obtain b2 F2 where
      "Rest i side px r b1 = Some (ok, b2)" "book_rep b2 F2" "same_frame b1 b2" "resting b2 F2 = D'"
      "fills = map (to_fill i side) fs" by blast
    with m(1) same_frame_trans [OF m(3)] qty r0 show ?thesis
      by (intro exI [of _ b2] exI [of _ F2]) (simp add: AddLimit_Match)
  qed
qed

text \<open>Cancelling a resting order takes its node out of its level.\<close>

lemma cancel_resting:
  assumes C: "core_inv b F" and x: "heap b p = Some x" "o_id x = i"
  shows "spec_cancel i (resting b F) = (\<lambda>s q. map (\<lambda>r. entry (datum (heap b) r)) (filter (\<lambda>r. r \<noteq> p) (F s q)))"
proof (intro ext)
  fix s q
  have "fst (entry (datum (heap b) r)) = i \<longleftrightarrow> r = p" if r: "r \<in> set (F s q)" for r
  proof -
    obtain y where y: "heap b r = Some y" using orders_invD [OF core_invD(4) [OF C] r] by blast
    have "contents (bk_id_index b) (o_id y) = Some r" "contents (bk_id_index b) i = Some p"
      using core_invD(5) [OF C] x y by (auto simp: index_agrees_def)
    then show ?thesis using entry_heap [OF y] x y by auto
  qed
  then show "spec_cancel i (resting b F) s q
      = map (\<lambda>r. entry (datum (heap b) r)) (filter (\<lambda>r. r \<noteq> p) (F s q))"
    by (auto simp: spec_cancel_def resting_def filter_map o_def intro!: arg_cong [where f = "map _"] filter_cong)
qed

lemma index_only:
  assumes R: "book_rep b F" and ix: "index_inv ix" "contents ix = contents (bk_id_index b)"
    "room ix = room (bk_id_index b)"
  shows "book_rep (b\<lparr>bk_id_index := ix\<rparr>) F"
proof -
  let ?b = "b\<lparr>bk_id_index := ix\<rparr>"
  have e: "heap ?b = heap b" "InBand ?b = InBand b" "Idx ?b = Idx b" "levels ?b = levels b"
    by (simp_all add: heap_def InBand_def Idx_def fun_eq_iff)
  have "core_inv ?b F"
    using R ix ladder_inv_cong [OF e(1,4,2,3)] e
    by (auto simp: book_rep_def core_inv_def shape_inv_def orders_inv_def index_agrees_def)
  then show ?thesis using R by (simp add: book_rep_def touch_inv_def)
qed

text \<open>The unlinking half of a cancel, up to the repaired touch; the node is still allocated.\<close>

lemma cancel_unlink:
  assumes R: "book_rep b F" and x: "heap b p = Some x" and fs: "F (o_side x) (o_price x) = xs @ p # ys"
    and F': "F' = put_fifo F (o_side x) (o_price x) (xs @ ys)"
  shows "\<exists>lvl lvl1 sl1 b2 b3. LevelAt b (o_side x) (o_price x) = Some lvl
    \<and> UnlinkFromLevel lvl p (bk_slab b) = Some (lvl1, sl1)
    \<and> set_level (b\<lparr>bk_slab := sl1\<rparr>) (o_side x) (o_price x) lvl1 = Some b2
    \<and> (if level_empty lvl1 then MarkLevelEmptied (o_side x) (o_price x) b2 else Some b2) = Some b3
    \<and> shape_inv b3 \<and> ladder_inv b3 F' \<and> (\<forall>s. touch_inv b3 F' s)
    \<and> links_moved (set (xs @ ys)) (bk_slab b) (bk_slab b3) \<and> bk_id_index b3 = bk_id_index b \<and> same_frame b b3"
proof -
  let ?s = "o_side x" and ?q = "o_price x"
  have C: "core_inv b F" and T: "\<And>s. touch_inv b F s" using R by (auto simp: book_rep_def)
  note c = core_invD [OF C]
  have ne: "F ?s ?q \<noteq> []" using fs by simp
  have band: "InBand b ?q" using ladder_band [OF c(3) ne] .
  obtain lvl where L: "LevelAt b ?s ?q = Some lvl" "level_rep (heap b) lvl (F ?s ?q)"
    using LevelAt_rep [OF C band] by blast
  from UnlinkFromLevel_ok [OF c(2), of lvl xs p ys] L(2) fs obtain lvl1 sl1 where
    U: "UnlinkFromLevel lvl p (bk_slab b) = Some (lvl1, sl1)" "level_rep (deref sl1) lvl1 (xs @ ys)"
      "links_moved (set (xs @ ys)) (bk_slab b) sl1" by (auto simp: heap_def)
  have sub: "set (xs @ ys) \<subseteq> set (F ?s ?q)" using fs by auto
  obtain b2 where b2: "set_level (b\<lparr>bk_slab := sl1\<rparr>) ?s ?q lvl1 = Some b2"
    "level_write ?s ?q lvl1 (b\<lparr>bk_slab := sl1\<rparr>) b2" "shape_inv b2" "ladder_inv b2 F'"
    using write_level [OF C band U(2), of ?s] other_level_frame [OF C U(3) sub] unfolding F' by blast
  note w = level_writeD [OF b2(2)]
  have "touch_at b2 = touch_at b" "InBand b2 = InBand b"
    using w(9,11) by (simp_all add: touch_at_def InBand_def fun_eq_iff)
  from emptied_touch [OF C T ne b2(3) b2(4) [unfolded F'] this level_empty_iff [OF U(2)]] obtain b3 where
    m: "(if level_empty lvl1 then MarkLevelEmptied ?s ?q b2 else Some b2) = Some b3"
      "touch_only ?s b2 b3" "\<forall>s. touch_inv b3 F' s" unfolding F' by blast
  note t = touch_onlyD [OF m(2)]
  have "ladder_inv b3 F'" using b2(4) ladder_inv_cong [OF t(8,4,6,7)] by simp
  moreover have "same_frame b b3"
    using t(1-3) w(1,3,4) links_movedD(3) [OF U(3)] by (simp add: same_frame_def)
  moreover have "shape_inv b3" "bk_slab b3 = sl1" "bk_id_index b3 = bk_id_index b"
    using b2(3) t(1,5,9) w(1,2) by simp_all
  ultimately show ?thesis using L(1) U(1,3) b2(1) m(1,3)
    by (intro exI [of _ lvl] exI [of _ lvl1] exI [of _ sl1] exI [of _ b2] exI [of _ b3]) simp
qed

text \<open>The level and touch updates of a cancel do not look at the id index.\<close>

lemma index_frame:
  "LevelAt (b\<lparr>bk_id_index := ix\<rparr>) = LevelAt b"
  "set_level b side px lvl = Some b' \<Longrightarrow>
    set_level (b\<lparr>bk_id_index := ix\<rparr>) side px lvl = Some (b'\<lparr>bk_id_index := ix\<rparr>)"
  "MarkLevelEmptied side px b = Some b' \<Longrightarrow>
    MarkLevelEmptied side px (b\<lparr>bk_id_index := ix\<rparr>) = Some (b'\<lparr>bk_id_index := ix\<rparr>)"
  "b\<lparr>bk_id_index := ix, bk_slab := sl\<rparr> = b\<lparr>bk_slab := sl, bk_id_index := ix\<rparr>"
proof -
  show "LevelAt (b\<lparr>bk_id_index := ix\<rparr>) = LevelAt b"
    by (intro ext) (simp add: LevelAt_def InBand_def Idx_def)
  show "set_level b side px lvl = Some b' \<Longrightarrow>
    set_level (b\<lparr>bk_id_index := ix\<rparr>) side px lvl = Some (b'\<lparr>bk_id_index := ix\<rparr>)"
    by (cases side) (auto simp: upd_opt_eq_Some Idx_def split: bind_splits)
  show "MarkLevelEmptied side px b = Some b' \<Longrightarrow>
    MarkLevelEmptied side px (b\<lparr>bk_id_index := ix\<rparr>) = Some (b'\<lparr>bk_id_index := ix\<rparr>)"
    by (cases side) (auto simp: Let_def split: bind_splits if_splits)
qed simp

text \<open>Taking \<open>p\<close> out of its queue is filtering it from all queues.\<close>

lemma dropped_queue:
  assumes C: "core_inv b F" and fs: "F side px = xs @ p # ys"
  shows "put_fifo F side px (xs @ ys) s q = filter (\<lambda>r. r \<noteq> p) (F s q)"
proof (cases "s = side \<and> q = px")
  case True
  have "p \<notin> set xs" "p \<notin> set ys" using fifo_distinct [OF C, of side px] fs by auto
  then have "filter (\<lambda>r. r \<noteq> p) xs = xs" "filter (\<lambda>r. r \<noteq> p) ys = ys" by (auto intro: filter_True)
  then show ?thesis using True fs by simp
next
  case False
  have "p \<notin> set (F s q)" using False fs fifo_disjoint [OF C, of p s q side px] by auto
  then have "filter (\<lambda>r. r \<noteq> p) (F s q) = F s q" by (auto intro: filter_True)
  then show ?thesis using False by auto
qed

lemma Cancel_live:
  assumes R: "book_rep b F" and p: "contents (bk_id_index b) i = Some p" and x: "heap b p = Some x" "o_id x = i"
  shows "\<exists>b' F'. Cancel on_cancel i b s = Some (True, b', on_cancel i (o_side x) (o_price x) (o_qty x) s)
    \<and> book_rep b' F' \<and> same_frame b b' \<and> resting b' F' = spec_cancel i (resting b F)"
proof -
  have C: "core_inv b F" using R by (auto simp: book_rep_def)
  note c = core_invD [OF C]
  obtain ix where ix: "LookupAndEraseId i (bk_id_index b) = Some (Some p, ix)" "index_inv ix"
    "contents ix = (contents (bk_id_index b))(i := None)" "room ix = room (bk_id_index b)"
    using ids.erase_ok [of "bk_id_index b" i] index_has_room [OF C] c(5) p by (auto simp: index_agrees_def)
  have "p \<in> set (F (o_side x) (o_price x))" using orders_heap(1) [OF C x(1)] .
  then obtain xs ys where fs: "F (o_side x) (o_price x) = xs @ p # ys" by (meson split_list)
  let ?F = "put_fifo F (o_side x) (o_price x) (xs @ ys)"
  from cancel_unlink [OF R x(1) fs refl] obtain lvl lvl1 sl1 b2 b3 where
    u: "LevelAt b (o_side x) (o_price x) = Some lvl" "UnlinkFromLevel lvl p (bk_slab b) = Some (lvl1, sl1)"
      "set_level (b\<lparr>bk_slab := sl1\<rparr>) (o_side x) (o_price x) lvl1 = Some b2"
      "(if level_empty lvl1 then MarkLevelEmptied (o_side x) (o_price x) b2 else Some b2) = Some b3"
      "shape_inv b3" "ladder_inv b3 ?F" "\<forall>s. touch_inv b3 ?F s"
      "links_moved (set (xs @ ys)) (bk_slab b) (bk_slab b3)" "bk_id_index b3 = bk_id_index b"
      "same_frame b b3" by blast
  note M = links_movedD [OF u(8)]
  have dat: "datum (heap b3) q = datum (heap b) q" for q using M(4) by (simp add: heap_def)
  from drop_node [OF C x(1) fs refl u(5,6) M(1-3) dat ix(2)] ix(3,4) x(2) obtain sl2 where
    d: "Deallocate (Some p) (bk_slab b3) = Some sl2" "sl_capacity sl2 = sl_capacity (bk_slab b)"
      "datum (deref sl2) = (datum (heap b))(p := None)"
      "core_inv (b3\<lparr>bk_slab := sl2, bk_id_index := ix\<rparr>) ?F" by auto
  let ?b = "b3\<lparr>bk_slab := sl2, bk_id_index := ix\<rparr>"
  have "deref (bk_slab b) p = Some x" using x(1) by (simp add: heap_def)
  moreover have "(if level_empty lvl1 then MarkLevelEmptied (o_side x) (o_price x) (b2\<lparr>bk_id_index := ix\<rparr>)
      else Some (b2\<lparr>bk_id_index := ix\<rparr>)) = Some (b3\<lparr>bk_id_index := ix\<rparr>)"
    using u(4) index_frame(3) [of "o_side x" "o_price x" b2 b3 ix] by (auto split: if_splits)
  ultimately have run: "Cancel on_cancel i b s = Some (True, ?b, on_cancel i (o_side x) (o_price x) (o_qty x) s)"
    using ix(1) u(1,2) index_frame(2) [OF u(3), of ix] d(1) x(2)
    by (simp add: Cancel_def index_frame(1,4) Let_def)
  have tch: "touch_inv ?b ?F s" for s using u(7) by (simp add: touch_inv_def touch_at_def)
  have "resting ?b ?F = spec_cancel i (resting b F)"
    unfolding cancel_resting [OF C x] unfolding resting_def dropped_queue [OF C fs]
    using d(3) by (intro ext map_cong) (auto simp: heap_def)
  moreover have "same_frame b ?b" using u(10) d(2) by (simp add: same_frame_def)
  ultimately show ?thesis using run d(4) tch unfolding book_rep_def by blast
qed

lemma Cancel_unknown:
  assumes R: "book_rep b F" and p: "contents (bk_id_index b) i = None"
  shows "\<exists>b'. Cancel on_cancel i b s = Some (False, b', s) \<and> book_rep b' F \<and> same_frame b b'
    \<and> resting b' F = resting b F"
proof -
  have C: "core_inv b F" using R by (auto simp: book_rep_def)
  obtain ix where ix: "LookupAndEraseId i (bk_id_index b) = Some (None, ix)" "index_inv ix"
    "contents ix = contents (bk_id_index b)" "room ix = room (bk_id_index b)"
    using ids.erase_ok [of "bk_id_index b" i] index_has_room [OF C] core_invD(5) [OF C] p
    by (auto simp: index_agrees_def fun_upd_idem)
  have "Cancel on_cancel i b s = Some (False, b\<lparr>bk_id_index := ix\<rparr>, s)"
    using ix(1) by (simp add: Cancel_def Let_def)
  with index_only [OF R ix(2-4)] show ?thesis
    by (auto simp: same_frame_def resting_def heap_def)
qed

end
