(* ===== verification/Book_Theorems.thy ===== *)
theory Book_Theorems imports Book_Correct begin

text \<open>
  The book's theorems, over \<open>book_inv\<close>, \<open>depth_of\<close> and \<open>Book_Spec\<close> only:
  functional behaviour of every public operation, price-time priority, conservation of quantity,
  the observers, and what holds of every reachable book.
\<close>

section \<open>Handlers that log\<close>

text \<open>A client that appends each fill, or each cancel notice, to a list.\<close>

definition log_fill :: "Fill \<Rightarrow> Fill list \<Rightarrow> Fill list" where
  "log_fill f fs = fs @ [f]"

lemma fold_log_fill [simp]: "fold log_fill fs s = s @ fs"
  by (induction fs arbitrary: s) (simp_all add: log_fill_def)

lemma frameD:
  assumes "same_frame b b'"
  shows "bk_min_price b' = bk_min_price b" "bk_max_price b' = bk_max_price b"
    "slab_capacity b' = slab_capacity b"
  using assms by (simp_all add: same_frame_def slab_capacity_def)

lemma book_invE:
  assumes "book_inv b"
  obtains F where "book_rep b F" "core_inv b F" "\<forall>s. touch_inv b F s" "depth_of b = resting b F"
  using assms depth_repD that unfolding book_inv_def book_rep_def by blast

lemma live_count:
  assumes "core_inv b F"
  shows "open_order_count b = card (live (bk_slab b))"
  using slab_inv_in_use core_invD(2) [OF assms] by (simp add: open_order_count_def)

text \<open>Live slots and resting ids correspond, through the index.\<close>

lemma resting_live:
  assumes C: "core_inv b F" and F: "depth_of b = resting b F"
  shows "bij_betw (\<lambda>i. the (contents (bk_id_index b) i)) {i. spec_resting i (depth_of b)} (live (bk_slab b))"
    (is "bij_betw ?m ?I _")
  unfolding bij_betw_def
proof
  have res: "i \<in> ?I \<longleftrightarrow> contents (bk_id_index b) i \<noteq> None" for i
    using contents_iff_resting [OF C, of i] by simp
  have ag: "contents (bk_id_index b) i = Some p \<longleftrightarrow> (\<exists>x. heap b p = Some x \<and> o_id x = i)" for i p
    using core_invD(5) [OF C] by (simp add: index_agrees_def)
  show "inj_on ?m ?I" by (rule inj_onI) (use res ag in \<open>metis option.collapse option.inject\<close>)
  show "?m ` ?I = live (bk_slab b)"
  proof (intro set_eqI iffI)
    fix p assume "p \<in> ?m ` ?I"
    then obtain i where "i \<in> ?I" "p = ?m i" by blast
    then have "contents (bk_id_index b) i = Some p" using res by auto
    then show "p \<in> live (bk_slab b)" using ag live_heap [OF C] by blast
  next
    fix p assume "p \<in> live (bk_slab b)"
    then obtain x where "heap b p = Some x" using live_heap [OF C] by blast
    then have "contents (bk_id_index b) (o_id x) = Some p" using ag by blast
    then show "p \<in> ?m ` ?I" using res by (intro image_eqI [of _ _ "o_id x"]) auto
  qed
qed

lemma open_orders:
  assumes "book_inv b"
  shows "open_order_count b = order_total (bk_min_price b) (bk_max_price b) (depth_of b)"
    "open_order_count b = card {i. spec_resting i (depth_of b)}" "open_order_count b \<le> slab_capacity b"
proof -
  obtain F where F: "core_inv b F" "depth_of b = resting b F" using assms by (rule book_invE)
  show "open_order_count b = order_total (bk_min_price b) (bk_max_price b) (depth_of b)"
    using live_count [OF F(1)] order_total_live [OF F(1)] F(2) by simp
  show "open_order_count b = card {i. spec_resting i (depth_of b)}"
    using live_count [OF F(1)] bij_betw_same_card [OF resting_live [OF F]] by simp
  show "open_order_count b \<le> slab_capacity b"
    using live_count [OF F(1)] pool.live_bounded [OF core_invD(2) [OF F(1)]] by (simp add: slab_capacity_def)
qed

section \<open>AddLimit and Cancel\<close>

text \<open>The two operations over the invariant, for every handler.\<close>

lemma AddLimit_on_inv:
  assumes "book_inv b" "qty \<noteq> 0" "\<not> spec_resting i (depth_of b)"
    and "spec_add (bk_min_price b) (bk_max_price b) (slab_capacity b) i side px qty (depth_of b)
      = (ok, fills, D')"
  shows "\<exists>b'. AddLimit on_fill i side px qty b s = Some (ok, b', fold on_fill fills s)
    \<and> book_inv b' \<and> depth_of b' = D' \<and> bk_min_price b' = bk_min_price b
    \<and> bk_max_price b' = bk_max_price b \<and> slab_capacity b' = slab_capacity b"
proof -
  obtain F where F: "book_rep b F" "depth_of b = resting b F" using assms(1) by (rule book_invE)
  from AddLimit_ok [OF F(1) assms(2), of i side px ok fills D' on_fill s] assms(3,4) obtain b' F' where
    "AddLimit on_fill i side px qty b s = Some (ok, b', fold on_fill fills s)"
    "book_rep b' F'" "same_frame b b'" "resting b' F' = D'"
    by (auto simp: F(2) slab_capacity_def)
  then show ?thesis using frameD depth_repD unfolding book_inv_def by blast
qed

lemma Cancel_on_inv:
  assumes "book_inv b"
  shows "\<exists>b'. book_inv b' \<and> depth_of b' = spec_cancel i (depth_of b)
    \<and> bk_min_price b' = bk_min_price b \<and> bk_max_price b' = bk_max_price b
    \<and> slab_capacity b' = slab_capacity b
    \<and> (if spec_resting i (depth_of b)
       then \<exists>side px q. (i, q) \<in> set (depth_of b side px)
              \<and> Cancel on_cancel i b s = Some (True, b', on_cancel i side px q s)
       else Cancel on_cancel i b s = Some (False, b', s))"
proof -
  obtain F where F: "book_rep b F" "core_inv b F" "depth_of b = resting b F"
    using assms by (rule book_invE)
  note cr = contents_iff_resting [OF F(2), of i]
  show ?thesis
  proof (cases "contents (bk_id_index b) i")
    case None
    from Cancel_unknown [OF F(1) None, of on_cancel s] obtain b' where
      c: "Cancel on_cancel i b s = Some (False, b', s)" "book_rep b' F" "same_frame b b'"
        "resting b' F = resting b F" by blast
    have nr: "\<not> spec_resting i (depth_of b)" using cr None by simp
    then have "spec_cancel i (depth_of b) = depth_of b" by (rule spec_cancel_unknown)
    moreover have "depth_of b' = depth_of b" using depth_repD [OF c(2)] c(4) F(3) by simp
    ultimately show ?thesis using c(1,2) frameD [OF c(3)] nr unfolding book_inv_def by auto
  next
    case (Some p)
    then obtain x where x: "heap b p = Some x" "o_id x = i"
      using core_invD(5) [OF F(2)] by (auto simp: index_agrees_def)
    from Cancel_live [OF F(1) Some x, of on_cancel s] obtain b' F' where
      c: "Cancel on_cancel i b s = Some (True, b', on_cancel i (o_side x) (o_price x) (o_qty x) s)"
        "book_rep b' F'" "same_frame b b'" "resting b' F' = spec_cancel i (resting b F)" by blast
    have "(i, o_qty x) \<in> set (depth_of b (o_side x) (o_price x))"
      using orders_heap(1) [OF F(2) x(1)] entry_heap [OF x(1)] x(2) unfolding F(3)
      by (auto simp: resting_def image_iff intro!: bexI)
    moreover have "depth_of b' = spec_cancel i (depth_of b)" using depth_repD [OF c(2)] c(4) F(3) by simp
    moreover have "spec_resting i (depth_of b)" using cr Some by simp
    ultimately show ?thesis using c(1,2) frameD [OF c(3)] unfolding book_inv_def by auto
  qed
qed

text \<open>C1: \<^verbatim>\<open>AddLimit\<close> implements the price-time specification. On any well-formed book,
  for a positive quantity and an id that is not resting, it terminates without undefined behaviour;
  its result, the sequence of fills the handler sees, and every queue of the book afterwards are
  those of \<open>spec_add\<close>; the book stays well-formed and its band and capacity do not change.\<close>

theorem AddLimit_refines:
  assumes "book_inv b" "qty \<noteq> 0" "\<not> spec_resting i (depth_of b)"
    and "spec_add (bk_min_price b) (bk_max_price b) (slab_capacity b) i side px qty (depth_of b)
      = (ok, fills, D')"
  shows "\<exists>b'. AddLimit on_fill i side px qty b s = Some (ok, b', fold on_fill fills s)
    \<and> book_inv b' \<and> depth_of b' = D' \<and> bk_min_price b' = bk_min_price b
    \<and> bk_max_price b' = bk_max_price b \<and> slab_capacity b' = slab_capacity b"
  using assms by (rule AddLimit_on_inv)

text \<open>A book of two slots and a one-price band, for the witnesses.\<close>

lemma small_book:
  "\<exists>b. OrderBook_new 2 5 5 = Some b \<and> book_inv b \<and> depth_of b = (\<lambda>_ _. []) \<and> bk_min_price b = 5
    \<and> bk_max_price b = 5 \<and> slab_capacity b = 2"
  using OrderBook_new_ok [of 2 5 5] by simp

lemma small_book_sold:
  "\<exists>b. book_inv b \<and> depth_of b = put_queue (\<lambda>_ _. []) kSell 5 [(7, 3)] \<and> bk_min_price b = 5
    \<and> bk_max_price b = 5 \<and> slab_capacity b = 2"
proof -
  obtain b0 where b0: "book_inv b0" "depth_of b0 = (\<lambda>_ _. [])" "bk_min_price b0 = 5"
    "bk_max_price b0 = 5" "slab_capacity b0 = 2"
    using small_book by blast
  have sp: "spec_add 5 5 2 7 kSell 5 3 (depth_of b0)
      = (True, [], put_queue (\<lambda>_ _. []) kSell 5 [(7, 3)])"
    using b0(2) by (simp add: spec_add_def order_total_def sweep.simps Let_def fun_eq_iff)
  have "\<not> spec_resting 7 (depth_of b0)" unfolding b0(2) by (simp add: spec_resting_def)
  from AddLimit_on_inv [OF b0(1) _ this, of 3 kSell 5 True "[]" _ "\<lambda>_ s. s" "()"] sp b0(3-5)
  show ?thesis by auto
qed

theorem AddLimit_refines_witness:
  "\<exists>b b'. depth_of b kSell 5 = [(7, 3)]
    \<and> AddLimit log_fill 8 kBuy 5 4 b []
        = Some (True, b', [\<lparr>fl_maker_id = 7, fl_taker_id = 8, fl_price = 5, fl_qty = 3, fl_taker_side = kBuy\<rparr>])
    \<and> depth_of b' kSell 5 = [] \<and> depth_of b' kBuy 5 = [(8, 1)]"
proof -
  obtain b where b: "book_inv b" "depth_of b = put_queue (\<lambda>_ _. []) kSell 5 [(7, 3)]"
    "bk_min_price b = 5" "bk_max_price b = 5" "slab_capacity b = 2"
    using small_book_sold by blast
  let ?f = "\<lparr>fl_maker_id = 7, fl_taker_id = 8, fl_price = 5, fl_qty = 3, fl_taker_side = kBuy\<rparr>"
  have sp: "spec_add 5 5 2 8 kBuy 5 4 (depth_of b)
      = (True, [?f], put_queue (\<lambda>_ _. []) kBuy 5 [(8, 1)])"
    unfolding b(2) by (simp add: spec_add_def order_total_def sweep.simps to_fill_def Let_def fun_eq_iff)
  have "\<not> spec_resting 8 (depth_of b)" unfolding b(2) by (simp add: spec_resting_def)
  from AddLimit_refines [OF b(1) _ this, of 4 kBuy 5 True "[?f]" _ log_fill "[]"] sp b(3-5)
  obtain b' where "AddLimit log_fill 8 kBuy 5 4 b [] = Some (True, b', [?f])"
    "depth_of b' = put_queue (\<lambda>_ _. []) kBuy 5 [(8, 1)]" by (auto simp: log_fill_def)
  then show ?thesis using b(2) by (intro exI [of _ b] exI [of _ b']) simp
qed

text \<open>C2: \<^verbatim>\<open>Cancel\<close> succeeds exactly when the id rests somewhere. Then the handler is
  called once, with the order's side, price and residual quantity, that order leaves its queue and
  every other order keeps its place; otherwise the handler is not called and no queue changes.
  Nothing in it is undefined and the book stays well-formed.\<close>

theorem Cancel_refines:
  assumes "book_inv b"
  shows "\<exists>b'. book_inv b' \<and> depth_of b' = spec_cancel i (depth_of b)
    \<and> bk_min_price b' = bk_min_price b \<and> bk_max_price b' = bk_max_price b
    \<and> slab_capacity b' = slab_capacity b
    \<and> (if spec_resting i (depth_of b)
       then \<exists>side px q. (i, q) \<in> set (depth_of b side px)
              \<and> Cancel on_cancel i b s = Some (True, b', on_cancel i side px q s)
       else Cancel on_cancel i b s = Some (False, b', s))"
  using assms by (rule Cancel_on_inv)

theorem Cancel_refines_witness:
  "\<exists>b b'. depth_of b kSell 5 = [(7, 3)] \<and> depth_of b' kSell 5 = []
     \<and> Cancel (\<lambda>i side px q s. (i, side, px, q) # s) 7 b [] = Some (True, b', [(7, kSell, 5, 3)])"
proof -
  obtain b where b: "book_inv b" "depth_of b = put_queue (\<lambda>_ _. []) kSell 5 [(7, 3)]"
    using small_book_sold by blast
  have "spec_resting 7 (depth_of b)" unfolding b(2) spec_resting_def
    by (intro exI [of _ kSell] exI [of _ 5] exI [of _ 3]) simp
  with Cancel_refines [OF b(1), of 7 "\<lambda>i side px q s. (i, side, px, q) # s" "[]"]
  obtain b' side px q where r: "depth_of b' = spec_cancel 7 (depth_of b)" "(7, q) \<in> set (depth_of b side px)"
    "Cancel (\<lambda>i side px q s. (i, side, px, q) # s) 7 b [] = Some (True, b', [(7, side, px, q)])"
    by auto
  have "side = kSell" "px = 5" "q = 3" using r(2) unfolding b(2) by (auto split: if_splits)
  then show ?thesis using r b(2) by (intro exI [of _ b] exI [of _ b']) (simp add: spec_cancel_def)
qed

section \<open>Price-time priority and conservation\<close>

lemma small_trade:
  "\<exists>b b'. book_inv b \<and> depth_of b = put_queue (\<lambda>_ _. []) kSell 5 [(7, 3)] \<and> \<not> spec_resting 8 (depth_of b)
    \<and> AddLimit log_fill 8 kBuy 5 4 b []
        = Some (True, b', [\<lparr>fl_maker_id = 7, fl_taker_id = 8, fl_price = 5, fl_qty = 3, fl_taker_side = kBuy\<rparr>])
    \<and> depth_of b' = put_queue (\<lambda>_ _. []) kBuy 5 [(8, 1)]"
proof -
  obtain b where b: "book_inv b" "depth_of b = put_queue (\<lambda>_ _. []) kSell 5 [(7, 3)]"
    "bk_min_price b = 5" "bk_max_price b = 5" "slab_capacity b = 2"
    using small_book_sold by blast
  let ?f = "\<lparr>fl_maker_id = 7, fl_taker_id = 8, fl_price = 5, fl_qty = 3, fl_taker_side = kBuy\<rparr>"
  have sp: "spec_add 5 5 2 8 kBuy 5 4 (depth_of b)
      = (True, [?f], put_queue (\<lambda>_ _. []) kBuy 5 [(8, 1)])"
    unfolding b(2) by (simp add: spec_add_def order_total_def sweep.simps to_fill_def Let_def fun_eq_iff)
  have nr: "\<not> spec_resting 8 (depth_of b)" unfolding b(2) by (simp add: spec_resting_def)
  from AddLimit_on_inv [OF b(1) _ nr, of 4 kBuy 5 True "[?f]" _ log_fill "[]"] sp b(3-5)
  obtain b' where "AddLimit log_fill 8 kBuy 5 4 b [] = Some (True, b', [?f])"
    "depth_of b' = put_queue (\<lambda>_ _. []) kBuy 5 [(8, 1)]" by (auto simp: log_fill_def)
  with b nr show ?thesis by metis
qed

text \<open>What one run of the specification does, for a taker's side \<open>side\<close> and limit \<open>px\<close>.\<close>

lemma AddLimit_run:
  assumes inv: "book_inv b" and qty: "qty \<noteq> 0" and fresh: "\<not> spec_resting i (depth_of b)"
    and run: "AddLimit log_fill i side px qty b [] = Some (ok, b', fills)"
  shows "spec_add (bk_min_price b) (bk_max_price b) (slab_capacity b) i side px qty (depth_of b)
      = (ok, fills, depth_of b')" "book_inv b'"
proof -
  obtain ok1 fills1 D1 where sp: "spec_add (bk_min_price b) (bk_max_price b) (slab_capacity b)
      i side px qty (depth_of b) = (ok1, fills1, D1)" by (metis prod_cases3)
  from AddLimit_on_inv [OF inv qty fresh sp, of log_fill "[]"] run
  show "spec_add (bk_min_price b) (bk_max_price b) (slab_capacity b) i side px qty (depth_of b)
      = (ok, fills, depth_of b')" "book_inv b'"
    using sp by auto
qed

lemma depth_band:
  assumes "book_inv b"
  shows "in_band (bk_min_price b) (bk_max_price b) (depth_of b)"
proof -
  obtain F where F: "core_inv b F" "depth_of b = resting b F" using assms by (rule book_invE)
  show ?thesis unfolding F(2) in_band_def
    using ladder_band [OF core_invD(3) [OF F(1)]] by (auto simp: InBand_def)
qed

text \<open>C5: price-time priority. The fills of one \<^verbatim>\<open>AddLimit\<close> never trade through the
  taker's limit; their prices run from the best towards the limit; at each price the makers hit are
  a prefix of that queue, in queue order; and a price at which someone still rests was not skipped:
  no fill happened at a worse price.\<close>

theorem AddLimit_price_time_priority:
  assumes "book_inv b" "qty \<noteq> 0" "\<not> spec_resting i (depth_of b)"
    and "AddLimit log_fill i side px qty b [] = Some (ok, b', fills)"
  shows "(\<forall>f\<in>set fills. fl_taker_id f = i \<and> fl_taker_side f = side \<and> \<not> better side (fl_price f) px)
    \<and> sorted_wrt (\<lambda>f g. \<not> better (opposite side) (fl_price g) (fl_price f)) fills
    \<and> (\<forall>q. \<exists>n. map fl_maker_id (filter (\<lambda>f. fl_price f = q) fills)
              = take n (map fst (depth_of b (opposite side) q)))
    \<and> (\<forall>q. depth_of b' (opposite side) q \<noteq> []
         \<longrightarrow> (\<forall>f\<in>set fills. \<not> better (opposite side) q (fl_price f)))"
proof -
  obtain fs r D1 where sw: "sweep (crossing side (bk_min_price b) (bk_max_price b) px) qty (depth_of b (opposite side)) = (fs, r, D1)"
    "fills = map (to_fill i side) fs" "depth_of b' (opposite side) = D1"
    using AddLimit_run(1) [OF assms] by (rule spec_add_sweep) blast
  have band: "bk_min_price b \<le> q \<and> q \<le> bk_max_price b" if "depth_of b (opposite side) q \<noteq> []" for q
    using depth_band [OF assms(1)] that by (auto simp: in_band_def)
  have "map fl_maker_id (filter (\<lambda>f. fl_price f = q) fills) = map (fst \<circ> snd) (filter (\<lambda>f. fst f = q) fs)" for q
    by (simp add: sw(2) filter_map o_def)
  with crossing_limit [OF sw(1)] crossing_order [OF sw(1)] crossing_fifo [OF sw(1)] crossing_priority [OF sw(1) band]
  show ?thesis by (auto simp: sw(2,3) sorted_wrt_map)
qed

theorem AddLimit_price_time_priority_witness:
  "\<exists>b b' fills. AddLimit log_fill 8 kBuy 5 4 b [] = Some (True, b', fills) \<and> length fills = 1
     \<and> (\<forall>f\<in>set fills. fl_taker_id f = 8 \<and> fl_price f \<le> 5)"
proof -
  obtain b b' where b: "book_inv b" "\<not> spec_resting 8 (depth_of b)"
    "AddLimit log_fill 8 kBuy 5 4 b []
      = Some (True, b', [\<lparr>fl_maker_id = 7, fl_taker_id = 8, fl_price = 5, fl_qty = 3, fl_taker_side = kBuy\<rparr>])"
    using small_trade by blast
  from AddLimit_price_time_priority [OF b(1) _ b(2,3)] b(3) show ?thesis
    by (intro exI [of _ b] exI [of _ b'] exI) auto
qed

text \<open>C6: quantity is conserved. The fills of one \<^verbatim>\<open>AddLimit\<close> and its residual add
  up to the order's quantity; when it succeeds the residual, if any, is resting last in the queue of
  its price; at every price the makers lose exactly what the fills at that price report.\<close>

theorem AddLimit_conserves_quantity:
  assumes "book_inv b" "qty \<noteq> 0" "\<not> spec_resting i (depth_of b)"
    and "AddLimit log_fill i side px qty b [] = Some (ok, b', fills)"
  shows "\<exists>r. sum_list (map (unat \<circ> fl_qty) fills) + unat r = unat qty
    \<and> (if \<not> ok \<or> r = 0 then depth_of b' side = depth_of b side
       else depth_of b' side px = depth_of b side px @ [(i, r)])
    \<and> (\<forall>q. sum_list (map (unat \<circ> fl_qty) (filter (\<lambda>f. fl_price f = q) fills))
              + total (depth_of b' (opposite side) q) = total (depth_of b (opposite side) q))"
proof -
  let ?pxs = "crossing side (bk_min_price b) (bk_max_price b) px"
  obtain fs r D1 where sw: "sweep ?pxs qty (depth_of b (opposite side)) = (fs, r, D1)"
    "fills = map (to_fill i side) fs" "depth_of b' (opposite side) = D1"
    "ok \<Longrightarrow> r = 0 \<Longrightarrow> depth_of b' side = depth_of b side"
    "ok \<Longrightarrow> r \<noteq> 0 \<Longrightarrow> depth_of b' side px = depth_of b side px @ [(i, r)]"
    "\<not> ok \<Longrightarrow> r \<noteq> 0 \<and> depth_of b' side = depth_of b side"
    using AddLimit_run(1) [OF assms] by (rule spec_add_sweep) blast
  have "sum_list (map (unat \<circ> fl_qty) (filter (\<lambda>f. fl_price f = q) fills))
      + total (D1 q) = total (depth_of b (opposite side) q)" for q
  proof -
    obtain ri ro where f: "fill_queue ri (depth_of b (opposite side) q)
        = (map snd (filter (\<lambda>f. fst f = q) fs), ro, D1 q)"
      using sweep_at_price [OF sw(1) distinct_crossing, of q] by blast
    have "sum_list (map (unat \<circ> fl_qty) (filter (\<lambda>f. fl_price f = q) fills))
        = total (map snd (filter (\<lambda>f. fst f = q) fs))"
      by (simp add: sw(2) filter_map o_def)
    with fill_queue_conserves [OF f] show ?thesis by simp
  qed
  moreover have "sum_list (map (unat \<circ> fl_qty) fills) + unat r = unat qty"
    using sweep_conserves [OF sw(1)] by (simp add: sw(2) o_def)
  ultimately show ?thesis using sw(3-6) by (intro exI [of _ r]) auto
qed

theorem AddLimit_conserves_quantity_witness:
  "\<exists>b b' fills r. AddLimit log_fill 8 kBuy 5 4 b [] = Some (True, b', fills)
     \<and> sum_list (map (unat \<circ> fl_qty) fills) + unat r = 4 \<and> depth_of b' kBuy 5 = [(8, r)]"
proof -
  obtain b b' where b: "book_inv b" "\<not> spec_resting 8 (depth_of b)"
    "depth_of b = put_queue (\<lambda>_ _. []) kSell 5 [(7, 3)]"
    "AddLimit log_fill 8 kBuy 5 4 b []
      = Some (True, b', [\<lparr>fl_maker_id = 7, fl_taker_id = 8, fl_price = 5, fl_qty = 3, fl_taker_side = kBuy\<rparr>])"
    "depth_of b' = put_queue (\<lambda>_ _. []) kBuy 5 [(8, 1)]"
    using small_trade by blast
  from AddLimit_conserves_quantity [OF b(1) _ b(2,4)] obtain r where
    r: "3 + unat r = unat (4::u64)"
      "if r = 0 then depth_of b' kBuy = depth_of b kBuy else depth_of b' kBuy 5 = depth_of b kBuy 5 @ [(8, r)]"
    by auto
  then have "depth_of b' kBuy 5 = [(8, r)]" using b(3) by (auto split: if_splits)
  with b(4) r(1) show ?thesis by (intro exI [of _ b] exI [of _ b'] exI exI [of _ r]) auto
qed

text \<open>C7: when \<^verbatim>\<open>AddLimit\<close> returns false. It does so only if, after matching, part of
  the order is left and either its price is outside the band or every slab slot holds a resting
  order; the fills made before are kept and the residual is dropped.\<close>

theorem AddLimit_false_iff:
  assumes "book_inv b" "qty \<noteq> 0" "\<not> spec_resting i (depth_of b)"
    and "AddLimit log_fill i side px qty b [] = Some (ok, b', fills)"
  shows "\<not> ok \<longleftrightarrow> sum_list (map (unat \<circ> fl_qty) fills) < unat qty
    \<and> (px < bk_min_price b \<or> bk_max_price b < px
        \<or> (\<not> spec_resting i (depth_of b') \<and> open_order_count b' = slab_capacity b'))"
proof -
  note run = AddLimit_run [OF assms]
  have same: "slab_capacity b' = slab_capacity b" "bk_min_price b' = bk_min_price b" "bk_max_price b' = bk_max_price b"
    using AddLimit_on_inv [OF assms(1-3) run(1), of log_fill "[]"] assms(4) by auto
  have "slab_capacity b \<le> order_total (bk_min_price b) (bk_max_price b) (depth_of b')
      \<longleftrightarrow> open_order_count b' = slab_capacity b'"
    using open_orders(1,3) [OF run(2)] same by auto
  with spec_add_false [OF run(1) assms(3)] show ?thesis by auto
qed

theorem AddLimit_false_iff_witness:
  "\<exists>b b'. AddLimit log_fill 8 kBuy 5 4 b [] = Some (True, b',
       [\<lparr>fl_maker_id = 7, fl_taker_id = 8, fl_price = 5, fl_qty = 3, fl_taker_side = kBuy\<rparr>])
     \<and> \<not> (5 < bk_min_price b \<or> bk_max_price b < 5)"
proof -
  obtain b b' where b: "book_inv b" "\<not> spec_resting 8 (depth_of b)"
    "AddLimit log_fill 8 kBuy 5 4 b []
      = Some (True, b', [\<lparr>fl_maker_id = 7, fl_taker_id = 8, fl_price = 5, fl_qty = 3, fl_taker_side = kBuy\<rparr>])"
    using small_trade by blast
  from AddLimit_false_iff [OF b(1) _ b(2,3)] b(3) show ?thesis
    by (intro exI [of _ b] exI [of _ b']) auto
qed

section \<open>Observers\<close>

text \<open>C8: the best prices are right. \<^verbatim>\<open>has_bid\<close> holds exactly when some bid rests, and
  then \<^verbatim>\<open>best_bid\<close> is the highest price with a resting bid; with no bid it is 0; the
  ask side is the mirror image. The code keeps them incrementally and never recomputes them.\<close>

theorem best_prices_correct:
  assumes "book_inv b"
  shows "(if \<forall>px. depth_of b kBuy px = [] then \<not> has_bid b \<and> best_bid b = 0
          else has_bid b \<and> depth_of b kBuy (best_bid b) \<noteq> []
            \<and> (\<forall>px. depth_of b kBuy px \<noteq> [] \<longrightarrow> px \<le> best_bid b))
       \<and> (if \<forall>px. depth_of b kSell px = [] then \<not> has_ask b \<and> best_ask b = 0
          else has_ask b \<and> depth_of b kSell (best_ask b) \<noteq> []
            \<and> (\<forall>px. depth_of b kSell px \<noteq> [] \<longrightarrow> best_ask b \<le> px))"
proof -
  obtain F where F: "core_inv b F" "\<And>s. touch_inv b F s" "depth_of b = resting b F"
    using book_invE [OF assms] by metis
  have p: "populated F s = {} \<longleftrightarrow> (\<forall>px. F s px = [])" for s by (auto simp: populated_def)
  have lv: "bk_live_bid_levels b > 0 \<longleftrightarrow> \<not> (\<forall>px. F kBuy px = [])"
    "bk_live_ask_levels b > 0 \<longleftrightarrow> \<not> (\<forall>px. F kSell px = [])"
    using live_pos_iff [OF F(1) F(2), of kBuy] live_pos_iff [OF F(1) F(2), of kSell] p by auto
  have bb: "F kBuy (bk_best_bid_px b) \<noteq> [] \<and> (\<forall>px. F kBuy px \<noteq> [] \<longrightarrow> px \<le> bk_best_bid_px b)"
    if "\<not> (\<forall>px. F kBuy px = [])"
    using best_populated [OF F(2) [of kBuy]] that p [of kBuy] by (auto simp: not_less)
  have ba: "F kSell (bk_best_ask_px b) \<noteq> [] \<and> (\<forall>px. F kSell px \<noteq> [] \<longrightarrow> bk_best_ask_px b \<le> px)"
    if "\<not> (\<forall>px. F kSell px = [])"
    using best_populated [OF F(2) [of kSell]] that p [of kSell] by (auto simp: not_less)
  show ?thesis unfolding F(3) has_bid_def has_ask_def best_bid_def best_ask_def
    using lv bb ba by auto
qed

theorem best_prices_correct_witness: "\<exists>b. depth_of b kSell 5 \<noteq> [] \<and> has_ask b \<and> best_ask b = 5 \<and> \<not> has_bid b"
proof -
  obtain b where b: "book_inv b" "depth_of b = put_queue (\<lambda>_ _. []) kSell 5 [(7, 3)]"
    using small_book_sold by blast
  from best_prices_correct [OF b(1)] show ?thesis
    unfolding b(2) by (intro exI [of _ b]) (auto simp: b(2) split: if_splits)
qed

text \<open>C9: the depth observers are exact. \<^verbatim>\<open>level_qty\<close> is the sum of the resting
  quantities of the level (modulo 2^64, the counter's width), \<^verbatim>\<open>level_order_count\<close> the
  number of its orders (modulo 2^32), both 0 outside the band; \<^verbatim>\<open>open_order_count\<close>
  counts the resting orders of the whole book and never exceeds the capacity.\<close>

theorem depth_observers_correct:
  assumes "book_inv b"
  shows "level_qty b side px = Some (sum_list (map snd (depth_of b side px)))
    \<and> level_order_count b side px = Some (of_nat (length (depth_of b side px)))
    \<and> open_order_count b = order_total (bk_min_price b) (bk_max_price b) (depth_of b)
    \<and> open_order_count b \<le> slab_capacity b"
proof -
  obtain F where F: "core_inv b F" "depth_of b = resting b F" using assms by (rule book_invE)
  have "level_qty b side px = Some (sum_list (map snd (resting b F side px)))
    \<and> level_order_count b side px = Some (of_nat (length (resting b F side px)))"
  proof (cases "InBand b px")
    case True
    note L = ladder_rep [OF core_invD(3) [OF F(1)] True, of side]
    have "map (qtyf (heap b)) (F side px) = map snd (resting b F side px)"
      using level_repD(2) [OF L] by (auto simp: resting_def qtyf_def entry_heap)
    then show ?thesis
      using True level_repD(5,6) [OF L] Idx_less [OF core_invD(1) [OF F(1)] True, of side]
      by (simp add: level_qty_def level_order_count_def)
  next
    case False
    then show ?thesis using ladder_out [OF core_invD(3) [OF F(1)] False]
      by (simp add: level_qty_def level_order_count_def resting_def)
  qed
  with open_orders(1,3) [OF assms] show ?thesis unfolding F(2) by simp
qed

theorem depth_observers_correct_witness:
  "\<exists>b. depth_of b kSell 5 = [(7, 3)] \<and> level_qty b kSell 5 = Some 3 \<and> level_order_count b kSell 5 = Some 1"
proof -
  obtain b where b: "book_inv b" "depth_of b = put_queue (\<lambda>_ _. []) kSell 5 [(7, 3)]"
    using small_book_sold by blast
  from depth_observers_correct [OF b(1), of kSell 5] b(2) show ?thesis by (intro exI [of _ b]) simp
qed

section \<open>Reachable books\<close>

text \<open>The steps a client can take: build a book, add an order under an id that is not resting,
  cancel any id, read observers in between.\<close>

inductive book_step :: "OrderBook \<Rightarrow> OrderBook \<Rightarrow> bool" where
  step_add: "qty \<noteq> 0 \<Longrightarrow> \<not> spec_resting i (depth_of b) \<Longrightarrow>
    AddLimit log_fill i side px qty b [] = Some (ok, b', fills) \<Longrightarrow> book_step b b'"
| step_cancel: "Cancel (\<lambda>_ _ _ _ s. s) i b () = Some (ok, b', ()) \<Longrightarrow> book_step b b'"

inductive book_reachable :: "OrderBook \<Rightarrow> bool" where
  reach_new: "OrderBook_new c mn mx = Some b \<Longrightarrow> book_reachable b"
| reach_step: "book_reachable b \<Longrightarrow> book_step b b' \<Longrightarrow> book_reachable b'"

lemma new_inv:
  assumes "OrderBook_new c mn mx = Some b"
  shows "book_inv b" "depth_of b = (\<lambda>_ _. [])"
proof -
  have "mn \<le> mx" "- (2 ^ 63) \<le> mn" "mx < 2 ^ 63" "mx - mn + 1 < 2 ^ 63"
    using assms by (auto simp: OrderBook_new_def split: if_splits)
  from OrderBook_new_ok [OF OrderBook_new_bound [OF assms] this] assms
  show "book_inv b" "depth_of b = (\<lambda>_ _. [])" by auto
qed

lemma book_step_inv:
  assumes "book_step b b'" "book_inv b" "uncrossed (depth_of b)"
  shows "book_inv b' \<and> uncrossed (depth_of b')"
  using assms(1)
proof cases
  case (step_add qty i side px ok fills)
  from AddLimit_run [OF assms(2) step_add] spec_add_uncrossed [OF _ assms(3) depth_band [OF assms(2)]]
  show ?thesis by blast
next
  case c: (step_cancel i ok)
  from Cancel_on_inv [OF assms(2), of i "\<lambda>_ _ _ _ s. s" "()"] c
  have "book_inv b'" "depth_of b' = spec_cancel i (depth_of b)" by (auto split: if_splits)
  then show ?thesis using assms(3) spec_cancel_uncrossed by simp
qed

lemma book_reachable_inv: "book_reachable b \<Longrightarrow> book_inv b \<and> uncrossed (depth_of b)"
proof (induction rule: book_reachable.induct)
  case (reach_new c mn mx b)
  then show ?case using new_inv [OF reach_new] by (simp add: uncrossed_def)
next
  case (reach_step b b')
  then show ?case using book_step_inv by blast
qed

text \<open>The best prices of a well-formed book are populated, and apart when it is not crossed.\<close>

lemma best_populated_prices:
  assumes "book_inv b"
  shows "has_bid b \<Longrightarrow> depth_of b kBuy (best_bid b) \<noteq> []" "has_ask b \<Longrightarrow> depth_of b kSell (best_ask b) \<noteq> []"
proof -
  obtain F where F: "core_inv b F" "\<And>s. touch_inv b F s" "depth_of b = resting b F"
    using book_invE [OF assms] by metis
  show "depth_of b kBuy (best_bid b) \<noteq> []" if h: "has_bid b"
  proof -
    have "populated F kBuy \<noteq> {}" using h live_pos_iff [OF F(1) F(2), of kBuy] by (auto simp: has_bid_def)
    then show ?thesis using best_populated(1) [OF F(2), of kBuy] h F(3) by (simp add: best_bid_def has_bid_def)
  qed
  show "depth_of b kSell (best_ask b) \<noteq> []" if h: "has_ask b"
  proof -
    have "populated F kSell \<noteq> {}" using h live_pos_iff [OF F(1) F(2), of kSell] by (auto simp: has_ask_def)
    then show ?thesis using best_populated(1) [OF F(2), of kSell] h F(3) by (simp add: best_ask_def has_ask_def)
  qed
qed

lemma uncrossed_best:
  "book_inv b \<Longrightarrow> uncrossed (depth_of b) \<Longrightarrow> has_bid b \<Longrightarrow> has_ask b \<Longrightarrow> best_bid b < best_ask b"
  using best_populated_prices [of b] by (auto simp: uncrossed_def)

text \<open>C3: a reachable book is never crossed or locked: after any sequence of orders (under ids not
  resting) and cancels on a new book, its invariant holds and, when both sides have orders,
  \<^verbatim>\<open>best_bid() < best_ask()\<close>.\<close>

theorem reachable_uncrossed:
  assumes "book_reachable b"
  shows "book_inv b \<and> (has_bid b \<and> has_ask b \<longrightarrow> best_bid b < best_ask b)"
  using book_reachable_inv [OF assms] uncrossed_best by blast

theorem reachable_uncrossed_witness:
  "\<exists>b. OrderBook_new 2 5 5 = Some b \<and> book_inv b \<and> (has_bid b \<and> has_ask b \<longrightarrow> best_bid b < best_ask b)"
proof -
  obtain b where b: "OrderBook_new 2 5 5 = Some b" using small_book by blast
  have "book_reachable b" by (rule reach_new [OF b])
  from reachable_uncrossed [OF this] b show ?thesis by blast
qed

text \<open>C4: no reachable book gets stuck. Whatever orders and cancels came before, the next
  \<^verbatim>\<open>AddLimit\<close> of a positive quantity under an id that is not resting, and the next
  \<^verbatim>\<open>Cancel\<close> of any id, return: no probe loop or repair scan runs away, no dead node is
  touched and no \<^verbatim>\<open>assert\<close> fails.\<close>

theorem reachable_never_stuck:
  assumes "book_reachable b"
  shows "(qty \<noteq> 0 \<and> \<not> spec_resting i (depth_of b) \<longrightarrow>
           (\<exists>r. AddLimit on_fill i side px qty b s = Some r))
    \<and> (\<exists>r. Cancel on_cancel j b s = Some r)"
proof -
  have inv: "book_inv b" using book_reachable_inv [OF assms] by blast
  have "\<exists>r. AddLimit on_fill i side px qty b s = Some r" if "qty \<noteq> 0" "\<not> spec_resting i (depth_of b)"
  proof -
    obtain ok fills D' where "spec_add (bk_min_price b) (bk_max_price b) (slab_capacity b)
      i side px qty (depth_of b) = (ok, fills, D')" by (metis prod_cases3)
    from AddLimit_on_inv [OF inv that this, of on_fill s] show ?thesis by auto
  qed
  moreover have "\<exists>r. Cancel on_cancel j b s = Some r"
    using Cancel_on_inv [OF inv, of j on_cancel s] by (auto split: if_splits)
  ultimately show ?thesis by blast
qed

theorem reachable_never_stuck_witness:
  "\<exists>b r. OrderBook_new 2 5 5 = Some b \<and> AddLimit log_fill 1 kBuy 9 4 b [] = Some r"
proof -
  obtain b where b: "OrderBook_new 2 5 5 = Some b" "depth_of b = (\<lambda>_ _. [])" using small_book by blast
  have "book_reachable b" by (rule reach_new [OF b(1)])
  from reachable_never_stuck [OF this, of 4 1 log_fill kBuy 9 "[]"] b show ?thesis
    by (auto simp: spec_resting_def)
qed

end
