(* ===== verification/Order_Gateway.thy ===== *)
theory Order_Gateway imports Book_Theorems begin

text \<open>
  What a driver of the book relies on, as an interface: adding and cancelling orders and counting
  the open ones, against the queues of \<open>Book_Spec\<close>. The book itself and the telemetry
  publisher in front of it provide it; the simulation runner and the training environment are
  verified against it. A driver remembers ids: \<open>tracks T D\<close> says that every resting id
  is among those it knows.
\<close>

section \<open>The specification under a driver\<close>

definition tracks :: "OrderId set \<Rightarrow> depth \<Rightarrow> bool" where
  "tracks T D \<longleftrightarrow> (\<forall>i. spec_resting i D \<longrightarrow> i \<in> T)"

lemma spec_cancel_resting: "spec_resting j (spec_cancel i D) \<longleftrightarrow> spec_resting j D \<and> j \<noteq> i"
  by (auto simp: spec_resting_def spec_cancel_def)

lemma tracks_cancel: "tracks T D \<Longrightarrow> tracks (T - {i}) (spec_cancel i D)"
  by (simp add: tracks_def spec_cancel_resting)

lemma spec_add_resting:
  assumes "spec_add mn mx cap i side px qty D = (ok, fills, D')" "spec_resting j D'"
  shows "spec_resting j D \<or> j = i \<and> ok"
proof -
  obtain fs r D1 where sw: "sweep (crossing side mn mx px) qty (D (opposite side)) = (fs, r, D1)"
    by (cases "sweep (crossing side mn mx px) qty (D (opposite side))")
  have "spec_resting j D" if "(j, q) \<in> set (D1 p)" for q p
    using sweep_resting [OF sw that] by (auto simp: spec_resting_def)
  then show ?thesis
    using assms sw by (fastforce simp: spec_add_def spec_resting_def Let_def split: if_splits)
qed

lemma tracks_add:
  "spec_add mn mx cap i side px qty D = (ok, fills, D') \<Longrightarrow> tracks T D \<Longrightarrow> tracks (insert i T) D'"
  by (auto simp: tracks_def dest: spec_add_resting)

lemma fill_queue_length: "fill_queue r q = (fs, r', rest) \<Longrightarrow> length rest \<le> length q"
  using fill_queue_fifo [of r q fs r' rest] by (metis diff_le_self length_drop length_map)

lemma sweep_length: "sweep pxs r D = (fs, r', D') \<Longrightarrow> length (D' px) \<le> length (D px)"
proof (induction pxs arbitrary: r D fs)
  case (Cons a pxs)
  from sweep_ConsD [OF Cons.prems] obtain gs r1 rest hs where
    f: "fill_queue r (D a) = (gs, r1, rest)" "sweep pxs r1 (D(a := rest)) = (hs, r', D')" by blast
  from Cons.IH [OF f(2)] fill_queue_length [OF f(1)] show ?case by (auto split: if_splits)
qed simp

text \<open>An order in the band is accepted while a slot is free.\<close>

lemma spec_add_accepts:
  assumes "mn \<le> px" "px \<le> mx" "order_total mn mx D < cap"
  shows "fst (spec_add mn mx cap i side px qty D)"
proof -
  obtain fs r D1 where sw: "sweep (crossing side mn mx px) qty (D (opposite side)) = (fs, r, D1)"
    by (cases "sweep (crossing side mn mx px) qty (D (opposite side))")
  have "length ((D(opposite side := D1)) s p) \<le> length (D s p)" for s p
    using sweep_length [OF sw] by simp
  then have "order_total mn mx (D(opposite side := D1)) \<le> order_total mn mx D"
    unfolding order_total_def by (intro sum_mono add_mono)
  then show ?thesis using assms sw by (simp add: spec_add_def Let_def)
qed

lemma spec_add_fills_unsigned:
  assumes "spec_add mn mx cap i side px qty D = (ok, fills, D')"
  shows "(\<Sum>f \<leftarrow> fills. unat (fl_qty f)) \<le> unat qty"
proof -
  obtain fs r D1 where sw: "sweep (crossing side mn mx px) qty (D (opposite side)) = (fs, r, D1)"
    "fills = map (to_fill i side) fs"
    using assms by (rule spec_add_sweep) blast
  then show ?thesis using sweep_conserves [OF sw(1)] by (simp add: o_def)
qed

section \<open>The interface\<close>

locale order_gateway =
  fixes add :: "OrderId \<Rightarrow> Side \<Rightarrow> Price \<Rightarrow> Quantity \<Rightarrow> 's \<Rightarrow> (bool \<times> 's) option"
    and cancel :: "OrderId \<Rightarrow> 's \<Rightarrow> (bool \<times> 's) option"
    and count :: "'s \<Rightarrow> nat"
    and depth :: "'s \<Rightarrow> depth"
    and inv :: "'s \<Rightarrow> bool"
    and mn mx :: Price
    and cap :: nat
  assumes add_spec: "inv S \<Longrightarrow> qty \<noteq> 0 \<Longrightarrow> \<not> spec_resting i (depth S) \<Longrightarrow>
      spec_add mn mx cap i side px qty (depth S) = (ok, fills, D') \<Longrightarrow>
      \<exists>S'. add i side px qty S = Some (ok, S') \<and> inv S' \<and> depth S' = D'"
    and cancel_spec: "inv S \<Longrightarrow>
      \<exists>S'. cancel i S = Some (spec_resting i (depth S), S') \<and> inv S' \<and> depth S' = spec_cancel i (depth S)"
    and count_spec: "inv S \<Longrightarrow> count S = order_total mn mx (depth S)"
    and count_ids: "inv S \<Longrightarrow> count S = card {i. spec_resting i (depth S)}"
    and in_range: "inv S \<Longrightarrow> in_band mn mx (depth S)"
begin

text \<open>One order under an unused id: it is accepted while there is room, and the driver's view stays
  right.\<close>

lemma add_tracked:
  assumes "inv S" "tracks T (depth S)" "i \<notin> T" "qty \<noteq> 0" "mn \<le> px" "px \<le> mx" "count S < cap"
  shows "\<exists>S'. add i side px qty S = Some (True, S') \<and> inv S' \<and> tracks (insert i T) (depth S')
    \<and> (uncrossed (depth S) \<longrightarrow> uncrossed (depth S'))"
proof -
  obtain ok fills D' where sp: "spec_add mn mx cap i side px qty (depth S) = (ok, fills, D')"
    by (metis prod_cases3)
  have ok: "ok = True" using spec_add_accepts [OF assms(5,6), of "depth S" cap i side qty] count_spec [OF assms(1)] assms(7) sp
    by simp
  have fresh: "\<not> spec_resting i (depth S)" using assms(2,3) by (auto simp: tracks_def)
  obtain S' where "add i side px qty S = Some (True, S')" "inv S'" "depth S' = D'"
    using add_spec [OF assms(1,4) fresh sp [unfolded ok]] by blast
  then show ?thesis
    using tracks_add [OF sp assms(2)] spec_add_uncrossed [OF sp _ in_range [OF assms(1)]] by blast
qed

text \<open>The same without room or band: the call still returns.\<close>

lemma add_returns:
  assumes "inv S" "tracks T (depth S)" "i \<notin> T" "qty \<noteq> 0"
  shows "\<exists>ok S'. add i side px qty S = Some (ok, S') \<and> inv S'
    \<and> tracks (if ok then insert i T else T) (depth S') \<and> (uncrossed (depth S) \<longrightarrow> uncrossed (depth S'))"
proof -
  obtain ok fills D' where sp: "spec_add mn mx cap i side px qty (depth S) = (ok, fills, D')"
    by (metis prod_cases3)
  have "tracks (if ok then insert i T else T) D'"
    using assms(2) spec_add_resting [OF sp] by (auto simp: tracks_def)
  moreover have fresh: "\<not> spec_resting i (depth S)" using assms(2,3) by (auto simp: tracks_def)
  obtain S' where "add i side px qty S = Some (ok, S')" "inv S'" "depth S' = D'"
    using add_spec [OF assms(1,4) fresh sp] by blast
  ultimately show ?thesis using spec_add_uncrossed [OF sp _ in_range [OF assms(1)]] by blast
qed

lemma cancel_tracked:
  assumes "inv S" "tracks T (depth S)"
  shows "\<exists>ok S'. cancel i S = Some (ok, S') \<and> inv S' \<and> tracks (T - {i}) (depth S')
    \<and> (uncrossed (depth S) \<longrightarrow> uncrossed (depth S'))"
  using cancel_spec [OF assms(1), of i] tracks_cancel [OF assms(2)] spec_cancel_uncrossed by auto

lemma count_le_tracked: "inv S \<Longrightarrow> tracks T (depth S) \<Longrightarrow> finite T \<Longrightarrow> count S \<le> card T"
  unfolding count_ids by (intro card_mono) (auto simp: tracks_def)

lemma untracked_empty: "tracks {} (depth S) \<Longrightarrow> depth S = (\<lambda>_ _. [])"
  by (auto simp: tracks_def spec_resting_def fun_eq_iff) (metis list.set_intros(1) neq_Nil_conv surj_pair)

end

section \<open>The book provides it\<close>

definition book_in :: "Price \<Rightarrow> Price \<Rightarrow> nat \<Rightarrow> OrderBook \<Rightarrow> bool" where
  "book_in mn mx cap b \<longleftrightarrow> book_inv b \<and> bk_min_price b = mn \<and> bk_max_price b = mx \<and> slab_capacity b = cap"

text \<open>The bare book, its handlers doing nothing.\<close>

definition quiet_add :: "OrderId \<Rightarrow> Side \<Rightarrow> Price \<Rightarrow> Quantity \<Rightarrow> OrderBook \<Rightarrow> (bool \<times> OrderBook) option" where
  "quiet_add i side px qty b = map_option (\<lambda>(ok, b', _). (ok, b')) (AddLimit (\<lambda>_ s. s) i side px qty b ())"

definition quiet_cancel :: "OrderId \<Rightarrow> OrderBook \<Rightarrow> (bool \<times> OrderBook) option" where
  "quiet_cancel i b = map_option (\<lambda>(ok, b', _). (ok, b')) (Cancel (\<lambda>_ _ _ _ s. s) i b ())"

text \<open>Whoever keeps a book in its state, and adds and cancels as specified, is a gateway: the laws on
  counting and on the band are the book's.\<close>

lemma book_keeper_gateway:
  assumes keeps: "\<And>S. I S \<Longrightarrow> book_in mn mx cap (bk S)"
    and add: "\<And>S i side px qty ok fills D'. I S \<Longrightarrow> qty \<noteq> 0 \<Longrightarrow> \<not> spec_resting i (depth_of (bk S)) \<Longrightarrow>
      spec_add mn mx cap i side px qty (depth_of (bk S)) = (ok, fills, D') \<Longrightarrow>
      \<exists>S'. add i side px qty S = Some (ok, S') \<and> I S' \<and> depth_of (bk S') = D'"
    and cancel: "\<And>S i. I S \<Longrightarrow> \<exists>S'. cancel i S = Some (spec_resting i (depth_of (bk S)), S') \<and> I S'
      \<and> depth_of (bk S') = spec_cancel i (depth_of (bk S))"
  shows "order_gateway add cancel (\<lambda>S. open_order_count (bk S)) (\<lambda>S. depth_of (bk S)) I mn mx cap"
proof (unfold_locales, goal_cases)
  case (1 S qty i side px ok fills D')
  then show ?case by (rule add)
next
  case (2 S i)
  then show ?case by (rule cancel)
next
  case (3 S)
  then show ?case using open_orders(1) [of "bk S"] keeps by (auto simp: book_in_def)
next
  case (4 S)
  then show ?case using open_orders(2) [of "bk S"] keeps by (auto simp: book_in_def)
next
  case (5 S)
  then show ?case using depth_band [of "bk S"] keeps by (auto simp: book_in_def)
qed

interpretation book_gate: order_gateway quiet_add quiet_cancel open_order_count depth_of "book_in mn mx cap" mn mx cap
proof (rule book_keeper_gateway [where bk = "\<lambda>b. b"], goal_cases)
  case (2 b i side px qty ok fills D')
  then show ?case
    using AddLimit_on_inv [of b qty i side px ok fills D' "\<lambda>_ s. s" "()"] by (auto simp: book_in_def quiet_add_def)
next
  case (3 b i)
  then show ?case using Cancel_on_inv [of b i "\<lambda>_ _ _ _ s. s" "()"]
    by (auto simp: book_in_def quiet_cancel_def split: if_splits)
qed

section \<open>Prewarming\<close>

text \<open>The loop with which both drivers touch a band of levels.\<close>

definition prewarm :: "Price \<Rightarrow> Price \<Rightarrow> OrderBook \<Rightarrow> OrderBook option" where
  "prewarm lo hi b = for_range 0 (nat (hi - lo + 1))
     (\<lambda>k b. do { b1 \<leftarrow> PrewarmLevel kBuy (lo + int k) b; PrewarmLevel kSell (lo + int k) b1 }) b"

lemma prewarm_ok:
  assumes "bk_min_price b \<le> lo" "hi \<le> bk_max_price b"
  shows "prewarm lo hi b = Some b"
proof -
  have "\<exists>s. prewarm lo hi b = Some s \<and> s = b"
    unfolding prewarm_def
    by (rule for_range_invariant [where I = "\<lambda>_ s. s = b"]) (use assms in \<open>auto simp: PrewarmLevel_def InBand_def\<close>)
  then show ?thesis by simp
qed

lemma unat_inc: "unat w + 1 < 2 ^ 64 \<Longrightarrow> unat (w + 1 :: u64) = unat w + 1"
  by (simp add: unat_word_ariths)

end
