(* ===== verification/Telemetry_Publisher.thy ===== *)
theory Telemetry_Publisher imports Order_Gateway Event_Relay begin

text \<open>
  The hot-path adapter of \<^verbatim>\<open>cpp/exec/telemetry_publisher.hpp\<close>: it drives the book
  and pushes one event per fill, acknowledgement and cancel into the ring. The template parameters
  are arguments: \<^verbatim>\<open>Ring\<close> through its \<open>push\<close>, \<^verbatim>\<open>ClockFn\<close> as a
  state transformer \<open>clk\<close> on a state of its own. The handlers of the source capture the
  publisher's members by reference; here they run on \<open>(filled, ring, seq, clock)\<close>, lifted to
  an option because a ring call can be undefined.
\<close>

section \<open>State and operations\<close>

record ('c, 'q) TelemetryPublisher =
  tp_book :: OrderBook
  tp_ring :: 'q
  tp_clock :: 'c
  tp_seq :: u64

type_synonym ('c, 'q) pub_state = "(Quantity \<times> 'q \<times> u64 \<times> 'c) option"
type_synonym 'q pusher = "TelemetryEvent \<Rightarrow> 'q \<Rightarrow> (bool \<times> 'q) option"
type_synonym 'c clock_fn = "'c \<Rightarrow> u64 \<times> 'c"

definition TelemetryPublisher_new :: "OrderBook \<Rightarrow> 'q \<Rightarrow> 'c \<Rightarrow> ('c, 'q) TelemetryPublisher" where
  "TelemetryPublisher_new book ring clock =
     \<lparr>tp_book = book, tp_ring = ring, tp_clock = clock, tp_seq = 0\<rparr>"

definition pub_on_fill :: "'q pusher \<Rightarrow> 'c clock_fn \<Rightarrow> Fill \<Rightarrow> ('c, 'q) pub_state \<Rightarrow> ('c, 'q) pub_state" where
  "pub_on_fill push clk f st = do {
     (filled, ring, sq, c) \<leftarrow> st;
     let filled1 = filled + fl_qty f;
     let (ts, c1) = clk c;
     (_, ring1) \<leftarrow> push (Event_Fill sq ts f) ring;
     Some (filled1, ring1, sq + 1, c1)
   }"

definition pub_AddLimit :: "'q pusher \<Rightarrow> 'c clock_fn \<Rightarrow> OrderId \<Rightarrow> Side \<Rightarrow> Price \<Rightarrow> Quantity
    \<Rightarrow> ('c, 'q) TelemetryPublisher \<Rightarrow> (bool \<times> ('c, 'q) TelemetryPublisher) option" where
  "pub_AddLimit push clk i side price qty P = do {
     (ok, book, st) \<leftarrow> AddLimit (pub_on_fill push clk) i side price qty (tp_book P)
                          (Some (0, tp_ring P, tp_seq P, tp_clock P));
     (filled, ring, sq, c) \<leftarrow> st;
     let P1 = P\<lparr>tp_book := book, tp_ring := ring, tp_seq := sq, tp_clock := c\<rparr>;
     if ok \<and> filled < qty then do {
       let residual = qty - filled;
       let (ts, c1) = clk (tp_clock P1);
       (_, ring1) \<leftarrow> push (Event_Ack (tp_seq P1) ts i side price residual) (tp_ring P1);
       Some (ok, P1\<lparr>tp_ring := ring1, tp_seq := tp_seq P1 + 1, tp_clock := c1\<rparr>)
     } else Some (ok, P1)
   }"

definition pub_on_cancel :: "'q pusher \<Rightarrow> 'c clock_fn \<Rightarrow> OrderId \<Rightarrow> Side \<Rightarrow> Price \<Rightarrow> Quantity
    \<Rightarrow> ('c, 'q) pub_state \<Rightarrow> ('c, 'q) pub_state" where
  "pub_on_cancel push clk cid cside cprice residual st = do {
     (z, ring, sq, c) \<leftarrow> st;
     let (ts, c1) = clk c;
     (_, ring1) \<leftarrow> push (Event_Cancel sq ts cid cside cprice residual) ring;
     Some (z, ring1, sq + 1, c1)
   }"

definition pub_Cancel :: "'q pusher \<Rightarrow> 'c clock_fn \<Rightarrow> OrderId \<Rightarrow> ('c, 'q) TelemetryPublisher
    \<Rightarrow> (bool \<times> ('c, 'q) TelemetryPublisher) option" where
  "pub_Cancel push clk i P = do {
     (ok, book, st) \<leftarrow> Cancel (pub_on_cancel push clk) i (tp_book P) (Some (0, tp_ring P, tp_seq P, tp_clock P));
     (_, ring, sq, c) \<leftarrow> st;
     Some (ok, P\<lparr>tp_book := book, tp_ring := ring, tp_seq := sq, tp_clock := c\<rparr>)
   }"

abbreviation book_depth :: "('c, 'q) TelemetryPublisher \<Rightarrow> depth" where
  "book_depth P \<equiv> depth_of (tp_book P)"

definition next_sequence :: "('c, 'q) TelemetryPublisher \<Rightarrow> u64" where
  "next_sequence P = tp_seq P"

section \<open>The events of an operation\<close>

text \<open>An event still lacking its sequence number and time stamp; \<open>emit\<close> supplies
  consecutive numbers and one clock reading each.\<close>

type_synonym draft = "u64 \<Rightarrow> u64 \<Rightarrow> TelemetryEvent"

fun emit :: "'c clock_fn \<Rightarrow> u64 \<Rightarrow> 'c \<Rightarrow> draft list \<Rightarrow> TelemetryEvent list \<times> 'c" where
  "emit clk sq c [] = ([], c)"
| "emit clk sq c (d # ds) =
     (let (ts, c1) = clk c; (es, c2) = emit clk (sq + 1) c1 ds in (d sq ts # es, c2))"

lemma emit_append:
  "emit clk sq c (ds @ ds') =
     (let (es, c1) = emit clk sq c ds; (es', c2) = emit clk (sq + of_nat (length ds)) c1 ds' in (es @ es', c2))"
  by (induction ds arbitrary: sq c) (simp_all add: Let_def case_prod_beta add.assoc)

lemma emit_length [simp]: "length (fst (emit clk sq c ds)) = length ds"
  by (induction ds arbitrary: sq c) (simp_all add: Let_def case_prod_beta)

lemma emit_sequence:
  "\<forall>d\<in>set ds. \<forall>q ts. te_sequence (d q ts) = q \<Longrightarrow> k < length ds \<Longrightarrow>
     te_sequence (fst (emit clk sq c ds) ! k) = sq + of_nat k"
proof (induction ds arbitrary: sq c k)
  case (Cons d ds)
  then show ?case by (cases k) (simp_all add: Let_def case_prod_beta add.assoc)
qed simp

definition fill_drafts :: "Fill list \<Rightarrow> draft list" where
  "fill_drafts fills = map (\<lambda>f q ts. Event_Fill q ts f) fills"

lemma fill_drafts_simps [simp]:
  "fill_drafts [] = []" "fill_drafts (f # fs) = (\<lambda>q ts. Event_Fill q ts f) # fill_drafts fs"
  "length (fill_drafts fs) = length fs"
  by (simp_all add: fill_drafts_def)

text \<open>What \<^verbatim>\<open>AddLimit\<close> publishes: its fills in order, then an acknowledgement of the
  residual if one rests.\<close>

definition add_drafts :: "OrderId \<Rightarrow> Side \<Rightarrow> Price \<Rightarrow> Quantity \<Rightarrow> bool \<Rightarrow> Fill list \<Rightarrow> draft list" where
  "add_drafts i side px qty ok fills =
     (let residual = qty - sum_list (map fl_qty fills) in
      fill_drafts fills @ (if ok \<and> residual \<noteq> 0 then [\<lambda>q ts. Event_Ack q ts i side px residual] else []))"

lemma add_drafts_sequence: "\<forall>d\<in>set (add_drafts i side px qty ok fills). \<forall>q ts. te_sequence (d q ts) = q"
  by (auto simp: add_drafts_def fill_drafts_def Let_def Event_Fill_def Event_Ack_def)

section \<open>The publisher over any ring\<close>

text \<open>The handler run over a list of fills is a run of pushes, whatever the ring.\<close>

lemma fold_no_ring: "fold (pub_on_fill push clk) fills None = None"
  by (induction fills) (simp_all add: pub_on_fill_def)

lemma fold_on_fill:
  "fold (pub_on_fill push clk) fills (Some (k, q, sq, c)) = do {
     (oks, q') \<leftarrow> push_run push (fst (emit clk sq c (fill_drafts fills))) q;
     Some (k + sum_list (map fl_qty fills), q', sq + of_nat (length fills), snd (emit clk sq c (fill_drafts fills))) }"
proof (induction fills arbitrary: k q sq c)
  case (Cons f fills)
  obtain ts c1 where cl: "clk c = (ts, c1)" by (cases "clk c")
  show ?case
  proof (cases "push (Event_Fill sq ts f) q")
    case None
    then have "pub_on_fill push clk f (Some (k, q, sq, c)) = None" by (simp add: pub_on_fill_def cl)
    then show ?thesis using None by (simp add: cl fold_no_ring case_prod_beta)
  next
    case (Some r)
    then have "pub_on_fill push clk f (Some (k, q, sq, c)) = Some (k + fl_qty f, snd r, sq + 1, c1)"
      by (simp add: cl pub_on_fill_def case_prod_beta)
    then show ?thesis using Some Cons.IH [of "k + fl_qty f" "snd r" "sq + 1" c1]
      by (simp add: cl case_prod_beta add.assoc add.left_commute split: bind_splits)
  qed
qed simp

lemma unat_sum_list: "sum_list (map unat ws) < 2 ^ 64 \<Longrightarrow> unat (sum_list (ws :: u64 list)) = sum_list (map unat ws)"
  by (induction ws) (simp_all add: unat_word_ariths)

text \<open>The residual test of the source, without wrap-around.\<close>

lemma residual_left:
  assumes "spec_add mn mx cap i side px qty D = (ok, fills, D')"
  shows "sum_list (map fl_qty fills) < qty \<longleftrightarrow> qty - sum_list (map fl_qty fills) \<noteq> 0"
    "unat (sum_list (map fl_qty fills)) = (\<Sum>f \<leftarrow> fills. unat (fl_qty f))"
proof -
  have le: "(\<Sum>f \<leftarrow> fills. unat (fl_qty f)) \<le> unat qty" by (rule spec_add_fills_unsigned [OF assms])
  moreover have "unat qty < 2 ^ 64" using unsigned_less [of qty] by simp
  ultimately show eq: "unat (sum_list (map fl_qty fills)) = (\<Sum>f \<leftarrow> fills. unat (fl_qty f))"
    using unat_sum_list [of "map fl_qty fills"] by (simp add: o_def)
  show "sum_list (map fl_qty fills) < qty \<longleftrightarrow> qty - sum_list (map fl_qty fills) \<noteq> 0"
    using le eq word_unat_eq_iff [of "sum_list (map fl_qty fills)" qty]
    unfolding word_less_nat_alt right_minus_eq eq_commute [of qty] by (simp add: order_less_le)
qed

text \<open>\<open>same_desk\<close>: the book's band and capacity are as before.\<close>

definition same_desk :: "OrderBook \<Rightarrow> OrderBook \<Rightarrow> bool" where
  "same_desk b b' \<longleftrightarrow> bk_min_price b' = bk_min_price b \<and> bk_max_price b' = bk_max_price b \<and> slab_capacity b' = slab_capacity b"

locale telemetry_ring = event_queue push inv
  for push :: "TelemetryEvent \<Rightarrow> 's \<Rightarrow> (bool \<times> 's) option" and inv

context telemetry_ring begin

lemma pub_AddLimit_ok:
  fixes P :: "('c, 's) TelemetryPublisher"
  assumes B: "book_inv (tp_book P)" and q: "inv (tp_ring P)"
    and qty: "qty \<noteq> 0" "\<not> spec_resting i (depth_of (tp_book P))"
    and sp: "spec_add (bk_min_price (tp_book P)) (bk_max_price (tp_book P)) (slab_capacity (tp_book P))
      i side px qty (depth_of (tp_book P)) = (ok, fills, D')"
    and es: "emit clk (tp_seq P) (tp_clock P) (add_drafts i side px qty ok fills) = (es, c')"
  shows "\<exists>oks q' b'. push_run push es (tp_ring P) = Some (oks, q') \<and> inv q'
    \<and> pub_AddLimit push clk i side px qty P
      = Some (ok, P\<lparr>tp_book := b', tp_ring := q', tp_seq := tp_seq P + of_nat (length es), tp_clock := c'\<rparr>)
    \<and> book_inv b' \<and> depth_of b' = D' \<and> same_desk (tp_book P) b'"
proof -
  let ?c0 = "tp_clock P" and ?q0 = "tp_seq P" and ?fd = "fill_drafts fills"
  let ?sum = "sum_list (map fl_qty fills)" and ?st = "Some (0, tp_ring P, tp_seq P, tp_clock P)"
  let ?ack = "\<lambda>q ts. Event_Ack q ts i side px (qty - ?sum)"
  obtain b' where b': "AddLimit (pub_on_fill push clk) i side px qty (tp_book P) ?st
      = Some (ok, b', fold (pub_on_fill push clk) fills ?st)"
    "book_inv b'" "depth_of b' = D'" "same_desk (tp_book P) b'"
    using AddLimit_on_inv [OF B qty sp, of "pub_on_fill push clk" ?st] by (auto simp: same_desk_def)
  obtain oks1 q1 where r1: "push_run push (fst (emit clk ?q0 ?c0 ?fd)) (tp_ring P) = Some (oks1, q1)" "inv q1"
    using push_run_total [OF q] by blast
  have fold: "fold (pub_on_fill push clk) fills ?st
      = Some (?sum, q1, ?q0 + of_nat (length fills), snd (emit clk ?q0 ?c0 ?fd))"
    using r1(1) by (simp add: fold_on_fill)
  show ?thesis
  proof (cases "ok \<and> ?sum < qty")
    case False
    then have "add_drafts i side px qty ok fills = ?fd" using residual_left(1) [OF sp] by (auto simp: add_drafts_def Let_def)
    then have "es = fst (emit clk ?q0 ?c0 ?fd)" "c' = snd (emit clk ?q0 ?c0 ?fd)" using es by simp_all
    then show ?thesis using False b' fold r1 by (auto simp: pub_AddLimit_def Let_def)
  next
    case True
    then have ds: "add_drafts i side px qty ok fills = ?fd @ [?ack]"
      using residual_left(1) [OF sp] by (simp add: add_drafts_def Let_def)
    obtain ts c2 where cl: "clk (snd (emit clk ?q0 ?c0 ?fd)) = (ts, c2)" by (cases "clk (snd (emit clk ?q0 ?c0 ?fd))")
    obtain ok2 q2 where r2: "push (?ack (?q0 + of_nat (length fills)) ts) q1 = Some (ok2, q2)" "inv q2"
      using push_total [OF r1(2)] by blast
    have "es = fst (emit clk ?q0 ?c0 ?fd) @ [?ack (?q0 + of_nat (length fills)) ts]" "c' = c2"
      using es unfolding ds by (auto simp: emit_append Let_def case_prod_beta cl)
    moreover from this have "pub_AddLimit push clk i side px qty P
        = Some (ok, P\<lparr>tp_book := b', tp_ring := q2, tp_seq := ?q0 + of_nat (length es), tp_clock := c'\<rparr>)"
      using True b' fold r2 cl by (simp add: pub_AddLimit_def Let_def add.assoc add.commute [of 1])
    ultimately show ?thesis using b' r1 r2 by (auto simp: push_run_append)
  qed
qed

lemma pub_Cancel_ok:
  fixes P :: "('c, 's) TelemetryPublisher"
  assumes B: "book_inv (tp_book P)" and q: "inv (tp_ring P)"
  shows "\<exists>P' es. pub_Cancel push clk i P = Some (spec_resting i (depth_of (tp_book P)), P')
    \<and> book_inv (tp_book P') \<and> inv (tp_ring P') \<and> same_desk (tp_book P) (tp_book P')
    \<and> depth_of (tp_book P') = spec_cancel i (depth_of (tp_book P))
    \<and> (\<exists>oks. push_run push es (tp_ring P) = Some (oks, tp_ring P'))
    \<and> tp_seq P' = tp_seq P + of_nat (length es)
    \<and> (if spec_resting i (depth_of (tp_book P))
       then tp_clock P' = snd (clk (tp_clock P)) \<and> (\<exists>side px q. (i, q) \<in> set (depth_of (tp_book P) side px)
              \<and> es = [Event_Cancel (tp_seq P) (fst (clk (tp_clock P))) i side px q])
       else es = [] \<and> tp_clock P' = tp_clock P)"
proof -
  let ?st = "Some (0, tp_ring P, tp_seq P, tp_clock P)"
  obtain b' where b': "book_inv b'" "depth_of b' = spec_cancel i (depth_of (tp_book P))" "same_desk (tp_book P) b'"
    and r: "if spec_resting i (depth_of (tp_book P))
       then \<exists>side px q. (i, q) \<in> set (depth_of (tp_book P) side px)
              \<and> Cancel (pub_on_cancel push clk) i (tp_book P) ?st = Some (True, b', pub_on_cancel push clk i side px q ?st)
       else Cancel (pub_on_cancel push clk) i (tp_book P) ?st = Some (False, b', ?st)"
    using Cancel_on_inv [OF B, of i "pub_on_cancel push clk" ?st] by (auto simp: same_desk_def)
  show ?thesis
  proof (cases "spec_resting i (depth_of (tp_book P))")
    case False
    then have "pub_Cancel push clk i P = Some (False, P\<lparr>tp_book := b', tp_ring := tp_ring P, tp_seq := tp_seq P, tp_clock := tp_clock P\<rparr>)"
      using r by (simp add: pub_Cancel_def)
    then show ?thesis using b' q False
      by (intro exI [of _ "P\<lparr>tp_book := b', tp_ring := tp_ring P, tp_seq := tp_seq P, tp_clock := tp_clock P\<rparr>"] exI [of _ "[]"]) auto
  next
    case True
    then obtain side px k where k: "(i, k) \<in> set (depth_of (tp_book P) side px)"
      "Cancel (pub_on_cancel push clk) i (tp_book P) ?st = Some (True, b', pub_on_cancel push clk i side px k ?st)"
      using r by auto
    obtain ts c1 where cl: "clk (tp_clock P) = (ts, c1)" by (cases "clk (tp_clock P)")
    let ?e = "Event_Cancel (tp_seq P) ts i side px k"
    obtain ok q1 where q1: "push ?e (tp_ring P) = Some (ok, q1)" "inv q1" using push_total [OF q] by blast
    have "pub_Cancel push clk i P = Some (True, P\<lparr>tp_book := b', tp_ring := q1, tp_seq := tp_seq P + 1, tp_clock := c1\<rparr>)"
      using k(2) cl q1(1) by (simp add: pub_Cancel_def pub_on_cancel_def)
    then show ?thesis using b' k(1) q1 True cl
      by (intro exI [of _ "P\<lparr>tp_book := b', tp_ring := q1, tp_seq := tp_seq P + 1, tp_clock := c1\<rparr>"] exI [of _ "[?e]"]) auto
  qed
qed

end

section \<open>The rings\<close>

text \<open>The ring of the source, and a recorder that keeps every event, for statements on what was
  published.\<close>

interpretation spsc: telemetry_ring TryPush ring_inv
  by unfold_locales

definition record_event :: "TelemetryEvent \<Rightarrow> TelemetryEvent list \<Rightarrow> (bool \<times> TelemetryEvent list) option" where
  "record_event e es = Some (True, es @ [e])"

interpretation tape: telemetry_ring record_event "\<lambda>_. True"
  by unfold_locales (auto simp: record_event_def)

lemma record_run: "push_run record_event es xs = Some (replicate (length es) True, xs @ es)"
  by (induction es arbitrary: xs) (simp_all add: record_event_def)

text \<open>Pushing a list of events into the source's ring, against a bounded queue.\<close>

definition push_all :: "TelemetryEvent list \<Rightarrow> TelemetryEvent ring \<Rightarrow> TelemetryEvent ring \<Rightarrow> bool" where
  "push_all es R R' \<longleftrightarrow> ring_inv R' \<and> ring_cap R' = ring_cap R
     \<and> items R' = snd (q_spec (ring_cap R) (map QPush es) (items R))
     \<and> dropped_messages R' = dropped_messages R
         + of_nat (drops (fst (q_spec (ring_cap R) (map QPush es) (items R))))"

lemma push_run_all: "ring_inv R \<Longrightarrow> push_run TryPush es R = Some (oks, R') \<Longrightarrow> push_all es R R'"
  using rq.run_fifo [of R "map QPush es"] by (auto simp: push_all_def push_run_q_run)

section \<open>The publisher is a gateway\<close>

definition pub_in :: "('q \<Rightarrow> bool) \<Rightarrow> Price \<Rightarrow> Price \<Rightarrow> nat \<Rightarrow> ('c, 'q) TelemetryPublisher \<Rightarrow> bool" where
  "pub_in rinv mn mx cap P \<longleftrightarrow> book_in mn mx cap (tp_book P) \<and> rinv (tp_ring P)"

context telemetry_ring begin

lemma publisher_gateway:
  fixes clk :: "'c clock_fn"
  shows "order_gateway (pub_AddLimit push clk) (pub_Cancel push clk) (\<lambda>P. open_order_count (tp_book P))
    (\<lambda>P. depth_of (tp_book P)) (pub_in inv mn mx cap) mn mx cap"
proof (rule book_keeper_gateway, goal_cases)
  case (1 P)
  then show ?case by (simp add: pub_in_def)
next
  case (2 P i side px qty ok fills D')
  then have P: "book_inv (tp_book P)" "inv (tp_ring P)" by (simp_all add: pub_in_def book_in_def)
  obtain es c' where "emit clk (tp_seq P) (tp_clock P) (add_drafts i side px qty ok fills) = (es, c')" by fastforce
  from pub_AddLimit_ok [OF P 2(2,3) _ this] 2(1,4) show ?case by (fastforce simp: pub_in_def book_in_def same_desk_def)
next
  case (3 P i)
  then have P: "book_inv (tp_book P)" "inv (tp_ring P)" by (simp_all add: pub_in_def book_in_def)
  from pub_Cancel_ok [OF P, of clk i] 3 show ?case by (auto simp: pub_in_def book_in_def same_desk_def)
qed

end

interpretation pub_gate: order_gateway "pub_AddLimit TryPush clk" "pub_Cancel TryPush clk" "\<lambda>P. open_order_count (tp_book P)"
    "\<lambda>P. depth_of (tp_book P)" "pub_in ring_inv mn mx cap" mn mx cap
  by (rule spsc.publisher_gateway)

interpretation tape_gate: order_gateway "pub_AddLimit record_event clk" "pub_Cancel record_event clk" "\<lambda>P. open_order_count (tp_book P)"
    "\<lambda>P. depth_of (tp_book P)" "pub_in (\<lambda>_. True) mn mx cap" mn mx cap
  by (rule tape.publisher_gateway)

section \<open>Correctness\<close>

definition pub_inv :: "('c, TelemetryEvent ring) TelemetryPublisher \<Rightarrow> bool" where
  "pub_inv P \<longleftrightarrow> book_inv (tp_book P) \<and> ring_inv (tp_ring P)"

text \<open>C13: the publisher tells the whole story of an order. For a well-formed book and ring,
  \<^verbatim>\<open>AddLimit\<close> has the effect and result of the book's \<^verbatim>\<open>AddLimit\<close>, and pushes
  exactly its fills, in order, followed by one acknowledgement carrying the residual quantity if and
  only if the call succeeded and something is left to rest; the events carry consecutive sequence
  numbers, also when the ring drops some of them.\<close>

theorem publisher_AddLimit_events:
  assumes "pub_inv P" "qty \<noteq> 0" "\<not> spec_resting i (depth_of (tp_book P))"
    and "spec_add (bk_min_price (tp_book P)) (bk_max_price (tp_book P)) (slab_capacity (tp_book P))
      i side px qty (depth_of (tp_book P)) = (ok, fills, D')"
  shows "\<exists>P' es. pub_AddLimit TryPush clk i side px qty P = Some (ok, P') \<and> pub_inv P'
    \<and> depth_of (tp_book P') = D'
    \<and> es = fst (emit clk (tp_seq P) (tp_clock P) (add_drafts i side px qty ok fills))
    \<and> push_all es (tp_ring P) (tp_ring P')
    \<and> tp_seq P' = tp_seq P + of_nat (length es)
    \<and> (\<forall>k<length es. te_sequence (es ! k) = tp_seq P + of_nat k)"
proof -
  have B: "book_inv (tp_book P)" "ring_inv (tp_ring P)" using assms(1) by (auto simp: pub_inv_def)
  let ?ds = "add_drafts i side px qty ok fills"
  obtain es c' where es: "emit clk (tp_seq P) (tp_clock P) ?ds = (es, c')" by fastforce
  then have "es = fst (emit clk (tp_seq P) (tp_clock P) ?ds)" by simp
  then have "\<forall>k<length es. te_sequence (es ! k) = tp_seq P + of_nat k"
    by (auto intro: emit_sequence [OF add_drafts_sequence])
  moreover obtain oks q' b' where "push_run TryPush es (tp_ring P) = Some (oks, q')" "ring_inv q'"
    "pub_AddLimit TryPush clk i side px qty P
      = Some (ok, P\<lparr>tp_book := b', tp_ring := q', tp_seq := tp_seq P + of_nat (length es), tp_clock := c'\<rparr>)"
    "book_inv b'" "depth_of b' = D'"
    using spsc.pub_AddLimit_ok [OF B assms(2-4) es] by blast
  ultimately show ?thesis using push_run_all [OF B(2)] es by (auto simp: pub_inv_def)
qed

lemma small_pub:
  "\<exists>P :: (u64, TelemetryEvent ring) TelemetryPublisher. pub_inv P \<and> depth_of (tp_book P) = put_queue (\<lambda>_ _. []) kSell 5 [(7, 3)]
     \<and> bk_min_price (tp_book P) = 5 \<and> bk_max_price (tp_book P) = 5 \<and> slab_capacity (tp_book P) = 2
     \<and> tp_ring P = SpscRing 4 sample_event \<and> tp_seq P = 0 \<and> tp_clock P = 100"
proof -
  obtain b where b: "book_inv b" "depth_of b = put_queue (\<lambda>_ _. []) kSell 5 [(7, 3)]"
    "bk_min_price b = 5" "bk_max_price b = 5" "slab_capacity b = 2"
    using small_book_sold by blast
  have "ring_inv (SpscRing 4 sample_event)" using new_ring(1) [of 2 sample_event] by simp
  with b show ?thesis
    by (intro exI [of _ "TelemetryPublisher_new b (SpscRing 4 sample_event) 100"])
      (simp add: TelemetryPublisher_new_def pub_inv_def)
qed

lemma small_ring_empty: "items (SpscRing 4 z) = []" "ring_cap (SpscRing 4 z) = 4"
  using new_ring(2,4) [of 2 z] by simp_all

theorem publisher_AddLimit_events_witness:
  "\<exists>P P' :: (u64, TelemetryEvent ring) TelemetryPublisher. pub_AddLimit TryPush (\<lambda>c. (c, c + 1)) 8 kBuy 5 4 P = Some (True, P')
     \<and> items (tp_ring P') = [Event_Fill 0 100 \<lparr>fl_maker_id = 7, fl_taker_id = 8, fl_price = 5, fl_qty = 3, fl_taker_side = kBuy\<rparr>,
          Event_Ack 1 101 8 kBuy 5 1]"
proof -
  obtain P :: "(u64, TelemetryEvent ring) TelemetryPublisher" where P: "pub_inv P"
    "depth_of (tp_book P) = put_queue (\<lambda>_ _. []) kSell 5 [(7, 3)]"
    "bk_min_price (tp_book P) = 5" "bk_max_price (tp_book P) = 5" "slab_capacity (tp_book P) = 2"
    "tp_ring P = SpscRing 4 sample_event" "tp_seq P = 0" "tp_clock P = 100"
    using small_pub by blast
  let ?f = "\<lparr>fl_maker_id = 7, fl_taker_id = 8, fl_price = 5, fl_qty = 3, fl_taker_side = kBuy\<rparr>"
  have sp: "spec_add 5 5 2 8 kBuy 5 4 (depth_of (tp_book P))
      = (True, [?f], put_queue (\<lambda>_ _. []) kBuy 5 [(8, 1)])"
    unfolding P(2) by (simp add: spec_add_def order_total_def sweep.simps to_fill_def Let_def fun_eq_iff)
  have nr: "\<not> spec_resting 8 (depth_of (tp_book P))" unfolding P(2) by (simp add: spec_resting_def)
  have d: "add_drafts 8 kBuy 5 4 True [?f] = [\<lambda>q ts. Event_Fill q ts ?f, \<lambda>q ts. Event_Ack q ts 8 kBuy 5 1]"
    by (simp add: add_drafts_def Let_def)
  from publisher_AddLimit_events [OF P(1) _ nr, of 4 kBuy 5 True "[?f]" _ "\<lambda>c. (c, c + 1)"] sp P(3-5)
  obtain P' where r: "pub_AddLimit TryPush (\<lambda>c. (c, c + 1)) 8 kBuy 5 4 P = Some (True, P')"
    "push_all (fst (emit (\<lambda>c. (c, c + 1)) (tp_seq P) (tp_clock P) (add_drafts 8 kBuy 5 4 True [?f]))) (tp_ring P) (tp_ring P')"
    by auto
  then show ?thesis unfolding d P(6-8)
    by (intro exI [of _ P] exI [of _ P']) (simp add: push_all_def small_ring_empty)
qed

text \<open>\<^verbatim>\<open>Cancel\<close> publishes one event with the order's side, price and residual
  quantity when the id rests, and then the order is gone; otherwise it returns false, publishes
  nothing and uses no sequence number.\<close>

theorem publisher_Cancel_events:
  assumes "pub_inv P"
  shows "\<exists>P'. pub_inv P' \<and> depth_of (tp_book P') = spec_cancel i (depth_of (tp_book P))
    \<and> (if spec_resting i (depth_of (tp_book P))
       then pub_Cancel TryPush clk i P = Some (True, P') \<and> tp_seq P' = tp_seq P + 1
          \<and> (\<exists>side px q. (i, q) \<in> set (depth_of (tp_book P) side px)
               \<and> push_all [Event_Cancel (tp_seq P) (fst (clk (tp_clock P))) i side px q] (tp_ring P) (tp_ring P'))
       else pub_Cancel TryPush clk i P = Some (False, P') \<and> tp_seq P' = tp_seq P \<and> tp_ring P' = tp_ring P)"
proof -
  have B: "book_inv (tp_book P)" "ring_inv (tp_ring P)" using assms by (auto simp: pub_inv_def)
  from spsc.pub_Cancel_ok [OF B, of clk i] push_run_all [OF B(2)] show ?thesis
    unfolding pub_inv_def by (cases "spec_resting i (depth_of (tp_book P))") force+
qed

theorem publisher_Cancel_events_witness:
  "\<exists>P P' :: (u64, TelemetryEvent ring) TelemetryPublisher. pub_Cancel TryPush (\<lambda>c. (c, c + 1)) 7 P = Some (True, P')
     \<and> items (tp_ring P') = [Event_Cancel 0 100 7 kSell 5 3]"
proof -
  obtain P :: "(u64, TelemetryEvent ring) TelemetryPublisher" where P: "pub_inv P"
    "depth_of (tp_book P) = put_queue (\<lambda>_ _. []) kSell 5 [(7, 3)]"
    "tp_ring P = SpscRing 4 sample_event" "tp_seq P = 0" "tp_clock P = 100"
    using small_pub by blast
  have "spec_resting 7 (depth_of (tp_book P))" unfolding P(2) spec_resting_def
    by (intro exI [of _ kSell] exI [of _ 5] exI [of _ 3]) simp
  with publisher_Cancel_events [OF P(1), of 7 "\<lambda>c. (c, c + 1)"] obtain P' side px q where
    r: "pub_Cancel TryPush (\<lambda>c. (c, c + 1)) 7 P = Some (True, P')" "(7, q) \<in> set (depth_of (tp_book P) side px)"
      "push_all [Event_Cancel (tp_seq P) (fst ((\<lambda>c. (c, c + 1)) (tp_clock P))) 7 side px q] (tp_ring P) (tp_ring P')"
    by auto
  have "side = kSell" "px = 5" "q = 3" using r(2) unfolding P(2) by (auto split: if_splits)
  then show ?thesis using r(1,3) unfolding P(3-5)
    by (intro exI [of _ P] exI [of _ P']) (simp add: push_all_def small_ring_empty)
qed

end
