(* ===== verification/Tape_Replay.thy ===== *)
theory Tape_Replay imports Telemetry_Publisher begin

text \<open>
  The telemetry tape as an audit trail. \<open>replay\<close> is what a reader of the tape does to its own
  copy of the queues: a fill takes quantity from a maker, an acknowledgement rests an order, a cancel
  removes one. Replaying what the publisher of \<^verbatim>\<open>cpp/exec/telemetry_publisher.hpp\<close>
  pushes during a call turns the queues before the call into the queues after it; and every event is
  well formed (\<open>event_wf\<close>).
\<close>

section \<open>Replaying\<close>

fun reduce_maker :: "OrderId \<Rightarrow> Quantity \<Rightarrow> queue \<Rightarrow> queue" where
  "reduce_maker m k [] = []"
| "reduce_maker m k ((i, q) # es) =
     (if i = m then (if k < q then (i, q - k) # es else es) else (i, q) # reduce_maker m k es)"

definition replay :: "TelemetryEvent \<Rightarrow> depth \<Rightarrow> depth" where
  "replay e D = (let s = te_side e; px = te_price e in
     case te_type e of
       kFill \<Rightarrow> put_queue D (opposite s) px (reduce_maker (te_counter_id e) (te_qty e) (D (opposite s) px))
     | kAck \<Rightarrow> put_queue D s px (D s px @ [(te_order_id e, te_qty e)])
     | kCancel \<Rightarrow> put_queue D s px (filter (\<lambda>x. fst x \<noteq> te_order_id e) (D s px)))"

lemma fill_queue_reduce:
  "fill_queue r q = (fs, r', rest) \<Longrightarrow> fold (\<lambda>(m, k). reduce_maker m k) fs q = rest"
proof (induction r q arbitrary: fs rule: fill_queue.induct)
  case (2 r i q es)
  show ?case
  proof (cases "r = 0 \<or> r < q")
    case True
    with 2(2) show ?thesis by (auto split: if_splits)
  next
    case False
    then obtain gs where "fill_queue (r - q) es = (gs, r', rest)" "fs = (i, q) # gs"
      using 2(2) by (auto simp: Let_def split: prod.splits)
    with 2(1) False show ?thesis by simp
  qed
qed simp

text \<open>One fill, on the queues of the makers' side.\<close>

definition hit :: "Price \<times> OrderId \<times> Quantity \<Rightarrow> (Price \<Rightarrow> queue) \<Rightarrow> Price \<Rightarrow> queue" where
  "hit f D = D(fst f := reduce_maker (fst (snd f)) (snd (snd f)) (D (fst f)))"

lemma fold_hit_price: "fold hit (map (Pair px) fs) D = D(px := fold (\<lambda>(m, k). reduce_maker m k) fs (D px))"
  by (induction fs arbitrary: D) (auto simp: hit_def case_prod_beta)

lemma sweep_hits: "sweep pxs r D = (fs, r', D') \<Longrightarrow> fold hit fs D = D'"
proof (induction pxs arbitrary: r D fs)
  case (Cons px pxs)
  obtain gs r1 rest hs where f: "fill_queue r (D px) = (gs, r1, rest)"
    and h: "sweep pxs r1 (D(px := rest)) = (hs, r', D')" "fs = map (Pair px) gs @ hs"
    using sweep_ConsD [OF Cons.prems(1)] by blast
  show ?case
    unfolding h(2) fold_append o_apply fold_hit_price fill_queue_reduce [OF f] by (rule Cons.IH [OF h(1)])
qed simp

lemma replay_fill: "replay (Event_Fill q ts (to_fill i side f)) D = D(opposite side := hit f (D (opposite side)))"
  by (simp add: replay_def Event_Fill_def to_fill_def hit_def Let_def)

lemma replay_fills:
  "fold (\<lambda>f. replay (Event_Fill q ts f)) (map (to_fill i side) fs) D = D(opposite side := fold hit fs (D (opposite side)))"
  by (induction fs arbitrary: D) (simp_all add: replay_fill)

text \<open>Numbers and time stamps do not matter.\<close>

lemma replay_emit:
  assumes "\<And>d q ts. d \<in> set ds \<Longrightarrow> replay (d q ts) = act d"
  shows "fold replay (fst (emit clk sq c ds)) D = fold act ds D"
  using assms by (induction ds arbitrary: sq c D) (simp_all add: Let_def case_prod_beta)

lemma residual_swept:
  assumes sp: "spec_add mn mx cap i side px qty D = (ok, fills, D')"
    and sw: "sweep (crossing side mn mx px) qty (D (opposite side)) = (fs, r, D1)"
  shows "qty - sum_list (map fl_qty fills) = r"
proof -
  have "fills = map (to_fill i side) fs"
    using sp sw by (auto simp: spec_add_def Let_def split: if_splits)
  then have "unat (sum_list (map fl_qty fills)) + unat r = unat qty"
    using residual_left(2) [OF sp] sweep_conserves [OF sw] by (simp add: o_def)
  then have "of_nat (unat (sum_list (map fl_qty fills)) + unat r) = (of_nat (unat qty) :: u64)" by (rule arg_cong)
  then show ?thesis by (simp add: algebra_simps)
qed

lemma replay_add:
  assumes "spec_add mn mx cap i side px qty D = (ok, fills, D')"
  shows "fold replay (fst (emit clk sq c (add_drafts i side px qty ok fills))) D = D'"
proof -
  obtain fs r D1 where sw: "sweep (crossing side mn mx px) qty (D (opposite side)) = (fs, r, D1)"
    by (cases "sweep (crossing side mn mx px) qty (D (opposite side))")
  have fills: "fills = map (to_fill i side) fs"
    using assms sw by (auto simp: spec_add_def Let_def split: if_splits)
  have act: "replay (d q ts) = replay (d 0 0)" if "d \<in> set (add_drafts i side px qty ok fills)" for d q ts
    using that by (auto simp: add_drafts_def fill_drafts_def Let_def Event_Fill_def Event_Ack_def replay_def fun_eq_iff split: if_splits)
  have e: "fold replay (fst (emit clk sq c (add_drafts i side px qty ok fills))) D
      = fold (\<lambda>d. replay (d 0 0)) (add_drafts i side px qty ok fills) D"
    by (rule replay_emit) (rule act)
  note r = residual_swept [OF assms sw]
  have "fold (\<lambda>d. replay (d 0 0)) (fill_drafts fills) D = D(opposite side := D1)"
    using replay_fills [of 0 0 i side fs D] sweep_hits [OF sw] by (simp add: fill_drafts_def fold_map o_def fills)
  with assms sw show ?thesis
    unfolding e by (auto simp: add_drafts_def Let_def r spec_add_def replay_def Event_Ack_def split: if_splits)
qed

text \<open>A cancel names the only place the id rests at.\<close>

definition unique_ids :: "depth \<Rightarrow> bool" where
  "unique_ids D \<longleftrightarrow> (\<forall>i s p q s' p' q'. (i, q) \<in> set (D s p) \<longrightarrow> (i, q') \<in> set (D s' p') \<longrightarrow> s = s' \<and> p = p')"

lemma replay_cancel:
  assumes "unique_ids D" "(i, q) \<in> set (D side px)"
  shows "replay (Event_Cancel sq ts i side px q) D = spec_cancel i D"
proof (intro ext)
  fix s p
  have "filter (\<lambda>x. fst x \<noteq> i) (D s p) = D s p" if "(s, p) \<noteq> (side, px)"
  proof (rule filter_True, rule ballI, rule notI)
    fix x assume "x \<in> set (D s p)" "fst x = i"
    then have "(i, snd x) \<in> set (D s p)" by force
    with assms that show False unfolding unique_ids_def by blast
  qed
  then show "replay (Event_Cancel sq ts i side px q) D s p = spec_cancel i D s p"
    by (auto simp: replay_def Event_Cancel_def spec_cancel_def Let_def)
qed

section \<open>Well-formed events\<close>

definition event_wf :: "Price \<Rightarrow> Price \<Rightarrow> TelemetryEvent \<Rightarrow> bool" where
  "event_wf mn mx e \<longleftrightarrow> te_qty e \<noteq> 0 \<and> mn \<le> te_price e \<and> te_price e \<le> mx
     \<and> (if te_type e = kFill then te_counter_id e \<noteq> te_order_id e else te_counter_id e = 0)"

definition no_dust :: "depth \<Rightarrow> bool" where
  "no_dust D \<longleftrightarrow> (\<forall>s p. \<forall>e\<in>set (D s p). snd e \<noteq> 0)"

lemma fill_queue_makers: "fill_queue r q = (fs, r', rest) \<Longrightarrow> fst ` set fs \<subseteq> fst ` set q"
  by (induction r q arbitrary: fs rule: fill_queue.induct) (force split: if_splits prod.splits simp: Let_def)+

lemma sweep_fills_wf:
  assumes sw: "sweep pxs r D = (fs, r', D')" "distinct pxs" and D: "\<forall>p. \<forall>e\<in>set (D p). snd e \<noteq> 0"
    and f: "(p, m, k) \<in> set fs"
  shows "k \<noteq> 0" "m \<in> fst ` set (D p)"
proof -
  obtain ri ro where q: "fill_queue ri (D p) = (map snd (filter (\<lambda>f. fst f = p) fs), ro, D' p)"
    using sweep_at_price [OF sw, of p] by blast
  have mk: "(m, k) \<in> set (map snd (filter (\<lambda>f. fst f = p) fs))" using f by force
  then show "k \<noteq> 0" using fill_queue_positive [OF q] D by auto
  show "m \<in> fst ` set (D p)" using fill_queue_makers [OF q] imageI [OF mk, of fst] by (auto simp del: set_map)
qed

lemma emit_drafts: "e \<in> set (fst (emit clk sq c ds)) \<Longrightarrow> \<exists>d\<in>set ds. \<exists>q ts. e = d q ts"
  by (induction ds arbitrary: sq c) (auto simp: Let_def case_prod_beta)

lemma add_events_wf:
  assumes sp: "spec_add mn mx cap i side px qty D = (ok, fills, D')"
    and D: "no_dust D" "\<not> spec_resting i D" and e: "e \<in> set (fst (emit clk sq c (add_drafts i side px qty ok fills)))"
  shows "event_wf mn mx e"
proof -
  obtain fs r D1 where sw: "sweep (crossing side mn mx px) qty (D (opposite side)) = (fs, r, D1)"
    by (cases "sweep (crossing side mn mx px) qty (D (opposite side))")
  have fills: "fills = map (to_fill i side) fs"
    using sp sw by (auto simp: spec_add_def Let_def split: if_splits)
  have pos: "\<forall>p. \<forall>e\<in>set (D (opposite side) p). snd e \<noteq> 0" using D(1) by (auto simp: no_dust_def)
  have fill: "event_wf mn mx (Event_Fill q ts (to_fill i side (p, m, k)))" if f: "(p, m, k) \<in> set fs" for q ts p m k
  proof -
    have "mn \<le> p" "p \<le> mx" using sweep_fill_px [OF sw f] by (auto simp: set_crossing)
    moreover have "m \<noteq> i" using sweep_fills_wf(2) [OF sw distinct_crossing pos f] D(2) by (force simp: spec_resting_def)
    ultimately show ?thesis
      using sweep_fills_wf(1) [OF sw distinct_crossing pos f] by (simp add: event_wf_def Event_Fill_def)
  qed
  obtain d q ts where d: "d \<in> set (add_drafts i side px qty ok fills)" "e = d q ts" using emit_drafts [OF e] by blast
  consider p m k where "(p, m, k) \<in> set fs" "e = Event_Fill q ts (to_fill i side (p, m, k))"
    | "ok" "qty - sum_list (map fl_qty fills) \<noteq> 0" "e = Event_Ack q ts i side px (qty - sum_list (map fl_qty fills))"
    using d by (auto simp: add_drafts_def fill_drafts_def Let_def fills split: if_splits)
  then show ?thesis
  proof cases
    case 1
    then show ?thesis using fill by simp
  next
    case 2
    then have "mn \<le> px \<and> px \<le> mx"
      using sp sw residual_swept [OF sp sw] by (auto simp: spec_add_def Let_def split: if_splits)
    with 2 show ?thesis by (simp add: event_wf_def Event_Ack_def)
  qed
qed

section \<open>Trades\<close>

text \<open>The trades that an order made as the taker, read off the events, and what they amount to.\<close>

definition trades_of :: "OrderId \<Rightarrow> TelemetryEvent list \<Rightarrow> TelemetryEvent list" where
  "trades_of i es = filter (\<lambda>e. te_type e = kFill \<and> te_order_id e = i) es"

definition trades_qty :: "TelemetryEvent list \<Rightarrow> nat" where
  "trades_qty ts = (\<Sum>e \<leftarrow> ts. unat (te_qty e))"

definition trades_cash :: "TelemetryEvent list \<Rightarrow> int" where
  "trades_cash ts = (\<Sum>e \<leftarrow> ts. te_price e * int (unat (te_qty e)))"

lemma trades_append [simp]: "trades_of i (es @ fs) = trades_of i es @ trades_of i fs"
  by (simp add: trades_of_def)

lemma trades_sums [simp]:
  "trades_qty [] = 0" "trades_qty (ts @ us) = trades_qty ts + trades_qty us"
  "trades_cash [] = 0" "trades_cash (ts @ us) = trades_cash ts + trades_cash us"
  by (simp_all add: trades_qty_def trades_cash_def)

text \<open>\<open>executes i fills es\<close>: the trades among the events are \<open>fills\<close>, with \<open>i\<close> the taker of each.\<close>

definition executes :: "OrderId \<Rightarrow> Fill list \<Rightarrow> TelemetryEvent list \<Rightarrow> bool" where
  "executes i fills es \<longleftrightarrow> (\<forall>j. map (\<lambda>e. (te_side e, te_price e, te_qty e)) (trades_of j es)
     = (if j = i then map (\<lambda>f. (fl_taker_side f, fl_price f, fl_qty f)) fills else []))"

lemma executes_other: "executes i fills es \<Longrightarrow> j \<noteq> i \<Longrightarrow> trades_of j es = []"
  unfolding executes_def by (drule spec [of _ j]) simp

lemma executes_append_ack:
  "te_type e \<noteq> kFill \<Longrightarrow> executes i fills (es @ [e]) \<longleftrightarrow> executes i fills es"
  by (simp add: executes_def trades_of_def)

lemma executes_fills:
  "\<forall>f\<in>set fills. fl_taker_id f = i \<Longrightarrow> executes i fills (fst (emit clk sq c (fill_drafts fills)))"
proof (induction fills arbitrary: sq c)
  case (Cons f fills)
  then show ?case
    by (fastforce simp: executes_def fill_drafts_def trades_of_def Event_Fill_def Let_def case_prod_beta split: if_splits)
qed (simp add: executes_def fill_drafts_def trades_of_def)

lemma spec_add_takers:
  "spec_add mn mx cap i side px qty D = (ok, fills, D') \<Longrightarrow> \<forall>f\<in>set fills. fl_taker_id f = i \<and> fl_taker_side f = side"
  by (auto simp: spec_add_def to_fill_def Let_def split: prod.splits if_splits)

lemma add_executes:
  assumes "spec_add mn mx cap i side px qty D = (ok, fills, D')"
  shows "executes i fills (fst (emit clk sq c (add_drafts i side px qty ok fills)))"
  using executes_fills [of fills i clk sq c] spec_add_takers [OF assms]
  by (auto simp: add_drafts_def emit_append Let_def case_prod_beta executes_append_ack Event_Ack_def)

text \<open>What executed fills amount to.\<close>

definition fills_qty :: "Fill list \<Rightarrow> nat" where "fills_qty fs = (\<Sum>f \<leftarrow> fs. unat (fl_qty f))"
definition fills_cash :: "Fill list \<Rightarrow> int" where "fills_cash fs = (\<Sum>f \<leftarrow> fs. fl_price f * int (unat (fl_qty f)))"

lemma fills_simps [simp]:
  "fills_qty [] = 0" "fills_qty (f # fs) = unat (fl_qty f) + fills_qty fs"
  "fills_cash [] = 0" "fills_cash (f # fs) = fl_price f * int (unat (fl_qty f)) + fills_cash fs"
  by (simp_all add: fills_qty_def fills_cash_def)

lemma executes_sums:
  assumes "executes i fills es"
  shows "trades_qty (trades_of i es) = fills_qty fills" "trades_cash (trades_of i es) = fills_cash fills"
    "e \<in> set (trades_of i es) \<Longrightarrow> te_side e \<in> fl_taker_side ` set fills"
proof -
  have e: "map (\<lambda>e. (te_side e, te_price e, te_qty e)) (trades_of i es) = map (\<lambda>f. (fl_taker_side f, fl_price f, fl_qty f)) fills"
    using assms by (simp add: executes_def)
  from arg_cong [OF e, of "map (\<lambda>(s, p, q). unat q)"] show "trades_qty (trades_of i es) = fills_qty fills"
    by (simp add: trades_qty_def fills_qty_def o_def)
  from arg_cong [OF e, of "map (\<lambda>(s, p, q). p * int (unat q))"] show "trades_cash (trades_of i es) = fills_cash fills"
    by (simp add: trades_cash_def fills_cash_def o_def del: of_nat_unat)
  from arg_cong [OF e, of "\<lambda>xs. fst ` set xs"] show "te_side e \<in> fl_taker_side ` set fills" if "e \<in> set (trades_of i es)"
    using that by (auto simp: image_image)
qed

section \<open>Of the book\<close>

lemma book_no_dust:
  assumes "book_inv b"
  shows "no_dust (depth_of b)"
proof -
  obtain F where F: "core_inv b F" "depth_of b = resting b F" using assms by (rule book_invE)
  then show ?thesis using resting_nonzero [OF F(1)] by (auto simp: no_dust_def)
qed

lemma book_unique_ids:
  assumes "book_inv b"
  shows "unique_ids (depth_of b)"
proof -
  obtain F where F: "core_inv b F" "depth_of b = resting b F" using assms by (rule book_invE)
  have node: "\<exists>n. n \<in> set (F s p) \<and> contents (bk_id_index b) i = Some n" if e: "(i, q) \<in> set (depth_of b s p)" for i q s p
  proof -
    obtain n where n: "n \<in> set (F s p)" "entry (datum (heap b) n) = (i, q)"
      using e unfolding F(2) resting_def by auto
    obtain x where "heap b n = Some x" using orders_invD [OF core_invD(4) [OF F(1)] n(1)] by blast
    with n core_invD(5) [OF F(1)] show ?thesis by (auto simp: index_agrees_def entry_heap)
  qed
  show ?thesis
    unfolding unique_ids_def
  proof (intro allI impI)
    fix i s p q s' p' q'
    assume "(i, q) \<in> set (depth_of b s p)" "(i, q') \<in> set (depth_of b s' p')"
    then obtain n where "n \<in> set (F s p)" "n \<in> set (F s' p')" using node by (metis option.inject)
    then show "s = s' \<and> p = p'" using fifo_disjoint [OF F(1), of n s p s' p'] by auto
  qed
qed

text \<open>\<open>audited mn mx es D D'\<close>: the events are well formed and lead from \<open>D\<close> to \<open>D'\<close>.\<close>

definition audited :: "Price \<Rightarrow> Price \<Rightarrow> TelemetryEvent list \<Rightarrow> depth \<Rightarrow> depth \<Rightarrow> bool" where
  "audited mn mx es D D' \<longleftrightarrow> fold replay es D = D' \<and> (\<forall>e\<in>set es. event_wf mn mx e)"

lemma audited_Nil [simp]: "audited mn mx [] D D' \<longleftrightarrow> D = D'"
  by (simp add: audited_def)

lemma audited_append: "audited mn mx es D D' \<Longrightarrow> audited mn mx fs D' D'' \<Longrightarrow> audited mn mx (es @ fs) D D''"
  by (auto simp: audited_def)

lemma add_audited:
  assumes "book_inv b" "\<not> spec_resting i (depth_of b)"
    and "spec_add mn mx cap i side px qty (depth_of b) = (ok, fills, D')"
  shows "audited mn mx (fst (emit clk sq c (add_drafts i side px qty ok fills))) (depth_of b) D'"
  using replay_add [OF assms(3)] add_events_wf [OF assms(3) book_no_dust [OF assms(1)] assms(2)]
  by (auto simp: audited_def)

lemma cancel_audited:
  assumes "book_inv b" "(i, q) \<in> set (depth_of b side px)"
  shows "audited (bk_min_price b) (bk_max_price b) [Event_Cancel sq ts i side px q] (depth_of b) (spec_cancel i (depth_of b))"
proof -
  have "q \<noteq> 0" using book_no_dust [OF assms(1)] assms(2) by (fastforce simp: no_dust_def)
  moreover have "bk_min_price b \<le> px \<and> px \<le> bk_max_price b"
    using depth_band [OF assms(1)] assms(2) unfolding in_band_def by (metis emptyE list.set(1))
  ultimately have "event_wf (bk_min_price b) (bk_max_price b) (Event_Cancel sq ts i side px q)"
    by (simp add: event_wf_def Event_Cancel_def)
  with replay_cancel [OF book_unique_ids [OF assms(1)] assms(2)] show ?thesis by (simp add: audited_def)
qed

end
