(* ===== verification/Telemetry_Pipeline.thy ===== *)
theory Telemetry_Pipeline imports Tape_Replay begin

text \<open>
  The producer's side and the relay put together, as both drivers of the engine do: the publisher
  pushes into the ring while the consumer thread of the relay drains it, and at the end
  \<^verbatim>\<open>Stop\<close> joins the thread. How the two threads interleave is a schedule, the number
  of steps the consumer takes after each push; every theorem holds for every schedule.
\<close>

section \<open>The whole of Stop\<close>

text \<open>The consumer thread until it returns; a thread that never returns is \<open>None\<close>.\<close>

partial_function (option) run_thread :: "('q \<Rightarrow> (TelemetryEvent option \<times> 'q) option) \<Rightarrow> (TelemetryEvent \<Rightarrow> 'l \<Rightarrow> 'l)
    \<Rightarrow> ('q, 'l) EventRelay \<Rightarrow> ('q, 'l) EventRelay option" where
  "run_thread pop log S =
     (if er_pc S = R_done then Some S else do { S1 \<leftarrow> Run_step pop log S; run_thread pop log S1 })"

definition Stop :: "('q \<Rightarrow> (TelemetryEvent option \<times> 'q) option) \<Rightarrow> (TelemetryEvent \<Rightarrow> 'l \<Rightarrow> 'l)
    \<Rightarrow> ('q, 'l) EventRelay \<Rightarrow> ('q, 'l) EventRelay option" where
  "Stop pop log S =
     (if \<not> er_running S then Some S
      else do { S1 \<leftarrow> run_thread pop log (Stop_request S); Some (Stop_joined S1) })"

text \<open>The destructor is \<^verbatim>\<open>Stop\<close>, which does nothing the second time.\<close>

definition EventRelay_destroy :: "('q \<Rightarrow> (TelemetryEvent option \<times> 'q) option) \<Rightarrow> (TelemetryEvent \<Rightarrow> 'l \<Rightarrow> 'l)
    \<Rightarrow> ('q, 'l) EventRelay \<Rightarrow> ('q, 'l) EventRelay option" where
  "EventRelay_destroy pop log S = Stop pop log S"

lemma EventRelay_destroy_stopped [simp]: "\<not> er_running S \<Longrightarrow> EventRelay_destroy pop log S = Some S"
  by (simp add: EventRelay_destroy_def Stop_def)

lemma run_thread_steps:
  "Run_steps n pop log S = Some S' \<Longrightarrow> er_pc S' = R_done \<Longrightarrow> run_thread pop log S = Some S'"
proof (induction n arbitrary: S)
  case 0
  then show ?case by (simp add: run_thread.simps)
next
  case (Suc n)
  then obtain S1 where S1: "Run_step pop log S = Some S1" "Run_steps n pop log S1 = Some S'"
    by (auto split: bind_splits)
  then have "er_pc S \<noteq> R_done" by (auto simp: Run_step_def)
  with S1 Suc show ?case by (simp add: run_thread.simps [of pop log S])
qed

section \<open>A push with the consumer running\<close>

definition pipe_push :: "(nat \<Rightarrow> nat) \<Rightarrow> (TelemetryEvent \<Rightarrow> 'q \<Rightarrow> (bool \<times> 'q) option)
    \<Rightarrow> ('q \<Rightarrow> (TelemetryEvent option \<times> 'q) option) \<Rightarrow> (TelemetryEvent \<Rightarrow> 'l \<Rightarrow> 'l)
    \<Rightarrow> TelemetryEvent \<Rightarrow> ('q, 'l) EventRelay \<Rightarrow> (bool \<times> ('q, 'l) EventRelay) option" where
  "pipe_push sched push pop log e S = do {
     S1 \<leftarrow> Produce push e S;
     S2 \<leftarrow> Run_steps (sched (length (er_produced S))) pop log S1;
     Some (er_accepted S1 \<noteq> er_accepted S, S2)
   }"

lemma run_step_produced:
  "Run_step pop log S = Some S' \<Longrightarrow> er_produced S' = er_produced S \<and> er_running S' = er_running S \<and> er_joining S' = er_joining S"
  by (auto simp: Run_step_def handle_event_def split: run_pc.splits bind_splits option.splits)

lemma run_steps_produced: "Run_steps n pop log S = Some S' \<Longrightarrow> er_produced S' = er_produced S"
  by (induction n arbitrary: S) (auto dest: run_step_produced split: bind_splits)

lemma pipe_push_produced:
  "pipe_push sched push pop log e S = Some (ok, S') \<Longrightarrow> er_produced S' = er_produced S @ [e]"
  by (auto simp: pipe_push_def Produce_def dest!: run_steps_produced split: bind_splits)

text \<open>Later entries of the schedule do not matter to earlier pushes.\<close>

lemma push_run_schedule:
  "push_run (pipe_push sched push pop log) es S = Some (oks, S') \<Longrightarrow>
     (\<And>i. i < length (er_produced S) + length es \<Longrightarrow> sched' i = sched i) \<Longrightarrow>
     push_run (pipe_push sched' push pop log) es S = Some (oks, S') \<and> er_produced S' = er_produced S @ es"
proof (induction es arbitrary: S oks)
  case (Cons e es)
  then obtain ok S1 oks1 where S1: "pipe_push sched push pop log e S = Some (ok, S1)"
    "push_run (pipe_push sched push pop log) es S1 = Some (oks1, S')" "oks = ok # oks1"
    by (auto split: bind_splits)
  have p: "er_produced S1 = er_produced S @ [e]" by (rule pipe_push_produced [OF S1(1)])
  have "pipe_push sched' push pop log e S = pipe_push sched push pop log e S"
    using Cons.prems(2) by (simp add: pipe_push_def)
  with S1 Cons.IH [OF S1(2)] Cons.prems(2) p show ?case by simp
qed simp

context event_relay begin

definition pipe_inv :: "'r list \<Rightarrow> u64 \<Rightarrow> ('q, 'l) EventRelay \<Rightarrow> bool" where
  "pipe_inv t0 l0 S \<longleftrightarrow> relay_inv t0 l0 S \<and> er_running S \<and> \<not> er_joining S"

lemma run_steps_inv:
  "relay_inv t0 l0 S \<Longrightarrow> Run_steps n pop log S = Some S' \<Longrightarrow> relay_inv t0 l0 S' \<and> er_produced S' = er_produced S
     \<and> er_running S' = er_running S \<and> er_joining S' = er_joining S"
proof (induction n arbitrary: S)
  case (Suc n)
  then obtain S1 where S1: "Run_step pop log S = Some S1" "Run_steps n pop log S1 = Some S'"
    by (auto split: bind_splits)
  show ?case using Suc.IH [OF run_inv [OF Suc.prems(1) S1(1)] S1(2)] run_step_produced [OF S1(1)] by simp
qed simp

lemma run_step_total:
  assumes "pipe_inv t0 l0 S"
  shows "\<exists>S'. Run_step pop log S = Some S' \<and> pipe_inv t0 l0 S'"
proof -
  have inv: "relay_inv t0 l0 S" and r: "rinv (er_ring S)" using assms by (auto simp: pipe_inv_def relay_inv_def)
  have pc: "er_pc S \<noteq> R_none" "er_pc S \<noteq> R_done" using assms by (auto simp: pipe_inv_def relay_inv_def)
  obtain v q where "pop (er_ring S) = Some (v, q)"
    using pop_empty [OF r] pop_first [OF r] by (cases "items (er_ring S)") metis+
  then have "\<exists>S'. Run_step pop log S = Some S'" using pc
    by (cases "er_pc S"; cases v) (auto simp: Run_step_def)
  then obtain S' where st: "Run_step pop log S = Some S'" by blast
  then show ?thesis using run_inv [OF inv st] run_step_produced [OF st] assms by (auto simp: pipe_inv_def)
qed

lemma run_steps_total: "pipe_inv t0 l0 S \<Longrightarrow> \<exists>S'. Run_steps n pop log S = Some S' \<and> pipe_inv t0 l0 S'"
proof (induction n arbitrary: S)
  case (Suc n)
  from run_step_total [OF Suc.prems] obtain S1 where "Run_step pop log S = Some S1" "pipe_inv t0 l0 S1" by blast
  with Suc.IH show ?case by auto
qed auto

lemma produce_total:
  assumes "pipe_inv t0 l0 S"
  shows "\<exists>S'. Produce push e S = Some S' \<and> pipe_inv t0 l0 S' \<and> er_produced S' = er_produced S @ [e]"
proof -
  have inv: "relay_inv t0 l0 S" "\<not> er_joining S" using assms by (auto simp: pipe_inv_def)
  then have "rinv (er_ring S)" by (simp add: relay_inv_def)
  from push_total [OF this] obtain ok q where "push e (er_ring S) = Some (ok, q)" by blast
  then obtain S' where S': "Produce push e S = Some S'" "er_produced S' = er_produced S @ [e]"
    "er_running S' = er_running S" "er_joining S' = er_joining S" by (simp add: Produce_def)
  then show ?thesis using produce_inv [OF inv S'(1)] assms by (auto simp: pipe_inv_def)
qed

lemma pipe_push_total:
  assumes "pipe_inv t0 l0 S"
  shows "\<exists>ok S'. pipe_push sched push pop log e S = Some (ok, S') \<and> pipe_inv t0 l0 S'
    \<and> er_produced S' = er_produced S @ [e]"
proof -
  obtain S1 where S1: "Produce push e S = Some S1" "pipe_inv t0 l0 S1" "er_produced S1 = er_produced S @ [e]"
    using produce_total [OF assms] by blast
  obtain S2 where "Run_steps (sched (length (er_produced S))) pop log S1 = Some S2" "pipe_inv t0 l0 S2"
    using run_steps_total [OF S1(2)] by blast
  moreover from this have "er_produced S2 = er_produced S1"
    using run_steps_inv S1(2) by (auto simp: pipe_inv_def)
  ultimately show ?thesis using S1 by (simp add: pipe_push_def)
qed

lemma Start_pipe:
  "rinv q \<Longrightarrow> items q = [] \<Longrightarrow> linv l \<Longrightarrow> pipe_inv (tape l) (lost q) (Start (EventRelay_new q l))"
  by (simp add: pipe_inv_def relay_inv_def Start_def EventRelay_new_def)

text \<open>\<^verbatim>\<open>Stop\<close> returns, and nothing accepted is missing from the tape.\<close>

lemma Stop_ok:
  assumes "pipe_inv t0 l0 S"
  shows "\<exists>S'. Stop pop log S = Some S' \<and> \<not> er_running S' \<and> items (er_ring S') = []
    \<and> er_produced S' = er_produced S \<and> tape (er_logger S') = t0 @ map row (er_accepted S')
    \<and> subseq (er_accepted S') (er_produced S') \<and> er_processed S' = of_nat (length (er_accepted S'))
    \<and> lost (er_ring S') + er_processed S' = l0 + of_nat (length (er_produced S')) \<and> linv (er_logger S')"
proof -
  let ?S = "Stop_request S"
  have S: "relay_inv t0 l0 ?S" "er_stop_requested ?S" "er_pc ?S \<noteq> R_none" "er_produced ?S = er_produced S" "er_joining ?S"
    using assms by (auto simp: pipe_inv_def Stop_request_def relay_inv_def)
  from S(1) have "rinv (er_ring ?S)" by (simp add: relay_inv_def)
  from stop_terminates [OF this S(2,3)] obtain n S1 where S1: "Run_steps n pop log ?S = Some S1" "er_pc S1 = R_done"
    by blast
  have "Stop pop log S = Some (Stop_joined S1)"
    using run_thread_steps [OF S1] assms by (simp add: Stop_def pipe_inv_def)
  moreover have "relay_inv t0 l0 S1" "er_produced S1 = er_produced S"
    using run_steps_inv [OF S(1) S1(1)] S(4) by auto
  ultimately show ?thesis using S1(2) by (auto simp: relay_inv_def Stop_joined_def)
qed

end

section \<open>Rings that remember\<close>

text \<open>A ring with a ghost list of everything pushed. In front of one, the publisher's invariant
  says that the list is numbered from zero and that the counter is its length.\<close>

definition numbered :: "TelemetryEvent list \<Rightarrow> bool" where
  "numbered es \<longleftrightarrow> (\<forall>k<length es. te_sequence (es ! k) = of_nat k)"

lemma numbered_append:
  assumes "numbered es" "\<forall>k<length fs. te_sequence (fs ! k) = of_nat (length es) + of_nat k"
  shows "numbered (es @ fs)"
  unfolding numbered_def
proof (intro allI impI)
  fix k assume k: "k < length (es @ fs)"
  show "te_sequence ((es @ fs) ! k) = of_nat k"
  proof (cases "k < length es")
    case True
    then show ?thesis using assms(1) by (simp add: numbered_def nth_append)
  next
    case False
    then have "te_sequence (fs ! (k - length es)) = of_nat (length es) + of_nat (k - length es)"
      using k assms(2) by simp
    with False show ?thesis by (simp add: nth_append flip: of_nat_add)
  qed
qed

locale recorded_ring = telemetry_ring push inv
  for push :: "TelemetryEvent \<Rightarrow> 's \<Rightarrow> (bool \<times> 's) option" and inv +
  fixes sent :: "'s \<Rightarrow> TelemetryEvent list"
  assumes push_sent: "inv q \<Longrightarrow> push e q = Some (ok, q') \<Longrightarrow> sent q' = sent q @ [e]"

text \<open>The queues of the book are what a reader of all events pushed so far has; and, for a publisher
  that alone writes to the ring, the events are numbered by its counter.\<close>

definition pub_audited :: "('q \<Rightarrow> bool) \<Rightarrow> ('q \<Rightarrow> TelemetryEvent list) \<Rightarrow> Price \<Rightarrow> Price \<Rightarrow> nat
    \<Rightarrow> ('c, 'q) TelemetryPublisher \<Rightarrow> bool" where
  "pub_audited rinv sent mn mx cap P \<longleftrightarrow> pub_in rinv mn mx cap P
     \<and> audited mn mx (sent (tp_ring P)) (\<lambda>_ _. []) (depth_of (tp_book P))"

definition pub_recorded :: "('q \<Rightarrow> bool) \<Rightarrow> ('q \<Rightarrow> TelemetryEvent list) \<Rightarrow> Price \<Rightarrow> Price \<Rightarrow> nat
    \<Rightarrow> ('c, 'q) TelemetryPublisher \<Rightarrow> bool" where
  "pub_recorded rinv sent mn mx cap P \<longleftrightarrow> pub_audited rinv sent mn mx cap P
     \<and> tp_seq P = of_nat (length (sent (tp_ring P))) \<and> numbered (sent (tp_ring P))"

lemma pub_auditedD:
  assumes "pub_audited rinv sent mn mx cap P"
  shows "pub_in rinv mn mx cap P" "book_inv (tp_book P)" "rinv (tp_ring P)" "bk_min_price (tp_book P) = mn"
    "bk_max_price (tp_book P) = mx" "slab_capacity (tp_book P) = cap"
  using assms by (simp_all add: pub_audited_def pub_in_def book_in_def)

context recorded_ring begin

lemma push_run_sent: "inv q \<Longrightarrow> push_run push es q = Some (oks, q') \<Longrightarrow> sent q' = sent q @ es"
proof (induction es arbitrary: q oks)
  case (Cons e es)
  obtain ok q1 where q1: "push e q = Some (ok, q1)" "inv q1" using push_total [OF Cons.prems(1)] by blast
  then obtain oks1 where "push_run push es q1 = Some (oks1, q')" using Cons.prems(2) by (auto split: bind_splits)
  then show ?case using Cons.IH [OF q1(2)] push_sent [OF Cons.prems(1) q1(1)] by simp
qed simp

lemma audited_step:
  assumes P: "pub_audited inv sent mn mx cap P" and run: "push_run push es (tp_ring P) = Some (oks, tp_ring P')"
    and P': "pub_in inv mn mx cap P'" and es: "audited mn mx es (depth_of (tp_book P)) (depth_of (tp_book P'))"
  shows "pub_audited inv sent mn mx cap P'" "sent (tp_ring P') = sent (tp_ring P) @ es"
proof -
  show e: "sent (tp_ring P') = sent (tp_ring P) @ es" by (rule push_run_sent [OF pub_auditedD(3) [OF P] run])
  show "pub_audited inv sent mn mx cap P'"
    using P P' audited_append [OF _ es] by (simp add: pub_audited_def e)
qed

text \<open>What an operation does to the record of its publisher.\<close>

definition records :: "('c, 's) TelemetryPublisher \<Rightarrow> ('c, 's) TelemetryPublisher \<Rightarrow> bool" where
  "records P P' \<longleftrightarrow> (\<exists>es. sent (tp_ring P') = sent (tp_ring P) @ es \<and> tp_seq P' = tp_seq P + of_nat (length es)
     \<and> (\<forall>k<length es. te_sequence (es ! k) = tp_seq P + of_nat k))"

lemma audited_add:
  assumes P: "pub_audited inv sent mn mx cap P" and q: "qty \<noteq> 0" "\<not> spec_resting i (depth_of (tp_book P))"
    and sp: "spec_add mn mx cap i side px qty (depth_of (tp_book P)) = (ok, fills, D')"
  shows "\<exists>P'. pub_AddLimit push clk i side px qty P = Some (ok, P') \<and> pub_audited inv sent mn mx cap P'
    \<and> depth_of (tp_book P') = D' \<and> records P P'
    \<and> (\<exists>es. sent (tp_ring P') = sent (tp_ring P) @ es \<and> executes i fills es)"
proof -
  note D = pub_auditedD [OF P]
  obtain es c' where es: "emit clk (tp_seq P) (tp_clock P) (add_drafts i side px qty ok fills) = (es, c')" by fastforce
  then have sq: "\<forall>k<length es. te_sequence (es ! k) = tp_seq P + of_nat k"
    using emit_sequence [OF add_drafts_sequence, of _ i side px qty ok fills clk "tp_seq P" "tp_clock P"]
    by (metis emit_length fst_conv)
  have au: "audited mn mx es (depth_of (tp_book P)) D'"
    using add_audited [OF D(2) q(2) sp, of clk "tp_seq P" "tp_clock P"] es by simp
  from pub_AddLimit_ok [OF D(2,3) q _ es] sp D(4-6) obtain oks q' b' where
    r: "push_run push es (tp_ring P) = Some (oks, q')" "inv q'" "book_inv b'" "depth_of b' = D'" "same_desk (tp_book P) b'"
      "pub_AddLimit push clk i side px qty P
        = Some (ok, P\<lparr>tp_book := b', tp_ring := q', tp_seq := tp_seq P + of_nat (length es), tp_clock := c'\<rparr>)"
    by blast
  let ?P = "P\<lparr>tp_book := b', tp_ring := q', tp_seq := tp_seq P + of_nat (length es), tp_clock := c'\<rparr>"
  have "pub_in inv mn mx cap ?P" using D(4-6) r by (simp add: pub_in_def book_in_def same_desk_def)
  from audited_step [OF P _ this, of es oks] r(1,4) au sq
  have "pub_audited inv sent mn mx cap ?P" "records P ?P" "sent q' = sent (tp_ring P) @ es" by (auto simp: records_def)
  with r(4,6) add_executes [OF sp, of clk "tp_seq P" "tp_clock P"] es show ?thesis by auto
qed

lemma audited_cancel:
  assumes P: "pub_audited inv sent mn mx cap P"
  shows "\<exists>P'. pub_Cancel push clk i P = Some (spec_resting i (depth_of (tp_book P)), P')
    \<and> pub_audited inv sent mn mx cap P' \<and> depth_of (tp_book P') = spec_cancel i (depth_of (tp_book P)) \<and> records P P'
    \<and> (\<exists>es. sent (tp_ring P') = sent (tp_ring P) @ es \<and> (\<forall>j. trades_of j es = []))"
proof -
  note D = pub_auditedD [OF P]
  from pub_Cancel_ok [OF D(2,3), of clk i] obtain P' es oks where
    r: "pub_Cancel push clk i P = Some (spec_resting i (depth_of (tp_book P)), P')"
      "book_inv (tp_book P')" "inv (tp_ring P')" "same_desk (tp_book P) (tp_book P')"
      "depth_of (tp_book P') = spec_cancel i (depth_of (tp_book P))"
      "push_run push es (tp_ring P) = Some (oks, tp_ring P')" "tp_seq P' = tp_seq P + of_nat (length es)"
    and e: "if spec_resting i (depth_of (tp_book P))
       then tp_clock P' = snd (clk (tp_clock P)) \<and> (\<exists>side px q. (i, q) \<in> set (depth_of (tp_book P) side px)
              \<and> es = [Event_Cancel (tp_seq P) (fst (clk (tp_clock P))) i side px q])
       else es = [] \<and> tp_clock P' = tp_clock P"
    by blast
  have sq: "\<forall>k<length es. te_sequence (es ! k) = tp_seq P + of_nat k"
    using e by (auto simp: Event_Cancel_def split: if_splits)
  have au: "audited mn mx es (depth_of (tp_book P)) (depth_of (tp_book P'))"
    using e cancel_audited [OF D(2)] spec_cancel_unknown D(4,5) r(5) by (auto split: if_splits)
  have "pub_in inv mn mx cap P'" using D r by (simp add: pub_in_def book_in_def same_desk_def)
  from audited_step [OF P r(6) this au] sq r(7) have "pub_audited inv sent mn mx cap P'" "records P P'"
    "sent (tp_ring P') = sent (tp_ring P) @ es" by (auto simp: records_def)
  moreover have "\<forall>j. trades_of j es = []" using e by (auto simp: trades_of_def Event_Cancel_def split: if_splits)
  ultimately show ?thesis using r(1,5) by blast
qed

text \<open>The publisher in front of a recorded ring is a gateway, with or without the numbering.\<close>

lemma audited_gateway:
  fixes clk :: "'c clock_fn"
  shows "order_gateway (pub_AddLimit push clk) (pub_Cancel push clk) (\<lambda>P. open_order_count (tp_book P))
    (\<lambda>P. depth_of (tp_book P)) (pub_audited inv sent mn mx cap) mn mx cap"
proof (rule book_keeper_gateway, goal_cases)
  case (1 P)
  then show ?case by (simp add: pub_audited_def pub_in_def)
next
  case (2 P i side px qty ok fills D')
  from audited_add [OF this, of clk] show ?case by auto
next
  case (3 P i)
  from audited_cancel [OF this, of clk i] show ?case by auto
qed

lemma records_recorded:
  "pub_recorded inv sent mn mx cap P \<Longrightarrow> records P P' \<Longrightarrow> pub_audited inv sent mn mx cap P' \<Longrightarrow>
     pub_recorded inv sent mn mx cap P'"
  using numbered_append by (auto simp: pub_recorded_def records_def)

lemma recorded_gateway:
  fixes clk :: "'c clock_fn"
  shows "order_gateway (pub_AddLimit push clk) (pub_Cancel push clk) (\<lambda>P. open_order_count (tp_book P))
    (\<lambda>P. depth_of (tp_book P)) (pub_recorded inv sent mn mx cap) mn mx cap"
proof (rule book_keeper_gateway, goal_cases)
  case (1 P)
  then show ?case by (simp add: pub_recorded_def pub_audited_def pub_in_def)
next
  case (2 P i side px qty ok fills D')
  then show ?case using audited_add [of mn mx cap P qty i side px ok fills D' clk] records_recorded [OF 2(1)]
    by (auto simp: pub_recorded_def)
next
  case (3 P i)
  then show ?case using audited_cancel [of mn mx cap P clk i] records_recorded [OF 3] by (auto simp: pub_recorded_def)
qed

end

text \<open>The ring with the relay behind it is one, for any logger and schedule, and so the publisher in
  front of it is a gateway.\<close>

context event_relay begin

lemma pipe_recorded: "recorded_ring (pipe_push sched push pop log) (pipe_inv t0 l0) er_produced"
proof (unfold_locales, goal_cases)
  case (1 S e)
  then show ?case using pipe_push_total by blast
next
  case (2 S e ok S')
  then show ?case using pipe_push_total [OF 2(1), of sched e] by simp
qed

lemma pipe_gateway:
  "order_gateway (pub_AddLimit (pipe_push sched push pop log) clk) (pub_Cancel (pipe_push sched push pop log) clk)
     (\<lambda>P. open_order_count (tp_book P)) (\<lambda>P. depth_of (tp_book P))
     (pub_recorded (pipe_inv t0 l0) er_produced mn mx slots) mn mx slots"
  by (rule recorded_ring.recorded_gateway [OF pipe_recorded])

end

text \<open>The source's ring, in front of a relay into either logger.\<close>

locale relayed_logger = event_relay TryPush TryPop items ring_inv ring_cap dropped_messages log flush tape row linv
  for log :: "TelemetryEvent \<Rightarrow> 'l \<Rightarrow> 'l" and flush and tape :: "'l \<Rightarrow> 'r list" and row linv

interpretation memory_pipe: recorded_ring "pipe_push sched TryPush TryPop InMemory_Log" "memory_relay.pipe_inv t0 l0" er_produced
  by (rule memory_relay.pipe_recorded)

interpretation ipc_pipe: recorded_ring "pipe_push sched TryPush TryPop Ipc_Log" "ipc_relay.pipe_inv t0 l0" er_produced
  by (rule ipc_relay.pipe_recorded)

interpretation memory_log: relayed_logger InMemory_Log "\<lambda>r L. Some (InMemory_Flush L)" im_rows FormatCsvRow "\<lambda>_. True"
  by unfold_locales

interpretation ipc_log: relayed_logger Ipc_Log Ipc_Flush ipc_tape ipc_row batch_inv
  by unfold_locales

end
