(* ===== verification/Relay_Schedules.thy ===== *)
theory Relay_Schedules imports Relay_Refinement Telemetry_Pipeline begin

text \<open>
  The schedules under which the drivers are verified cover the two threads. \<open>Telemetry_Pipeline\<close> lets
  the relay thread make, after each push, a number of steps that the schedule names; here every run of
  single memory accesses of \<open>Relay_Concurrent\<close> between \<^verbatim>\<open>Start\<close> and \<^verbatim>\<open>Stop\<close>, stale loads
  included, is matched by a schedule under which the same pushes get the same answers and after
  which \<^verbatim>\<open>Stop\<close> leaves the logger with the same events.
\<close>

section \<open>Runs under a schedule\<close>

definition scheduled :: "(TelemetryEvent \<Rightarrow> 'l \<Rightarrow> 'l) \<Rightarrow> (TelemetryEvent ring, 'l) EventRelay
    \<Rightarrow> (TelemetryEvent ring, 'l) EventRelay \<Rightarrow> bool" where
  "scheduled log T0 T \<longleftrightarrow>
     (\<exists>sched oks. push_run (pipe_push sched TryPush TryPop log) (er_produced T) T0 = Some (oks, T))"

lemma Run_steps_snoc:
  "Run_steps n pop log S = Some T \<Longrightarrow> Run_step pop log T = Some T' \<Longrightarrow> Run_steps (Suc n) pop log S = Some T'"
  using Run_steps_add [of n 1 pop log S] by simp

text \<open>One more step of the thread is one more step after the last push.\<close>

lemma scheduled_pop:
  assumes T0: "er_produced T0 = []" and T: "scheduled log T0 T" and ne: "er_produced T \<noteq> []"
    and st: "Run_step TryPop log T = Some T'"
  shows "scheduled log T0 T'"
proof -
  obtain sched oks where run: "push_run (pipe_push sched TryPush TryPop log) (er_produced T) T0 = Some (oks, T)"
    using T by (auto simp: scheduled_def)
  obtain es e where es: "er_produced T = es @ [e]" using ne by (metis append_butlast_last_id)
  obtain U oks1 ok where U: "push_run (pipe_push sched TryPush TryPop log) es T0 = Some (oks1, U)"
    "pipe_push sched TryPush TryPop log e U = Some (ok, T)"
    using run unfolding es push_run_append by (auto split: bind_splits)
  let ?sched = "sched(length es := Suc (sched (length es)))"
  have "push_run (pipe_push ?sched TryPush TryPop log) es T0 = Some (oks1, U)" "er_produced U = es"
    using push_run_schedule [OF U(1), of ?sched] T0 by simp_all
  moreover from this U(2) st have "pipe_push ?sched TryPush TryPop log e U = Some (ok, T')"
    by (auto simp: pipe_push_def simp del: Run_steps.simps(2) split: bind_splits dest: Run_steps_snoc)
  ultimately have "push_run (pipe_push ?sched TryPush TryPop log) (es @ [e]) T0 = Some (oks1 @ [ok], T')"
    unfolding push_run_append by simp
  moreover have "er_produced T' = es @ [e]" using run_step_produced [OF st] es by simp
  ultimately show ?thesis unfolding scheduled_def by metis
qed

lemma scheduled_push:
  assumes T0: "er_produced T0 = []" and T: "scheduled log T0 T" and st: "Produce TryPush e T = Some T'"
  shows "scheduled log T0 T'"
proof -
  obtain sched oks where run: "push_run (pipe_push sched TryPush TryPop log) (er_produced T) T0 = Some (oks, T)"
    using T by (auto simp: scheduled_def)
  let ?es = "er_produced T" let ?sched = "sched(length ?es := 0)"
  have "push_run (pipe_push ?sched TryPush TryPop log) ?es T0 = Some (oks, T)"
    using push_run_schedule [OF run, of ?sched] T0 by simp
  moreover obtain ok where "pipe_push ?sched TryPush TryPop log e T = Some (ok, T')"
    using st by (simp add: pipe_push_def)
  ultimately have "push_run (pipe_push ?sched TryPush TryPop log) (?es @ [e]) T0 = Some (oks @ [ok], T')"
    unfolding push_run_append by simp
  moreover have "er_produced T' = ?es @ [e]" using st by (auto simp: Produce_def split: bind_splits)
  ultimately show ?thesis unfolding scheduled_def by metis
qed

abbreviation started :: "u64 \<Rightarrow> TelemetryEvent \<Rightarrow> 'l \<Rightarrow> (TelemetryEvent ring, 'l) EventRelay" where
  "started C z l \<equiv> Start (EventRelay_new (SpscRing C z) l)"

lemma started_produced [simp]: "er_produced (started C z l) = []"
  by (simp add: Start_def EventRelay_new_def)

interpretation scheduled: call_runs log "scheduled log (started C z l)"
  by unfold_locales (auto intro: scheduled_pop [rotated] scheduled_push [rotated])

section \<open>The runs between Start and Stop\<close>

lemma working_scheduled:
  assumes st: "working log S S'" and S: "er_running S" "\<not> er_joining S" "fine_inv k log l S"
    and T: "explains k log l S T" "scheduled log (started C z l) T"
  shows "er_running S' \<and> \<not> er_joining S' \<and> (\<exists>T'. explains k log l S' T' \<and> scheduled log (started C z l) T')"
proof -
  have nj: "\<not> er_joining S'" and fs: "fine_step log S S'" using st by (auto simp: working_def)
  from fs show ?thesis
  proof (cases rule: fine_step.cases)
    case (fine_pop R)
    then have "er_running S'" using S(1)
      by (auto simp: after_pop_def handle_event_def split: consumer.split)
    with fine_pop explains_pop [OF T(1) S(3)] T(2) nj show ?thesis by blast
  next
    case (fine_stop_seen g)
    then have "explains k log l S' T" by (intro explains_same [OF T(1)]) (auto simp: same_calls_def)
    with fine_stop_seen S(1) T(2) nj show ?thesis by auto
  next
    case (fine_stop_unseen g)
    then have "explains k log l S' T" by (intro explains_same [OF T(1)]) (auto simp: same_calls_def)
    with fine_stop_unseen S(1) T(2) nj show ?thesis by auto
  next
    case (fine_push R)
    then have "er_running S'" using S(1) by (simp add: after_push_def)
    with scheduled.explains_push [OF T(1) S(3) T(2) S(2) fine_push(3,4)] fine_push(1) nj show ?thesis by blast
  next
    case fine_start
    with S(1) T nj show ?thesis by (auto simp: Start_def)
  next
    case fine_stop
    with S(1) nj show ?thesis by (simp add: Stop_request_def)
  next
    case fine_join
    with S(2) show ?thesis by simp
  qed
qed

lemma works_scheduled:
  assumes "rtranclp (working log) (Start (EventRelay_new (conc_init C z) l)) S" "C = 2 ^ k" "k < 64"
  shows "fine_inv k log l S \<and> er_running S \<and> \<not> er_joining S
    \<and> (\<exists>T. explains k log l S T \<and> scheduled log (started C z l) T)"
  using assms(1)
proof (induction rule: rtranclp_induct)
  case base
  let ?S = "Start (EventRelay_new (conc_init C z) l)"
  have "fine_reachable log (EventRelay_new (conc_init (2 ^ k) z) l) (Start (EventRelay_new (conc_init (2 ^ k) z) l))"
    by (rule fine_trans [OF fine_refl fine_step.fine_start]) (simp add: EventRelay_new_def)
  from fine_reachable_inv [OF this assms(3)] have "fine_inv k log l ?S" by (simp add: assms(2))
  moreover have "explains k log l ?S (started C z l)"
    using new_ring [OF assms(3), of z] assms(2)
    by (auto simp: explains_def same_calls_def waits_def popped_to_def EventRelay_new_def conc_init_def Start_def
        dropped_messages_def intro: exI [of _ False])
  moreover have "scheduled log (started C z l) (started C z l)" by (simp add: scheduled_def)
  ultimately show ?case by (auto simp: Start_def EventRelay_new_def)
next
  case (step S S')
  then obtain T where T: "explains k log l S T" "scheduled log (started C z l) T" by blast
  from step.hyps(2) have fs: "fine_step log S S'" by (simp add: working_def)
  from step.IH have S: "er_running S" "\<not> er_joining S" "fine_inv k log l S" by simp_all
  have "fine_inv k log l S'" by (rule fine_inv_step [OF fs S(3)])
  with working_scheduled [OF step.hyps(2) S T] show ?case by simp
qed

text \<open>What becomes of the pushes: those made, those accepted, the number of those dropped. The ring of
  \<open>Relay_Concurrent\<close> keeps its counter one level further down.\<close>

definition outcome :: "(TelemetryEvent conc, 'l) EventRelay \<Rightarrow> TelemetryEvent list \<times> TelemetryEvent list \<times> u64" where
  "outcome S = (er_produced S, er_accepted S, dropped_messages (cr_ring (er_ring S)))"

definition call_outcome :: "(TelemetryEvent ring, 'l) EventRelay \<Rightarrow> TelemetryEvent list \<times> TelemetryEvent list \<times> u64" where
  "call_outcome T = (er_produced T, er_accepted T, dropped_messages (er_ring T))"

text \<open>\<^verbatim>\<open>Stop\<close> at the grain of the calls, from a state that explains one in which no push is under way.\<close>

lemma explains_stop:
  assumes E: "explains k log l S T" and I: "fine_inv k log l S"
    and S: "er_running S" "\<not> er_joining S" "cr_prod (er_ring S) = PIdle"
  shows "\<exists>T'. Stop TryPop log T = Some T' \<and> call_outcome T' = outcome S \<and> er_logger T' = fold log (er_accepted S) l
    \<and> er_processed T' = of_nat (length (er_accepted S))"
proof -
  have run: "er_running T" using E S(1) by (simp add: explains_def same_calls_def)
  have "fine_inv k log l (Stop_request S)" by (rule fine_inv_step [OF fine_stop [OF S(2,3)] I])
  moreover have "explains k log l (Stop_request S) (Stop_request T)"
    using E by (fastforce simp: explains_def same_calls_def waits_def Stop_request_def popped_to_def)
  moreover have "er_running (Stop_request T)" "er_stop_requested (Stop_request T)"
    using run by (simp_all add: Stop_request_def)
  ultimately obtain n T1 where T1: "Run_steps n TryPop log (Stop_request T) = Some T1" "er_pc T1 = R_done"
    "popped_to k (length (er_accepted (Stop_request S))) log l T1" "same_calls (Stop_request S) T1"
    "dropped_messages (er_ring T1) = rg_dropped (cr_ring (er_ring (Stop_request S)))"
    by (rule_tac explains_join) auto
  have "Stop TryPop log T = Some (Stop_joined T1)"
    using run_thread_steps [OF T1(1,2)] run by (simp add: Stop_def)
  then show ?thesis using T1(3-5)
    by (auto simp: call_outcome_def outcome_def dropped_messages_def popped_to_def same_calls_def Stop_joined_def Stop_request_def)
qed

text \<open>\<^verbatim>\<open>Stop\<close> at the grain of the accesses: while its caller waits nothing is pushed, and when the
  thread has returned the logger has been handed everything.\<close>

lemma stopping_outcome:
  assumes "rtranclp (stopping log) S E" "fine_inv k log l S"
  shows "fine_inv k log l E \<and> outcome E = outcome S"
  using assms
proof (induction rule: rtranclp_induct)
  case (step E E')
  then have st: "fine_step log E E'" "er_joining E" "er_joining E'" by (simp_all add: stopping_def)
  from st have "outcome E' = outcome E"
    by (cases rule: fine_step.cases) (auto simp: outcome_def dropped_messages_def Stop_joined_def after_pop_def handle_event_def
        split: consumer.splits elim!: consumer_step_cases)
  with step fine_inv_step [OF st(1)] show ?case by simp
qed simp

lemma stopped_outcome:
  assumes E: "rtranclp (stopping log) (Stop_request S) E" "er_pc E = R_done"
    and S: "fine_inv k log l S" "\<not> er_joining S" "cr_prod (er_ring S) = PIdle"
  shows "outcome E = outcome S \<and> er_logger E = fold log (er_accepted S) l \<and> er_processed E = of_nat (length (er_accepted S))"
proof -
  have "fine_inv k log l (Stop_request S)" by (rule fine_inv_step [OF fine_stop [OF S(2,3)] S(1)])
  from stopping_outcome [OF E(1) this] have "fine_inv k log l E" "outcome E = outcome S"
    by (simp_all add: outcome_def Stop_request_def)
  with E(2) show ?thesis by (auto simp: fine_inv_def settled_def counted_def outcome_def)
qed


text \<open>So the schedules cover the two threads. Take any run of single memory accesses of the
  producer and the relay thread between \<^verbatim>\<open>Start\<close> and \<^verbatim>\<open>Stop\<close>, with every load as stale as it
  may be, up to a moment when no push is under way. There is a schedule, a number of steps of the
  thread after each push, under which the same pushes made as whole calls are accepted and dropped
  alike, and after which \<^verbatim>\<open>Stop\<close> returns with a logger that has been handed the accepted events,
  in order, and with their number in \<^verbatim>\<open>processed()\<close>.\<close>

lemma schedules_cover:
  assumes "rtranclp (working log) (Start (EventRelay_new (conc_init C z) l)) S" "capacity_ok C"
    and "cr_prod (er_ring S) = PIdle" "rtranclp (stopping log) (Stop_request S) E" "er_pc E = R_done"
  shows "\<exists>sched oks T T'.
    push_run (pipe_push sched TryPush TryPop log) (er_produced S) (Start (EventRelay_new (SpscRing C z) l)) = Some (oks, T)
    \<and> Stop TryPop log T = Some T' \<and> call_outcome T' = outcome E \<and> er_logger T' = er_logger E
    \<and> er_processed T' = er_processed E"
proof -
  obtain k where k: "C = 2 ^ k" "k < 64" using assms(2) by (rule capacity_ok_power)
  from works_scheduled [OF assms(1) k] obtain T where S: "fine_inv k log l S" "er_running S" "\<not> er_joining S"
    and T: "explains k log l S T" "scheduled log (started C z l) T" by blast
  have "er_produced T = er_produced S" using T(1) by (simp add: explains_def same_calls_def)
  with T(2) explains_stop [OF T(1) S assms(3)] stopped_outcome [OF assms(4,5) S(1,3) assms(3)] show ?thesis
    by (auto simp: scheduled_def)
qed

section \<open>Any events can be pushed\<close>

text \<open>The states of a run between \<^verbatim>\<open>Start\<close> and \<^verbatim>\<open>Stop\<close>.\<close>

definition work_reaches :: "nat \<Rightarrow> (TelemetryEvent \<Rightarrow> 'l \<Rightarrow> 'l) \<Rightarrow> 'l \<Rightarrow> 'l fine_relay \<Rightarrow> 'l fine_relay \<Rightarrow> bool" where
  "work_reaches k log l S0 S \<longleftrightarrow> rtranclp (working log) S0 S \<and> fine_inv k log l S \<and> \<not> er_joining S"

lemma push_access:
  assumes S: "work_reaches k log l S0 S" and st: "ring_step (er_ring S) R" "cr_cons R = cr_cons (er_ring S)"
  shows "work_reaches k log l S0 (after_push R S)"
proof -
  have nj: "\<not> er_joining S" "\<not> er_joining (after_push R S)"
    using S by (simp_all add: work_reaches_def after_push_def)
  note fs = fine_push [OF nj(1) st, of log]
  with nj(2) have "working log S (after_push R S)" by (simp add: working_def)
  with S fine_inv_step [OF fs] nj(2) show ?thesis
    by (auto simp: work_reaches_def intro: rtranclp.rtrancl_into_rtrancl)
qed

text \<open>The two loads of a push, then its test and its stores.\<close>

lemma push_loads:
  assumes S: "work_reaches k log l S0 S" and idle: "cr_prod (er_ring S) = PIdle"
  obtains T v w r where "work_reaches k log l S0 T" "cr_prod (er_ring T) = PGotR e w r" "er_produced T = er_produced S"
proof -
  let ?w = "rg_write_idx (cr_ring (er_ring S))" and ?n = "pv (er_ring S)"
  let ?R1 = "(er_ring S)\<lparr>cr_prod := PGotW e ?w\<rparr>"
  let ?R2 = "?R1\<lparr>cr_prod := PGotR e ?w (of_nat ?n), pv := ?n\<rparr>"
  have "?n \<le> length (popped (er_ring S))" using S by (simp add: work_reaches_def fine_inv_def conc_inv_def)
  then have "ring_step ?R1 ?R2" by (intro p_load_r) simp_all
  with push_access [OF push_access [OF S p_load_w [OF idle]], of e ?R2]
  have "work_reaches k log l S0 (after_push ?R2 (after_push ?R1 S))" by (simp add: after_push_def)
  then show ?thesis by (rule that [of _ ?w "of_nat ?n"]) (simp_all add: after_push_def idle)
qed

lemma push_whole:
  assumes S: "work_reaches k log l S0 S" and idle: "cr_prod (er_ring S) = PIdle"
  shows "\<exists>S'. work_reaches k log l S0 S' \<and> cr_prod (er_ring S') = PIdle \<and> er_produced S' = er_produced S @ [e]"
proof -
  obtain T w r where T: "work_reaches k log l S0 T" "cr_prod (er_ring T) = PGotR e w r" "er_produced T = er_produced S"
    using S idle by (rule push_loads [of k log l S0 S e])
  let ?q = "cr_ring (er_ring T)"
  show ?thesis
  proof (cases "w - r \<ge> rg_capacity ?q")
    case True
    from push_access [OF T(1) p_drop [OF T(2) True]] T show ?thesis
      by (auto simp: after_push_def intro!: exI)
  next
    case False
    have "ring_shape k ?q" using T(1) by (simp add: work_reaches_def fine_inv_def conc_inv_def)
    then have "upd_opt (rg_storage ?q) (unat (w AND kMask ?q)) e = Some ((rg_storage ?q)[unat (w AND kMask ?q) := e])"
      by (simp add: mask_slot_less)
    from push_access [OF T(1) p_store [OF T(2) False this]] obtain U where
      U: "work_reaches k log l S0 U" "cr_prod (er_ring U) = PWrote e w" "er_produced U = er_produced T"
      using T(2) by (auto simp: after_push_def)
    from push_access [OF U(1) p_publish [OF U(2)]] U(2,3) T(3) show ?thesis
      by (auto simp: after_push_def intro!: exI)
  qed
qed

lemma pushes_whole:
  assumes "work_reaches k log l S0 S" "cr_prod (er_ring S) = PIdle"
  shows "\<exists>S'. work_reaches k log l S0 S' \<and> cr_prod (er_ring S') = PIdle \<and> er_produced S' = er_produced S @ es"
  using assms
proof (induction es arbitrary: S)
  case (Cons e es)
  obtain S1 where "work_reaches k log l S0 S1" "cr_prod (er_ring S1) = PIdle" "er_produced S1 = er_produced S @ [e]"
    using push_whole [OF Cons.prems] by blast
  with Cons.IH [of S1] show ?case by auto
qed auto

lemma any_events_pushed:
  assumes "capacity_ok C"
  shows "\<exists>S. rtranclp (working log) (Start (EventRelay_new (conc_init C z) l)) S
    \<and> cr_prod (er_ring S) = PIdle \<and> er_produced S = es"
proof -
  obtain k where k: "C = 2 ^ k" "k < 64" using assms by (rule capacity_ok_power)
  let ?S = "Start (EventRelay_new (conc_init C z) l)"
  have "work_reaches k log l ?S ?S"
    using works_scheduled [OF rtranclp.rtrancl_refl k, of log l z] by (simp add: work_reaches_def)
  moreover have "cr_prod (er_ring ?S) = PIdle" "er_produced ?S = []"
    by (simp_all add: Start_def EventRelay_new_def conc_init_def)
  ultimately show ?thesis using pushes_whole [of k log l ?S ?S es] by (auto simp: work_reaches_def)
qed

text \<open>\<^verbatim>\<open>Stop\<close> can always finish.\<close>

lemma stop_finishes:
  assumes "rtranclp (working log) (Start (EventRelay_new (conc_init C z) l)) S" "capacity_ok C" "cr_prod (er_ring S) = PIdle"
  shows "\<exists>E. rtranclp (stopping log) (Stop_request S) E \<and> er_pc E = R_done"
proof -
  obtain k where k: "C = 2 ^ k" "k < 64" using assms(2) by (rule capacity_ok_power)
  from works_scheduled [OF assms(1) k] have S: "fine_inv k log l S" "er_running S" "\<not> er_joining S" by simp_all
  have "fine_inv k log l (Stop_request S)" by (rule fine_inv_step [OF fine_stop [OF S(3) assms(3)] S(1)])
  from reaches_done [OF this] S(2) show ?thesis by (auto simp: Stop_request_def)
qed

end
