(* ===== verification/Xorshift.thy ===== *)
theory Xorshift imports Prelude begin

text \<open>
  The deterministic generator that drives both workloads: class \<^verbatim>\<open>Xorshift64\<close> of
  \<^verbatim>\<open>cpp/main/sim_runner.cpp\<close> and of \<^verbatim>\<open>cpp/bindings/py_module.cpp\<close>. The
  step is the same in both; only the second replaces a zero seed.
\<close>

definition Xorshift64 :: "u64 \<Rightarrow> u64" where
  "Xorshift64 seed = seed"

definition Xorshift64_nonzero :: "u64 \<Rightarrow> u64" where
  "Xorshift64_nonzero seed = (if seed \<noteq> 0 then seed else 1)"

text \<open>\<^verbatim>\<open>Next\<close> returns the new state.\<close>

definition Next :: "u64 \<Rightarrow> u64" where
  "Next s = (let s1 = s XOR push_bit 13 s; s2 = s1 XOR drop_bit 7 s1; s3 = s2 XOR push_bit 17 s2 in s3)"

section \<open>The step is a permutation\<close>

text \<open>A word equal to a proper shift of itself is zero.\<close>

lemma push_bit_fixed:
  assumes "w = push_bit k (w :: u64)" "0 < k"
  shows "w = 0"
proof -
  have "\<not> bit w n" for n
  proof (induction n rule: less_induct)
    case (less n)
    have "bit w n \<longleftrightarrow> bit (push_bit k w) n" using assms(1) by simp
    also have "\<dots> \<longrightarrow> k \<le> n \<and> bit w (n - k)" by (simp add: bit_push_bit_iff)
    finally show ?case using less [of "n - k"] assms(2) by auto
  qed
  then show ?thesis by (simp add: bit_eq_iff)
qed

lemma drop_bit_fixed:
  assumes "w = drop_bit k (w :: u64)" "0 < k"
  shows "w = 0"
proof -
  have "n \<le> 64 \<Longrightarrow> \<not> bit w (64 - n)" for n
  proof (induction n rule: less_induct)
    case (less n)
    have "bit w (64 - n) \<longleftrightarrow> bit w (k + (64 - n))"
      using arg_cong [OF assms(1), of "\<lambda>v. bit v (64 - n)"] by (simp add: bit_drop_bit_eq)
    moreover have "\<not> bit w (k + (64 - n))"
    proof (cases "k < n")
      case True
      then have "k + (64 - n) = 64 - (n - k)" using less.prems by simp
      then show ?thesis using less.IH [of "n - k"] less.prems assms(2) by simp
    next
      case False
      then show ?thesis using bit_imp_le_length [of w "k + (64 - n)"] less.prems by auto
    qed
    ultimately show ?case by simp
  qed
  note high = this
  have "\<not> bit w m" if "m < 64" for m using high [of "64 - m"] that by simp
  then show ?thesis by (intro bit_word_eqI) simp
qed

lemma xor_cancel_iff: "(a :: u64) XOR b = c XOR d \<longleftrightarrow> a XOR c = b XOR d"
  by (auto simp: bit_eq_iff bit_xor_iff)

lemma xor_zero: "(x :: u64) XOR y = 0 \<Longrightarrow> x = y"
  by (simp add: bit_eq_iff bit_xor_iff)

lemma inj_xor_push: "0 < k \<Longrightarrow> inj (\<lambda>s :: u64. s XOR push_bit k s)"
proof (rule injI)
  fix x y :: u64 assume k: "0 < k" and e: "x XOR push_bit k x = y XOR push_bit k y"
  from e have "x XOR y = push_bit k x XOR push_bit k y" by (rule xor_cancel_iff [THEN iffD1])
  also have "\<dots> = push_bit k (x XOR y)" by (simp only: push_bit_xor)
  finally have "x XOR y = 0" using k by (rule push_bit_fixed)
  then show "x = y" by (rule xor_zero)
qed

lemma inj_xor_drop: "0 < k \<Longrightarrow> inj (\<lambda>s :: u64. s XOR drop_bit k s)"
proof (rule injI)
  fix x y :: u64 assume k: "0 < k" and e: "x XOR drop_bit k x = y XOR drop_bit k y"
  from e have "x XOR y = drop_bit k x XOR drop_bit k y" by (rule xor_cancel_iff [THEN iffD1])
  also have "\<dots> = drop_bit k (x XOR y)" by (simp only: drop_bit_xor)
  finally have "x XOR y = 0" using k by (rule drop_bit_fixed)
  then show "x = y" by (rule xor_zero)
qed

lemma inj_Next: "inj Next"
proof -
  have "Next = (\<lambda>s. s XOR push_bit 17 s) \<circ> (\<lambda>s. s XOR drop_bit 7 s) \<circ> (\<lambda>s. s XOR push_bit 13 s)"
    by (simp add: fun_eq_iff Next_def Let_def)
  moreover have "inj ((\<lambda>s :: u64. s XOR push_bit 17 s) \<circ> (\<lambda>s. s XOR drop_bit 7 s) \<circ> (\<lambda>s. s XOR push_bit 13 s))"
    by (intro inj_compose inj_xor_push inj_xor_drop) simp_all
  ultimately show ?thesis by simp
qed

lemma Next_0 [simp]: "Next 0 = 0"
  by (simp add: Next_def)

lemma inj_funpow_cancel: "inj (f :: 'a \<Rightarrow> 'a) \<Longrightarrow> (f ^^ n) x = (f ^^ n) y \<longleftrightarrow> x = y"
  using inj_eq [OF inj_fn] .

text \<open>An injection of a finite type returns to where it started.\<close>

lemma finite_orbit:
  fixes f :: "'a :: finite \<Rightarrow> 'a"
  assumes "inj f"
  shows "\<exists>p>0. (f ^^ p) x = x"
proof -
  have "\<not> inj (\<lambda>n. (f ^^ n) x)"
    using finite_imageD [of "\<lambda>n. (f ^^ n) x" UNIV] finite_subset [OF subset_UNIV] by auto
  then obtain a b where "(f ^^ a) x = (f ^^ b) x" "a \<noteq> b" by (auto simp: inj_def)
  then obtain m n where mn: "(f ^^ m) x = (f ^^ n) x" "m < n" by (cases "a < b") (metis nat_neq_iff)+
  have "(f ^^ m) ((f ^^ (n - m)) x) = (f ^^ (m + (n - m))) x" by (simp only: funpow_add comp_apply)
  also have "\<dots> = (f ^^ m) x" using mn by simp
  finally have "(f ^^ m) ((f ^^ (n - m)) x) = (f ^^ m) x" .
  then have "(f ^^ (n - m)) x = x" using inj_funpow_cancel [OF assms] by blast
  then show ?thesis using mn(2) by (intro exI [of _ "n - m"]) simp
qed

section \<open>Correctness\<close>

text \<open>The generator is a permutation of the 64-bit states. No two states have the same
  successor, every state recurs after finitely many steps, and zero is reached from zero only: with
  the zero seed, which \<^verbatim>\<open>sim_runner\<close> accepts and the environment replaces by one, it
  returns zero for ever, and with any other seed it never does.\<close>

theorem xorshift_permutation:
  "inj Next \<and> (\<exists>p>0. (Next ^^ p) s = s)
    \<and> ((Next ^^ n) (Xorshift64 seed) = 0 \<longleftrightarrow> seed = 0)
    \<and> (Next ^^ n) (Xorshift64_nonzero seed) \<noteq> 0"
proof -
  have z: "(Next ^^ n) 0 = 0" by (induction n) simp_all
  then have "(Next ^^ n) t = 0 \<longleftrightarrow> t = 0" for t using inj_funpow_cancel [OF inj_Next, of n t 0] by simp
  then show ?thesis
    using inj_Next finite_orbit [OF inj_Next, of s] by (simp add: Xorshift64_def Xorshift64_nonzero_def)
qed

end
