(* ===== verification/Sim_Config.thy ===== *)
theory Sim_Config imports Telemetry begin

text \<open>
  Start-up of \<^verbatim>\<open>cpp/main/sim_runner.cpp\<close>: the command line and the choice of
  logger. \<^verbatim>\<open>strtoull\<close> and \<^verbatim>\<open>atoi\<close> are the C library's, in the C
  locale. An exit is the left of a sum, with the status and what was written to the standard streams.
\<close>

section \<open>Numbers on the command line\<close>

definition is_space :: "char \<Rightarrow> bool" where
  "is_space c \<longleftrightarrow> of_char c \<in> {9, 10, 11, 12, 13, 32 :: nat}"

definition digit_value :: "char \<Rightarrow> nat option" where
  "digit_value c = (let n = of_char c :: nat in
     if 48 \<le> n \<and> n \<le> 57 then Some (n - 48)
     else if 97 \<le> n \<and> n \<le> 122 then Some (n - 87)
     else if 65 \<le> n \<and> n \<le> 90 then Some (n - 55) else None)"

fun scan_digits :: "nat \<Rightarrow> nat \<Rightarrow> string \<Rightarrow> nat" where
  "scan_digits base acc [] = acc"
| "scan_digits base acc (c # cs) =
     (case digit_value c of
        Some d \<Rightarrow> if d < base then scan_digits base (acc * base + d) cs else acc
      | None \<Rightarrow> acc)"

definition scan_sign :: "string \<Rightarrow> bool \<times> string" where
  "scan_sign s = (case s of
     c # cs \<Rightarrow> if c = CHR ''-'' then (True, cs) else if c = CHR ''+'' then (False, cs) else (False, s)
   | [] \<Rightarrow> (False, []))"

definition is_hex :: "char \<Rightarrow> bool" where
  "is_hex c = (case digit_value c of Some d \<Rightarrow> d < 16 | None \<Rightarrow> False)"

text \<open>Base 0 reads the base off the prefix.\<close>

definition scan_base :: "nat \<Rightarrow> string \<Rightarrow> nat \<times> string" where
  "scan_base base s =
     (if base \<noteq> 0 then (base, s)
      else case s of
        c0 # x # h # _ \<Rightarrow>
          if c0 = CHR ''0'' \<and> (x = CHR ''x'' \<or> x = CHR ''X'') \<and> is_hex h then (16, drop 2 s)
          else if c0 = CHR ''0'' then (8, s) else (10, s)
      | c0 # _ \<Rightarrow> if c0 = CHR ''0'' then (8, s) else (10, s)
      | [] \<Rightarrow> (10, s))"

text \<open>Out of range saturates; a minus sign negates modulo 2^64; no digits give 0.\<close>

definition strtoull :: "string \<Rightarrow> nat \<Rightarrow> u64" where
  "strtoull s base =
     (let (neg, s1) = scan_sign (dropWhile is_space s);
          (b, s2) = scan_base base s1;
          v = scan_digits b 0 s2
      in if v \<ge> 2 ^ 64 then - 1 else if neg then - of_nat v else of_nat v)"

text \<open>\<^verbatim>\<open>atoi\<close> out of the range of \<^verbatim>\<open>int\<close> is undefined.\<close>

definition atoi :: "string \<Rightarrow> int option" where
  "atoi s =
     (let (neg, s1) = scan_sign (dropWhile is_space s);
          v = scan_digits 10 0 s1;
          i = (if neg then - int v else int v)
      in if - (2 ^ 31) \<le> i \<and> i < 2 ^ 31 then Some i else None)"

section \<open>The command line\<close>

record Config =
  cf_host :: string
  cf_port :: int
  cf_ops :: u64
  cf_seed :: u64

definition kDefaultOps :: u64 where "kDefaultOps = 100000"

definition default_config :: Config where
  "default_config = \<lparr>cf_host = ''localhost'', cf_port = 5010, cf_ops = kDefaultOps, cf_seed = 0xC0FFEEBABE\<rparr>"

text \<open>The status of an exit, the text on \<^verbatim>\<open>std::cout\<close> and that on \<^verbatim>\<open>std::cerr\<close>.\<close>

type_synonym exit = "nat \<times> string \<times> string"

abbreviation newline :: string where "newline \<equiv> [CHR 0x0A]"

definition missing_argument :: "string \<Rightarrow> exit" where
  "missing_argument name = (2, [], ''sim_runner: --'' @ name @ '' requires an argument'' @ newline)"

definition usage :: exit where
  "usage = (0,
     ''usage: sim_runner [--host H] [--port P] [--ops N] [--seed S]'' @ newline @
     ''  --host   KDB+ ticker plant host (default: localhost)'' @ newline @
     ''  --port   KDB+ ticker plant port (default: 5010)'' @ newline @
     ''  --ops    number of book operations to drive (default: '' @ show_u64 kDefaultOps @ '')'' @ newline @
     ''  --seed   xorshift64 seed for the workload (default: 0xC0FFEEBABE)'' @ newline, [])"

definition unknown_argument :: "string \<Rightarrow> exit" where
  "unknown_argument a = (2, [], ''sim_runner: unknown argument '' @ [CHR 0x27] @ a @ [CHR 0x27] @ newline)"

fun ParseArgs_from :: "string list \<Rightarrow> Config \<Rightarrow> (exit + Config) option" where
  "ParseArgs_from [] cfg = Some (Inr cfg)"
| "ParseArgs_from (a # rest) cfg =
     (if a = ''--host'' then
        (case rest of [] \<Rightarrow> Some (Inl (missing_argument ''host''))
         | v # rest1 \<Rightarrow> ParseArgs_from rest1 (cfg\<lparr>cf_host := v\<rparr>))
      else if a = ''--port'' then
        (case rest of [] \<Rightarrow> Some (Inl (missing_argument ''port''))
         | v # rest1 \<Rightarrow> do { port \<leftarrow> atoi v; ParseArgs_from rest1 (cfg\<lparr>cf_port := port\<rparr>) })
      else if a = ''--ops'' then
        (case rest of [] \<Rightarrow> Some (Inl (missing_argument ''ops''))
         | v # rest1 \<Rightarrow> ParseArgs_from rest1 (cfg\<lparr>cf_ops := strtoull v 10\<rparr>))
      else if a = ''--seed'' then
        (case rest of [] \<Rightarrow> Some (Inl (missing_argument ''seed''))
         | v # rest1 \<Rightarrow> ParseArgs_from rest1 (cfg\<lparr>cf_seed := strtoull v 0\<rparr>))
      else if a = ''--help'' \<or> a = ''-h'' then Some (Inl usage)
      else Some (Inl (unknown_argument a)))"

definition ParseArgs :: "string list \<Rightarrow> (exit + Config) option" where
  "ParseArgs argv = ParseArgs_from (drop 1 argv) default_config"

text \<open>\<^verbatim>\<open>BuildLogger\<close> in the two builds, with its message on \<^verbatim>\<open>std::cerr\<close>.
  The dash in them is the three bytes of U+2014.\<close>

abbreviation dash :: string where "dash \<equiv> [CHR 0xE2, CHR 0x80, CHR 0x94]"

definition BuildLogger_kdb :: "(string \<Rightarrow> int \<Rightarrow> string \<Rightarrow> int) \<Rightarrow> Config \<Rightarrow> IpcKdbLogger \<times> string" where
  "BuildLogger_kdb khpu cfg =
     (let (ok, logger) = Connect khpu (IpcKdbLogger_new (cf_host cfg) (cf_port cfg) ''trade'' []);
          address = cf_host cfg @ '':'' @ show_i64 (cf_port cfg)
      in (logger,
          if \<not> ok then ''sim_runner: warning: could not connect to '' @ address @ '' '' @ dash @
             '' telemetry will batch in memory until reconnect'' @ newline
          else ''sim_runner: connected to KDB+ ticker plant at '' @ address @ newline))"

definition BuildLogger_memory :: "Config \<Rightarrow> InMemoryKdbLogger \<times> string" where
  "BuildLogger_memory cfg =
     (InMemory_new, ''sim_runner: built without OEP_USE_KDB '' @ dash @ '' using in-memory sink'' @ newline)"

section \<open>Reading back decimal numbers\<close>

lemma digit_value_digit [simp]: "d < 10 \<Longrightarrow> digit_value (char_of (48 + d :: nat)) = Some d"
  using of_char_digit [of d] by (simp add: digit_value_def Let_def)

lemma scan_digits_snoc:
  "\<forall>c\<in>set cs. \<exists>d<base. digit_value c = Some d \<Longrightarrow>
     scan_digits base acc (cs @ ds) = scan_digits base (scan_digits base acc cs) ds"
  by (induction cs arbitrary: acc) auto

lemma show_nat_digits: "\<forall>c\<in>set (show_nat n). \<exists>d<10. digit_value c = Some d"
proof
  fix c assume "c \<in> set (show_nat n)"
  then obtain k where "c = char_of k" "48 \<le> k" "k < (58 :: nat)" using digit_chars [of n] by fastforce
  then show "\<exists>d<10. digit_value c = Some d" using digit_value_digit [of "k - 48"] by (intro exI [of _ "k - 48"]) simp
qed

lemma scan_show_nat: "scan_digits 10 0 (show_nat n) = n"
proof (induction n rule: show_nat.induct)
  case (1 n)
  show ?case
  proof (cases "n < 10")
    case True
    then show ?thesis by (simp add: show_nat.simps [of n])
  next
    case False
    then show ?thesis using 1 [OF False] scan_digits_snoc [OF show_nat_digits, of 0 "n div 10"]
      by (simp add: show_nat.simps [of n])
  qed
qed

text \<open>The first digit: neither space nor sign, and not a zero unless the number is.\<close>

lemma show_nat_first:
  "\<exists>d cs. show_nat n = char_of (48 + d :: nat) # cs \<and> d < 10 \<and> (d = 0 \<longrightarrow> n = 0 \<and> cs = [])"
proof (induction n rule: show_nat.induct)
  case (1 n)
  show ?case
  proof (cases "n < 10")
    case True
    then show ?thesis by (intro exI [of _ n] exI [of _ "[]"]) (simp add: show_nat.simps [of n])
  next
    case False
    from 1 [OF this] obtain d cs where "show_nat (n div 10) = char_of (48 + d :: nat) # cs" "d < 10" "d = 0 \<longrightarrow> n div 10 = 0"
      by blast
    with False show ?thesis
      by (intro exI [of _ d] exI [of _ "cs @ [char_of (48 + n mod 10)]"]) (auto simp: show_nat.simps [of n])
  qed
qed

lemma digit_eq_iff: "d < 10 \<Longrightarrow> char_of (48 + d :: nat) = c \<longleftrightarrow> of_char c = 48 + d"
  by (metis of_char_digit of_char_eq_iff)

lemma show_nat_plain: "dropWhile is_space (show_nat n) = show_nat n" "scan_sign (show_nat n) = (False, show_nat n)"
proof -
  obtain d cs where s: "show_nat n = char_of (48 + d :: nat) # cs" "d < 10" using show_nat_first by blast
  note c = of_char_digit [OF s(2)]
  show "dropWhile is_space (show_nat n) = show_nat n" using c unfolding s(1) by (simp add: is_space_def)
  have "char_of (48 + d) \<noteq> CHR ''-''" "char_of (48 + d) \<noteq> CHR ''+''" by (simp_all add: digit_eq_iff [OF s(2)])
  then show "scan_sign (show_nat n) = (False, show_nat n)" unfolding s(1) by (simp add: scan_sign_def)
qed

lemma strtoull_decimal: "strtoull (show_u64 w) 10 = w"
proof -
  have "unat w < 2 ^ 64" using unsigned_less [of w] by simp
  then show ?thesis by (simp add: strtoull_def show_u64_def show_nat_plain scan_base_def scan_show_nat)
qed

lemma strtoull_auto: "strtoull (show_u64 w) 0 = w"
proof -
  have w: "unat w < 2 ^ 64" using unsigned_less [of w] by simp
  obtain d cs where s: "show_nat (unat w) = char_of (48 + d :: nat) # cs" "d < 10" "d = 0 \<longrightarrow> unat w = 0 \<and> cs = []"
    using show_nat_first by blast
  have c: "char_of (48 + d) = CHR ''0'' \<longleftrightarrow> d = 0" by (auto simp: digit_eq_iff [OF s(2)])
  show ?thesis
  proof (cases "d = 0")
    case True
    then have "show_nat (unat w) = ''0''" "w = 0" using s c by (auto simp: unat_eq_zero)
    then show ?thesis by (simp add: strtoull_def show_u64_def scan_sign_def is_space_def scan_base_def digit_value_def)
  next
    case False
    then have "scan_base 0 (show_nat (unat w)) = (10, show_nat (unat w))"
      using c unfolding s(1) by (auto simp: scan_base_def split: list.split)
    then show ?thesis using w by (simp add: strtoull_def show_u64_def show_nat_plain scan_show_nat)
  qed
qed

lemma atoi_decimal: "- (2 ^ 31) \<le> i \<Longrightarrow> i < 2 ^ 31 \<Longrightarrow> atoi (show_i64 i) = Some i"
proof (cases "i < 0")
  case True
  moreover have "scan_sign (dropWhile is_space (CHR ''-'' # cs)) = (True, cs)" for cs
    by (simp add: is_space_def scan_sign_def)
  moreover assume "- (2 ^ 31) \<le> i" "i < 2 ^ 31"
  ultimately show ?thesis by (simp add: atoi_def show_i64_def scan_show_nat Let_def)
next
  case False
  moreover assume "- (2 ^ 31) \<le> i" "i < 2 ^ 31"
  ultimately show ?thesis by (simp add: atoi_def show_i64_def show_nat_plain scan_show_nat Let_def)
qed

section \<open>Correctness\<close>

text \<open>The options that spell a configuration out, with each number in decimal.\<close>

definition spell :: "Config \<Rightarrow> string list" where
  "spell cfg = [''--host'', cf_host cfg, ''--port'', show_i64 (cf_port cfg), ''--ops'', show_u64 (cf_ops cfg),
     ''--seed'', show_u64 (cf_seed cfg)]"

lemma ParseArgs_spell:
  assumes "- (2 ^ 31) \<le> cf_port cfg" "cf_port cfg < 2 ^ 31"
  shows "ParseArgs_from (spell cfg @ rest) cfg0 = ParseArgs_from rest cfg"
proof -
  have "ParseArgs_from (spell cfg @ rest) cfg0 = ParseArgs_from rest
      (cfg0\<lparr>cf_host := cf_host cfg, cf_port := cf_port cfg, cf_ops := cf_ops cfg, cf_seed := cf_seed cfg\<rparr>)"
    using atoi_decimal [OF assms] by (simp add: spell_def strtoull_decimal strtoull_auto)
  also have "cfg0\<lparr>cf_host := cf_host cfg, cf_port := cf_port cfg, cf_ops := cf_ops cfg, cf_seed := cf_seed cfg\<rparr> = cfg"
    by (rule Config.equality) simp_all
  finally show ?thesis .
qed

text \<open>C39: the command line reads back. For every configuration whose port is an
  \<^verbatim>\<open>int\<close>, spelling it out and parsing gives that configuration, whatever the defaults
  (also for the seed, whose base is detected from its text); a trailing option without its argument,
  or an unknown one, exits with status 2 and an error that names it, and \<^verbatim>\<open>--help\<close>
  exits with 0 and the usage.\<close>

theorem ParseArgs_roundtrip:
  assumes "- (2 ^ 31) \<le> cf_port cfg" "cf_port cfg < 2 ^ 31"
  shows "ParseArgs (prog # spell cfg) = Some (Inr cfg)
    \<and> (a \<in> {''host'', ''port'', ''ops'', ''seed''} \<longrightarrow>
         ParseArgs (prog # spell cfg @ [''--'' @ a]) = Some (Inl (missing_argument a)))
    \<and> (a \<notin> {''--host'', ''--port'', ''--ops'', ''--seed'', ''--help'', ''-h''}
         \<longrightarrow> ParseArgs (prog # spell cfg @ a # rest) = Some (Inl (unknown_argument a)))
    \<and> ParseArgs (prog # spell cfg @ ''--help'' # rest) = Some (Inl usage)"
  using ParseArgs_spell [OF assms, of "[]"] ParseArgs_spell [OF assms] by (auto simp: ParseArgs_def)

theorem ParseArgs_roundtrip_witness:
  "ParseArgs (''sim_runner'' # spell default_config) = Some (Inr default_config)
    \<and> ParseArgs (''sim_runner'' # spell default_config @ ''--verbose'' # []) = Some (Inl (unknown_argument ''--verbose''))"
  using ParseArgs_roundtrip [of default_config "''sim_runner''" "''--verbose''" "[]"] by (simp add: default_config_def)

end
