(* ===== verification/Sim_Runner.thy ===== *)
theory Sim_Runner imports Telemetry_Pipeline Xorshift Sim_Config "HOL-Library.Multiset" begin

text \<open>
  \<^verbatim>\<open>main\<close> of \<^verbatim>\<open>cpp/main/sim_runner.cpp\<close>: the seeded workload of orders
  and cancels, and the pipeline around it. The loop body takes the operations it calls as arguments
  and is verified against \<open>order_gateway\<close>; \<open>sim_main\<close> puts in the publisher, the
  ring and the relay, and \<open>sim_runner_memory\<close> and \<open>sim_runner_kdb\<close> are the two programs
  from their command line to their exit. The elapsed time is a parameter.
\<close>

section \<open>The workload\<close>

definition kBookCapacity :: nat where "kBookCapacity = 8192"
definition kRingCapacity :: u64 where "kRingCapacity = 2 ^ 16"
definition kMinPrewarmPx :: Price where "kMinPrewarmPx = 90"
definition kMaxPrewarmPx :: Price where "kMaxPrewarmPx = 110"

record 's sim_state =
  sr_publisher :: 's
  sr_rng :: u64
  sr_resting :: "OrderId list"
  sr_next_id :: OrderId
  sr_adds :: u64
  sr_cancels :: u64

definition sim_start :: "'s \<Rightarrow> u64 \<Rightarrow> 's sim_state" where
  "sim_start pub seed = \<lparr>sr_publisher = pub, sr_rng = Xorshift64 seed, sr_resting = [], sr_next_id = 1,
     sr_adds = 0, sr_cancels = 0\<rparr>"

text \<open>\<^verbatim>\<open>victim = resting.back(); resting.pop_back(); Cancel(victim); ++cancels\<close>.\<close>

definition cancel_back :: "(OrderId \<Rightarrow> 's \<Rightarrow> (bool \<times> 's) option) \<Rightarrow> 's sim_state \<Rightarrow> 's sim_state option" where
  "cancel_back cancel S = do {
     let victim = last (sr_resting S);
     (_, pub) \<leftarrow> cancel victim (sr_publisher S);
     Some (S\<lparr>sr_publisher := pub, sr_resting := butlast (sr_resting S), sr_cancels := sr_cancels S + 1\<rparr>)
   }"

definition swap_back :: "nat \<Rightarrow> 'a list \<Rightarrow> 'a list" where
  "swap_back idx xs = xs[length xs - 1 := xs ! idx, idx := xs ! (length xs - 1)]"

definition sim_add :: "(OrderId \<Rightarrow> Side \<Rightarrow> Price \<Rightarrow> Quantity \<Rightarrow> 's \<Rightarrow> (bool \<times> 's) option) \<Rightarrow> 's sim_state
    \<Rightarrow> 's sim_state option" where
  "sim_add add S = do {
     let g1 = Next (sr_rng S);
     let buy = (g1 AND 1 \<noteq> 0);
     let side = (if buy then kBuy else kSell);
     let g2 = Next g1;
     let offset = uint (g2 mod 11) - 5;
     let px = (if buy then 99 + offset else 101 + offset);
     let g3 = Next g2;
     let qty = 1 + g3 mod 4;
     let i = sr_next_id S;
     (ok, pub) \<leftarrow> add i side px qty (sr_publisher S);
     let S1 = S\<lparr>sr_publisher := pub, sr_rng := g3, sr_next_id := i + 1\<rparr>;
     Some (if ok then S1\<lparr>sr_resting := sr_resting S1 @ [i], sr_adds := sr_adds S1 + 1\<rparr> else S1)
   }"

text \<open>One iteration. The generator advances in the first test only when something rests.\<close>

definition sim_iter :: "(OrderId \<Rightarrow> Side \<Rightarrow> Price \<Rightarrow> Quantity \<Rightarrow> 's \<Rightarrow> (bool \<times> 's) option)
    \<Rightarrow> (OrderId \<Rightarrow> 's \<Rightarrow> (bool \<times> 's) option) \<Rightarrow> ('s \<Rightarrow> nat) \<Rightarrow> 's sim_state \<Rightarrow> 's sim_state option" where
  "sim_iter add cancel n_open S0 =
     (let drawn = sr_resting S0 \<noteq> [];
          g1 = (if drawn then Next (sr_rng S0) else sr_rng S0);
          S = S0\<lparr>sr_rng := g1\<rparr>
      in if drawn \<and> g1 mod 4 = 0 then
           (let g2 = Next g1;
                idx = unat g2 mod length (sr_resting S)
            in cancel_back cancel (S\<lparr>sr_rng := g2, sr_resting := swap_back idx (sr_resting S)\<rparr>))
         else if n_open (sr_publisher S) \<ge> kBookCapacity - 4 then
           (if sr_resting S \<noteq> [] then cancel_back cancel S else Some S)
         else sim_add add S)"

definition sim_loop :: "(OrderId \<Rightarrow> Side \<Rightarrow> Price \<Rightarrow> Quantity \<Rightarrow> 's \<Rightarrow> (bool \<times> 's) option)
    \<Rightarrow> (OrderId \<Rightarrow> 's \<Rightarrow> (bool \<times> 's) option) \<Rightarrow> ('s \<Rightarrow> nat) \<Rightarrow> u64 \<Rightarrow> 's sim_state \<Rightarrow> 's sim_state option" where
  "sim_loop add cancel n_open ops S = for_range 0 (unat ops) (\<lambda>_. sim_iter add cancel n_open) S"

section \<open>The whole program\<close>

text \<open>\<^verbatim>\<open>reserve\<close> throws above \<^verbatim>\<open>max_size()\<close>, 2^60 - 1 for 8-byte
  elements; the exception is not caught.\<close>

definition reserve_ok :: "u64 \<Rightarrow> bool" where
  "reserve_ok n \<longleftrightarrow> unat n < 2 ^ 60"

text \<open>\<^verbatim>\<open>main\<close> after the command line, up to the return of \<^verbatim>\<open>Stop\<close>.\<close>

definition sim_work :: "(TelemetryEvent \<Rightarrow> 'l \<Rightarrow> 'l) \<Rightarrow> 'l \<Rightarrow> (nat \<Rightarrow> nat) \<Rightarrow> 'c clock_fn \<Rightarrow> 'c \<Rightarrow> TelemetryEvent \<Rightarrow> Config
    \<Rightarrow> ('c, (TelemetryEvent ring, 'l) EventRelay) TelemetryPublisher sim_state option" where
  "sim_work log logger sched clk c0 z cfg = do {
     let relay = Start (EventRelay_new (SpscRing kRingCapacity z) logger);
     book0 \<leftarrow> OrderBook_new (of_nat kBookCapacity) kDefaultMinPrice kDefaultMaxPrice;
     book \<leftarrow> prewarm kMinPrewarmPx kMaxPrewarmPx book0;
     let push = pipe_push sched TryPush TryPop log;
     let S0 = sim_start (TelemetryPublisher_new book relay c0) (cf_seed cfg);
     _ \<leftarrow> (if reserve_ok (cf_ops cfg + 16) then Some () else None);
     S \<leftarrow> sim_loop (pub_AddLimit push clk) (pub_Cancel push clk) (\<lambda>P. open_order_count (tp_book P)) (cf_ops cfg) S0;
     let P = sr_publisher S;
     relay1 \<leftarrow> Stop TryPop log (tp_ring P);
     Some (S\<lparr>sr_publisher := P\<lparr>tp_ring := relay1\<rparr>\<rparr>)
   }"

text \<open>All of it: the last flush, with the network's answer, and the destructors of the relay and of
  the logger.\<close>

definition sim_main :: "(TelemetryEvent \<Rightarrow> 'l \<Rightarrow> 'l) \<Rightarrow> (k_reply \<Rightarrow> 'l \<Rightarrow> 'l option) \<Rightarrow> k_reply \<Rightarrow> ('l \<Rightarrow> 'l option)
    \<Rightarrow> 'l \<Rightarrow> (nat \<Rightarrow> nat) \<Rightarrow> 'c clock_fn \<Rightarrow> 'c \<Rightarrow> TelemetryEvent \<Rightarrow> Config
    \<Rightarrow> ('c, (TelemetryEvent ring, 'l) EventRelay) TelemetryPublisher sim_state option" where
  "sim_main log flush reply destroy logger sched clk c0 z cfg = do {
     S \<leftarrow> sim_work log logger sched clk c0 z cfg;
     let P = sr_publisher S;
     let relay1 = tp_ring P;
     logger1 \<leftarrow> flush reply (er_logger relay1);
     relay2 \<leftarrow> EventRelay_destroy TryPop log (relay1\<lparr>er_logger := logger1\<rparr>);
     logger2 \<leftarrow> destroy (er_logger relay2);
     Some (S\<lparr>sr_publisher := P\<lparr>tp_ring := relay2\<lparr>er_logger := logger2\<rparr>\<rparr>\<rparr>)
   }"

text \<open>The two builds. The IPC logger's destructor flushes once more, to be answered by \<open>reply'\<close>.\<close>

definition main_memory :: "(nat \<Rightarrow> nat) \<Rightarrow> 'c clock_fn \<Rightarrow> 'c \<Rightarrow> TelemetryEvent \<Rightarrow> Config
    \<Rightarrow> ('c, (TelemetryEvent ring, InMemoryKdbLogger) EventRelay) TelemetryPublisher sim_state option" where
  "main_memory sched clk c0 z cfg =
     sim_main InMemory_Log (\<lambda>_ L. Some (InMemory_Flush L)) None Some (fst (BuildLogger_memory cfg)) sched clk c0 z cfg"

definition main_kdb :: "(string \<Rightarrow> int \<Rightarrow> string \<Rightarrow> int) \<Rightarrow> k_reply \<Rightarrow> k_reply \<Rightarrow> (nat \<Rightarrow> nat) \<Rightarrow> 'c clock_fn \<Rightarrow> 'c \<Rightarrow> TelemetryEvent
    \<Rightarrow> Config \<Rightarrow> ('c, (TelemetryEvent ring, IpcKdbLogger) EventRelay) TelemetryPublisher sim_state option" where
  "main_kdb khpu reply reply' sched clk c0 z cfg =
     sim_main Ipc_Log Ipc_Flush reply (Ipc_destroy reply') (fst (BuildLogger_kdb khpu cfg)) sched clk c0 z cfg"

text \<open>What is printed at the end, and the programs: exit status, output, and the final state if the
  workload was run.\<close>

definition summary :: "Config \<Rightarrow> int \<Rightarrow> ('c, (TelemetryEvent ring, 'l) EventRelay) TelemetryPublisher sim_state \<Rightarrow> string" where
  "summary cfg elapsed_ms S =
     (let publisher = sr_publisher S; relay = tp_ring publisher in
      ''sim_runner: ops='' @ show_u64 (cf_ops cfg) @
      '' adds='' @ show_u64 (sr_adds S) @
      '' cancels='' @ show_u64 (sr_cancels S) @
      '' events='' @ show_u64 (next_sequence publisher) @
      '' processed='' @ show_u64 (processed relay) @
      '' dropped='' @ show_u64 (dropped_messages (er_ring relay)) @
      '' elapsed_ms='' @ show_i64 elapsed_ms @ newline)"

definition sim_runner_memory :: "(nat \<Rightarrow> nat) \<Rightarrow> 'c clock_fn \<Rightarrow> 'c \<Rightarrow> TelemetryEvent \<Rightarrow> int \<Rightarrow> string list
    \<Rightarrow> (exit \<times> ('c, (TelemetryEvent ring, InMemoryKdbLogger) EventRelay) TelemetryPublisher sim_state option) option" where
  "sim_runner_memory sched clk c0 z elapsed_ms argv = do {
     parsed \<leftarrow> ParseArgs argv;
     case parsed of
       Inl e \<Rightarrow> Some (e, None)
     | Inr cfg \<Rightarrow> do {
         S \<leftarrow> main_memory sched clk c0 z cfg;
         Some ((0, summary cfg elapsed_ms S, snd (BuildLogger_memory cfg)), Some S)
       }
   }"

definition sim_runner_kdb :: "(string \<Rightarrow> int \<Rightarrow> string \<Rightarrow> int) \<Rightarrow> k_reply \<Rightarrow> k_reply \<Rightarrow> (nat \<Rightarrow> nat) \<Rightarrow> 'c clock_fn \<Rightarrow> 'c
    \<Rightarrow> TelemetryEvent \<Rightarrow> int \<Rightarrow> string list
    \<Rightarrow> (exit \<times> ('c, (TelemetryEvent ring, IpcKdbLogger) EventRelay) TelemetryPublisher sim_state option) option" where
  "sim_runner_kdb khpu reply reply' sched clk c0 z elapsed_ms argv = do {
     parsed \<leftarrow> ParseArgs argv;
     case parsed of
       Inl e \<Rightarrow> Some (e, None)
     | Inr cfg \<Rightarrow> do {
         S \<leftarrow> main_kdb khpu reply reply' sched clk c0 z cfg;
         Some ((0, summary cfg elapsed_ms S, snd (BuildLogger_kdb khpu cfg)), Some S)
       }
   }"

section \<open>The loop against the gateway\<close>

lemma swap_back_pop:
  assumes "idx < length xs"
  shows "mset xs = add_mset (last (swap_back idx xs)) (mset (butlast (swap_back idx xs)))"
proof -
  have "mset (swap_back idx xs) = mset xs" using assms by (simp add: swap_back_def mset_swap)
  moreover have "swap_back idx xs \<noteq> []" using assms by (auto simp: swap_back_def)
  then have "mset (swap_back idx xs) = mset (butlast (swap_back idx xs) @ [last (swap_back idx xs)])" by simp
  ultimately show ?thesis by simp
qed

lemma back_pop: "xs \<noteq> [] \<Longrightarrow> mset xs = add_mset (last xs) (mset (butlast xs))"
proof -
  assume "xs \<noteq> []"
  then have "mset xs = mset (butlast xs @ [last xs])" by simp
  then show ?thesis by simp
qed

text \<open>After \<open>j\<close> iterations: the ids are those handed out and not yet cancelled, every
  resting order is among them, and each iteration was one accepted order or one cancel.\<close>

definition sim_inv :: "('s \<Rightarrow> depth) \<Rightarrow> ('s \<Rightarrow> bool) \<Rightarrow> nat \<Rightarrow> 's sim_state \<Rightarrow> bool" where
  "sim_inv dp rinv j S \<longleftrightarrow> rinv (sr_publisher S) \<and> uncrossed (dp (sr_publisher S))
     \<and> distinct (sr_resting S) \<and> tracks (set (sr_resting S)) (dp (sr_publisher S))
     \<and> (\<forall>i\<in>set (sr_resting S). unat i < unat (sr_next_id S))
     \<and> unat (sr_next_id S) = unat (sr_adds S) + 1
     \<and> unat (sr_adds S) = unat (sr_cancels S) + length (sr_resting S)
     \<and> unat (sr_adds S) + unat (sr_cancels S) = j"

context order_gateway begin

lemma cancel_back_ok:
  assumes "sim_inv depth inv j S0" "j < 2 ^ 62"
    and S: "sr_publisher S = sr_publisher S0" "sr_next_id S = sr_next_id S0" "sr_adds S = sr_adds S0"
      "sr_cancels S = sr_cancels S0" "mset (sr_resting S) = mset (sr_resting S0)" "sr_resting S \<noteq> []"
  shows "\<exists>S'. cancel_back cancel S = Some S' \<and> sim_inv depth inv (Suc j) S'"
proof -
  let ?v = "last (sr_resting S)" and ?r = "butlast (sr_resting S)"
  have m: "mset (sr_resting S0) = add_mset ?v (mset ?r)" using S(5) back_pop [OF S(6)] by simp
  have r: "set (sr_resting S0) = insert ?v (set ?r)" "length (sr_resting S0) = Suc (length ?r)"
    using arg_cong [OF m, of set_mset] arg_cong [OF m, of size] by simp_all
  have d: "distinct ?r" "?v \<notin> set ?r"
    using assms(1) m mset_eq_imp_distinct_iff [of "sr_resting S0" "?v # ?r"] by (auto simp: sim_inv_def)
  obtain ok P where P: "cancel ?v (sr_publisher S0) = Some (ok, P)" "inv P" "uncrossed (depth P)"
    "tracks (set (sr_resting S0) - {?v}) (depth P)"
    using cancel_tracked [of "sr_publisher S0" "set (sr_resting S0)" ?v] assms(1) by (auto simp: sim_inv_def)
  have "set (sr_resting S0) - {?v} = set ?r" using r(1) d(2) by auto
  moreover have "unat (sr_cancels S0 + 1) = unat (sr_cancels S0) + 1"
    using assms(1,2) by (intro unat_inc) (simp add: sim_inv_def)
  ultimately show ?thesis
    using assms(1) S(1-4) P d(1) r by (auto simp: cancel_back_def sim_inv_def)
qed

lemma sim_add_ok:
  assumes "sim_inv depth inv j S" "j < 2 ^ 62" "mn \<le> 94" "106 \<le> mx" "count (sr_publisher S) < cap"
  shows "\<exists>S'. sim_add add S = Some S' \<and> sim_inv depth inv (Suc j) S'"
proof -
  let ?g1 = "Next (sr_rng S)" and ?i = "sr_next_id S"
  let ?g2 = "Next ?g1" let ?g3 = "Next ?g2"
  let ?side = "if ?g1 AND 1 \<noteq> 0 then kBuy else kSell"
  let ?px = "if ?g1 AND 1 \<noteq> 0 then 99 + (uint (?g2 mod 11) - 5) else 101 + (uint (?g2 mod 11) - 5)"
  obtain k where k: "uint (?g2 mod 11) = k" "0 \<le> k" "k < 11" by (simp add: uint_mod)
  then have px: "mn \<le> ?px" "?px \<le> mx" using assms(3,4) unfolding k(1) by auto
  have "unat (?g3 mod 4) < 4" by (simp add: unat_mod)
  then have "unat (1 + ?g3 mod 4) = 1 + unat (?g3 mod 4)" using unat_inc [of "?g3 mod 4"] by (simp add: add.commute)
  then have qty: "1 + ?g3 mod 4 \<noteq> 0" by (metis One_nat_def add_is_0 nat.distinct(1) unat_0)
  have new: "?i \<notin> set (sr_resting S)" using assms(1) by (auto simp: sim_inv_def)
  obtain P where P: "add ?i ?side ?px (1 + ?g3 mod 4) (sr_publisher S) = Some (True, P)" "inv P"
    "tracks (insert ?i (set (sr_resting S))) (depth P)" "uncrossed (depth P)"
    using add_tracked [OF _ _ new qty px assms(5), of ?side] assms(1) by (auto simp: sim_inv_def)
  have w: "unat (sr_adds S + 1) = unat (sr_adds S) + 1" "unat (?i + 1) = unat ?i + 1"
    by (rule unat_inc; use assms(1,2) in \<open>simp add: sim_inv_def\<close>)+
  have "\<forall>i\<in>set (sr_resting S @ [?i]). unat i < unat (?i + 1)" using assms(1) w(2) by (auto simp: sim_inv_def)
  then show ?thesis
    using assms(1) P w new by (simp add: sim_add_def sim_inv_def Let_def)
qed

lemma sim_iter_ok:
  assumes S: "sim_inv depth inv j S" "j < 2 ^ 62" and "mn \<le> 94" "106 \<le> mx" "kBookCapacity - 4 \<le> cap"
  shows "\<exists>S'. sim_iter add cancel count S = Some S' \<and> sim_inv depth inv (Suc j) S'"
proof -
  define g1 where "g1 = (if sr_resting S \<noteq> [] then Next (sr_rng S) else sr_rng S)"
  define c where "c \<longleftrightarrow> sr_resting S \<noteq> [] \<and> g1 mod 4 = 0"
  note iter = sim_iter_def [of add cancel count S, unfolded Let_def, folded g1_def, folded c_def]
  have I: "sim_inv depth inv j (S\<lparr>sr_rng := g\<rparr>)" for g using S(1) by (auto simp: sim_inv_def)
  consider (cancel) c
    | (evict) "\<not> c" "count (sr_publisher S) \<ge> kBookCapacity - 4"
    | (add) "\<not> c" "count (sr_publisher S) < kBookCapacity - 4"
    by linarith
  then show ?thesis
  proof cases
    case cancel
    let ?r = "sr_resting S" let ?idx = "unat (Next g1) mod length ?r"
    have "?r \<noteq> []" using cancel by (simp add: c_def)
    then have idx: "?idx < length ?r" by simp
    then have "mset (swap_back ?idx ?r) = mset ?r" "swap_back ?idx ?r \<noteq> []"
      by (auto simp: swap_back_def mset_swap)
    with cancel_back_ok [OF S, of "S\<lparr>sr_rng := Next g1, sr_resting := swap_back ?idx ?r\<rparr>"] cancel show ?thesis
      by (simp add: iter)
  next
    case evict
    have "count (sr_publisher S) \<le> card (set (sr_resting S))"
      using S(1) by (intro count_le_tracked) (auto simp: sim_inv_def)
    then have "sr_resting S \<noteq> []" using evict(2) by (auto simp: kBookCapacity_def)
    with cancel_back_ok [OF S, of "S\<lparr>sr_rng := g1\<rparr>"] evict show ?thesis
      by (simp add: iter)
  next
    case add
    then have "count (sr_publisher S) < cap" using assms(5) by simp
    with sim_add_ok [OF I S(2) assms(3,4), of g1] add show ?thesis
      by (simp add: iter)
  qed
qed

lemma sim_loop_ok:
  assumes "inv P" "depth P = (\<lambda>_ _. [])" "unat ops < 2 ^ 62" "mn \<le> 94" "106 \<le> mx" "kBookCapacity - 4 \<le> cap"
  shows "\<exists>S. sim_loop add cancel count ops (sim_start P seed) = Some S \<and> sim_inv depth inv (unat ops) S"
  unfolding sim_loop_def
proof (rule for_range_invariant [where I = "sim_inv depth inv"])
  show "sim_inv depth inv 0 (sim_start P seed)"
    using assms(1,2) by (simp add: sim_inv_def sim_start_def uncrossed_def tracks_def spec_resting_def)
next
  fix j S assume "j < unat ops" "sim_inv depth inv j S"
  then show "\<exists>S'. sim_iter add cancel count S = Some S' \<and> sim_inv depth inv (Suc j) S'"
    using assms(3-6) by (intro sim_iter_ok) auto
qed simp

end

section \<open>Correctness\<close>

text \<open>The program's start: an empty book behind a running relay.\<close>

lemma sim_setup:
  obtains b where "OrderBook_new (of_nat kBookCapacity) kDefaultMinPrice kDefaultMaxPrice = Some b"
    "prewarm kMinPrewarmPx kMaxPrewarmPx b = Some b" "depth_of b = (\<lambda>_ _. [])"
    "book_in kDefaultMinPrice kDefaultMaxPrice kBookCapacity b"
proof -
  obtain b where b: "OrderBook_new (of_nat kBookCapacity) kDefaultMinPrice kDefaultMaxPrice = Some b"
    "book_inv b" "depth_of b = (\<lambda>_ _. [])" "bk_min_price b = kDefaultMinPrice" "bk_max_price b = kDefaultMaxPrice"
    "slab_capacity b = kBookCapacity"
    using OrderBook_new_ok [of "of_nat kBookCapacity" kDefaultMinPrice kDefaultMaxPrice]
    by (auto simp: kBookCapacity_def kDefaultMinPrice_def kDefaultMaxPrice_def)
  moreover from this have "prewarm kMinPrewarmPx kMaxPrewarmPx b = Some b"
    by (intro prewarm_ok) (simp_all add: kDefaultMinPrice_def kDefaultMaxPrice_def kMinPrewarmPx_def kMaxPrewarmPx_def)
  ultimately show ?thesis using that by (simp add: book_in_def)
qed

lemma reserve_fits: "unat n + 16 < 2 ^ 60 \<Longrightarrow> reserve_ok (n + 16)"
  by (simp add: reserve_ok_def unat_word_ariths)

context relayed_logger begin

definition run_end :: "'r list \<Rightarrow> u64 \<Rightarrow> ('c, (TelemetryEvent ring, 'l) EventRelay) TelemetryPublisher sim_state \<Rightarrow> bool" where
  "run_end t0 ops S \<longleftrightarrow> (let P = sr_publisher S; R = tp_ring P in
     sim_inv book_depth (\<lambda>P. book_inv (tp_book P)) (unat ops) S
     \<and> tp_seq P = of_nat (length (er_produced R)) \<and> numbered (er_produced R)
     \<and> audited kDefaultMinPrice kDefaultMaxPrice (er_produced R) (\<lambda>_ _. []) (book_depth P)
     \<and> \<not> er_running R \<and> items (er_ring R) = [] \<and> subseq (er_accepted R) (er_produced R)
     \<and> tape (er_logger R) = t0 @ map row (er_accepted R)
     \<and> er_processed R = of_nat (length (er_accepted R))
     \<and> er_processed R + dropped_messages (er_ring R) = tp_seq P)"

lemma sim_work_run:
  assumes "unat (cf_ops cfg) + 16 < 2 ^ 60" "linv l0"
  shows "\<exists>S. sim_work log l0 sched clk c0 z cfg = Some S \<and> run_end (tape l0) (cf_ops cfg) S
    \<and> linv (er_logger (tp_ring (sr_publisher S)))"
proof -
  define push where "push = pipe_push sched TryPush TryPop log"
  define relay where "relay = Start (EventRelay_new (SpscRing kRingCapacity z) l0)"
  obtain b where b: "OrderBook_new (of_nat kBookCapacity) kDefaultMinPrice kDefaultMaxPrice = Some b"
    "prewarm kMinPrewarmPx kMaxPrewarmPx b = Some b" "depth_of b = (\<lambda>_ _. [])"
    "book_in kDefaultMinPrice kDefaultMaxPrice kBookCapacity b" by (rule sim_setup)
  define P0 where "P0 = TelemetryPublisher_new b relay c0"
  define rinv where "rinv = pipe_inv (tape l0) 0"
  note ring = new_ring [of 16 z, folded kRingCapacity_def]
  have "rinv relay" using Start_pipe [of "SpscRing kRingCapacity z" l0] ring assms(2)
    by (simp add: rinv_def relay_def)
  then have P0: "pub_recorded rinv er_produced kDefaultMinPrice kDefaultMaxPrice kBookCapacity P0" "book_depth P0 = (\<lambda>_ _. [])"
    using b by (simp_all add: P0_def TelemetryPublisher_new_def pub_recorded_def pub_audited_def pub_in_def numbered_def relay_def Start_def EventRelay_new_def)
  obtain S where S: "sim_loop (pub_AddLimit push clk) (pub_Cancel push clk) (\<lambda>P. open_order_count (tp_book P)) (cf_ops cfg)
      (sim_start P0 (cf_seed cfg)) = Some S"
    "sim_inv book_depth (pub_recorded rinv er_produced kDefaultMinPrice kDefaultMaxPrice kBookCapacity) (unat (cf_ops cfg)) S"
    using order_gateway.sim_loop_ok [OF pipe_gateway [of sched clk "tape l0" 0, folded push_def rinv_def] P0, of "cf_ops cfg" "cf_seed cfg"]
      assms(1) by (auto simp: kDefaultMinPrice_def kDefaultMaxPrice_def kBookCapacity_def)
  let ?P = "sr_publisher S"
  have P: "rinv (tp_ring ?P)" "tp_seq ?P = of_nat (length (er_produced (tp_ring ?P)))" "numbered (er_produced (tp_ring ?P))"
    "book_inv (tp_book ?P)" "audited kDefaultMinPrice kDefaultMaxPrice (er_produced (tp_ring ?P)) (\<lambda>_ _. []) (book_depth ?P)"
    using S(2) by (auto simp: sim_inv_def pub_recorded_def pub_audited_def pub_in_def book_in_def)
  obtain R where R: "Stop TryPop log (tp_ring ?P) = Some R" "\<not> er_running R" "items (er_ring R) = []"
    "er_produced R = er_produced (tp_ring ?P)" "tape (er_logger R) = tape l0 @ map row (er_accepted R)"
    "subseq (er_accepted R) (er_produced R)" "er_processed R = of_nat (length (er_accepted R))"
    "dropped_messages (er_ring R) + er_processed R = of_nat (length (er_produced R))" "linv (er_logger R)"
    using Stop_ok [OF P(1) [unfolded rinv_def]] by auto
  have "sim_work log l0 sched clk c0 z cfg = Some (S\<lparr>sr_publisher := ?P\<lparr>tp_ring := R\<rparr>\<rparr>)"
    using b(1,2) S(1) R(1) reserve_fits [OF assms(1)]
    by (simp add: sim_work_def push_def P0_def relay_def Let_def)
  moreover have "run_end (tape l0) (cf_ops cfg) (S\<lparr>sr_publisher := ?P\<lparr>tp_ring := R\<rparr>\<rparr>)"
    using S(2) P R by (auto simp: run_end_def sim_inv_def Let_def add.commute)
  ultimately show ?thesis using R(9) by auto
qed

text \<open>What comes after \<^verbatim>\<open>Stop\<close> changes the logger only.\<close>

lemma sim_main_end:
  assumes "sim_work log l0 sched clk c0 z cfg = Some S" "run_end t0 n S"
    "flush' reply (er_logger (tp_ring (sr_publisher S))) = Some l1" "destroy l1 = Some l2"
    "tape l2 = tape (er_logger (tp_ring (sr_publisher S)))"
  shows "\<exists>S'. sim_main log flush' reply destroy l0 sched clk c0 z cfg = Some S' \<and> run_end t0 n S'
    \<and> er_logger (tp_ring (sr_publisher S')) = l2"
proof -
  let ?P = "sr_publisher S"
  let ?S = "S\<lparr>sr_publisher := ?P\<lparr>tp_ring := (tp_ring ?P)\<lparr>er_logger := l2\<rparr>\<rparr>\<rparr>"
  have "sim_main log flush' reply destroy l0 sched clk c0 z cfg = Some ?S"
    using assms(1-4) by (simp add: sim_main_def run_end_def Let_def)
  moreover have "run_end t0 n ?S" using assms(2,5) by (auto simp: run_end_def sim_inv_def Let_def)
  ultimately show ?thesis by auto
qed

end

text \<open>The run in the two builds. During the work the IPC logger only logs: its connection and what it has
  sent stay as they were.\<close>

interpretation ipc_session: relayed_logger Ipc_Log "\<lambda>_. Some" ipc_tape ipc_row
    "\<lambda>L. batch_inv L \<and> ip_handle L = h \<and> ip_wire L = w"
proof (unfold_locales, goal_cases)
  case (1 L e)
  then show ?case using Ipc_Log_ok(1) by (simp add: Ipc_Log_def Let_def)
next
  case (2 L e)
  then show ?case using Ipc_Log_ok(2) by simp
qed simp

lemma main_memory_run:
  assumes "unat (cf_ops cfg) + 16 < 2 ^ 60"
  shows "\<exists>S. main_memory sched clk c0 z cfg = Some S \<and> memory_log.run_end [] (cf_ops cfg) S"
proof -
  obtain S where S: "sim_work InMemory_Log InMemory_new sched clk c0 z cfg = Some S"
    "memory_log.run_end [] (cf_ops cfg) S"
    using memory_log.sim_work_run [OF assms TrueI, of InMemory_new sched clk c0 z] by (auto simp: InMemory_new_def)
  from memory_log.sim_main_end [OF S, of "\<lambda>_ L. Some (InMemory_Flush L)" None _ Some] show ?thesis
    by (auto simp: main_memory_def BuildLogger_memory_def InMemory_Flush_def)
qed

lemma main_kdb_run:
  assumes "unat (cf_ops cfg) + 16 < 2 ^ 60"
  shows "\<exists>S. main_kdb khpu reply reply' sched clk c0 z cfg = Some S \<and> ipc_log.run_end [] (cf_ops cfg) S
    \<and> ip_handle (er_logger (tp_ring (sr_publisher S))) = 0
    \<and> (khpu (cf_host cfg) (cf_port cfg) [] > 0 \<and> reply \<noteq> Some (- 128) \<longrightarrow>
         pending_rows (er_logger (tp_ring (sr_publisher S))) = [])"
proof -
  let ?L0 = "fst (BuildLogger_kdb khpu cfg)"
  have L0: "batch_inv ?L0" "ipc_tape ?L0 = []" "ip_wire ?L0 = []"
    "ip_handle ?L0 = (let h = khpu (cf_host cfg) (cf_port cfg) [] in if h \<le> 0 then 0 else h)"
    by (simp_all add: BuildLogger_kdb_def Connect_def IpcKdbLogger_new_def batch_inv_def ipc_tape_def pending_rows_def Let_def)
  obtain S where S: "sim_work Ipc_Log ?L0 sched clk c0 z cfg = Some S" "ipc_log.run_end [] (cf_ops cfg) S"
    and L: "batch_inv (er_logger (tp_ring (sr_publisher S)))"
      "ip_handle (er_logger (tp_ring (sr_publisher S))) = ip_handle ?L0"
    using ipc_session.sim_work_run [OF assms, of ?L0 "ip_handle ?L0" "[]" sched clk c0 z] L0 by auto
  obtain l1 where l1: "Ipc_Flush reply (er_logger (tp_ring (sr_publisher S))) = Some l1" "batch_inv l1"
    "ipc_tape l1 = ipc_tape (er_logger (tp_ring (sr_publisher S)))"
    using Ipc_Flush_ok [OF L(1)] by blast
  have "ip_handle l1 \<ge> 0" using L(2) L0(4) l1(1)
    by (auto simp: Ipc_Flush_def SendBatchLocked_def ClearBatchLocked_def Let_def
        split: if_splits bind_splits option.splits)
  from Ipc_destroy_ok [OF l1(2) this, of reply'] obtain l2 where l2: "Ipc_destroy reply' l1 = Some l2"
    "ipc_tape l2 = ipc_tape l1" "ip_handle l2 = 0" "pending_rows l1 = [] \<longrightarrow> pending_rows l2 = []" by blast
  have "pending_rows l2 = []" if "khpu (cf_host cfg) (cf_port cfg) [] > 0" "reply \<noteq> Some (- 128)"
    using Ipc_Flush_delivers [OF L(1) _ that(2) l1(1)] L(2) L0(4) that(1) l2(4) by (simp add: Let_def)
  with ipc_log.sim_main_end [OF S, of Ipc_Flush reply l1 "Ipc_destroy reply'" l2] l1 l2 show ?thesis
    by (auto simp: main_kdb_def)
qed

text \<open>What the book holds is bounded by what the driver has not cancelled.\<close>

lemma sim_inv_open:
  assumes "sim_inv book_depth (\<lambda>P. book_inv (tp_book P)) j S"
  shows "open_order_count (tp_book (sr_publisher S)) + unat (sr_cancels S) \<le> unat (sr_adds S)"
proof -
  have "open_order_count (tp_book (sr_publisher S)) = card {i. spec_resting i (book_depth (sr_publisher S))}"
    using assms by (intro open_orders(2)) (simp add: sim_inv_def)
  also have "\<dots> \<le> card (set (sr_resting S))"
    using assms by (intro card_mono) (auto simp: sim_inv_def tracks_def)
  also have "\<dots> \<le> length (sr_resting S)" by (rule card_length)
  finally show ?thesis using assms by (auto simp: sim_inv_def)
qed

text \<open>C30: the program runs its whole workload. For any command line that parses and asks for fewer
  than \<open>2 ^ 60 - 16\<close> operations (what \<^verbatim>\<open>reserve\<close> admits), any seed, clock and
  interleaving with the relay thread, the program exits with status 0 and its summary: no
  call is undefined, every one of the \<^verbatim>\<open>--ops\<close> iterations is one cancel or one order, and
  every order is accepted (the eviction guard keeps a slot free, all prices are in the band), so ids
  and orders agree; the book is well formed and not crossed, and holds at most the orders added and
  not cancelled; and the printed counts balance: \<^verbatim>\<open>adds + cancels = ops\<close> and
  \<^verbatim>\<open>processed + dropped = events\<close>.\<close>

theorem sim_runs_whole_workload:
  assumes "ParseArgs argv = Some (Inr cfg)" "unat (cf_ops cfg) + 16 < 2 ^ 60"
  shows "\<exists>S P err. sim_runner_memory sched clk c0 z ms argv = Some ((0, summary cfg ms S, err), Some S)
    \<and> P = sr_publisher S
    \<and> unat (sr_adds S) + unat (sr_cancels S) = unat (cf_ops cfg)
    \<and> unat (sr_next_id S) = unat (sr_adds S) + 1
    \<and> processed (tp_ring P) + dropped_messages (er_ring (tp_ring P)) = next_sequence P
    \<and> book_inv (tp_book P) \<and> uncrossed (book_depth P)
    \<and> open_order_count (tp_book P) + unat (sr_cancels S) \<le> unat (sr_adds S)"
proof -
  obtain S where S: "main_memory sched clk c0 z cfg = Some S" "memory_log.run_end [] (cf_ops cfg) S"
    using main_memory_run [OF assms(2), of sched clk c0 z] by blast
  from S(1) have "sim_runner_memory sched clk c0 z ms argv
      = Some ((0, summary cfg ms S, snd (BuildLogger_memory cfg)), Some S)"
    by (simp add: sim_runner_memory_def assms(1))
  moreover have I: "sim_inv book_depth (\<lambda>P. book_inv (tp_book P)) (unat (cf_ops cfg)) S"
    "er_processed (tp_ring (sr_publisher S)) + dropped_messages (er_ring (tp_ring (sr_publisher S))) = tp_seq (sr_publisher S)"
    using S(2) by (auto simp: memory_log.run_end_def Let_def)
  ultimately show ?thesis
    using sim_inv_open [OF I(1)] by (auto simp: sim_inv_def processed_def next_sequence_def)
qed

theorem sim_runs_whole_workload_witness:
  "\<exists>S out err. sim_runner_memory (\<lambda>_. 2) (\<lambda>c :: u64. (c, c + 1)) 0 sample_event 12 [''sim_runner'']
       = Some ((0, out, err), Some S) \<and> take 22 out = ''sim_runner: ops=100000''
     \<and> unat (sr_adds S) + unat (sr_cancels S) = 100000"
proof -
  have p: "ParseArgs [''sim_runner''] = Some (Inr default_config)" by (simp add: ParseArgs_def)
  have "show_u64 (cf_ops default_config) = ''100000''"
    using digit_eq_iff [of 0 "CHR ''0''"] digit_eq_iff [of 1 "CHR ''1''"]
    by (simp add: default_config_def kDefaultOps_def show_u64_def show_nat.simps)
  with sim_runs_whole_workload [OF p, of "\<lambda>_. 2" "\<lambda>c :: u64. (c, c + 1)" 0 sample_event 12] show ?thesis
    by (auto simp: default_config_def kDefaultOps_def summary_def Let_def)
qed

text \<open>Above that, \<^verbatim>\<open>reserve\<close> throws (unless \<^verbatim>\<open>ops + 16\<close> wraps around) and no summary is printed.\<close>

lemma sim_reserve_throws:
  assumes "ParseArgs argv = Some (Inr cfg)" "2 ^ 60 \<le> unat (cf_ops cfg + 16)"
  shows "sim_runner_memory sched clk c0 z ms argv = None"
proof -
  have "\<not> reserve_ok (cf_ops cfg + 16)" using assms(2) by (simp add: reserve_ok_def not_less)
  then show ?thesis
    using assms(1) by (simp add: sim_runner_memory_def main_memory_def sim_main_def sim_work_def Let_def split: bind_splits)
qed

text \<open>A subsequence that misses nothing, by the machine's count, is the whole.\<close>

lemma nothing_dropped:
  assumes "subseq xs ys" "length ys < 2 ^ 64" "of_nat (length xs) = (of_nat (length ys) :: u64)"
  shows "xs = ys"
proof -
  have "length xs < 2 ^ 64" using list_emb_length [OF assms(1)] assms(2) by simp
  with assms(2,3) have "length xs = length ys"
    using arg_cong [OF assms(3), of unat] unfolding unat_of_nat by simp
  with assms(1) show ?thesis by (rule subseq_same_length)
qed

text \<open>C31: nothing published is lost unnoticed, in the \<^verbatim>\<open>OEP_USE_KDB\<close> build. Whether
  or not the connection comes up and whatever the flushes are answered, when \<^verbatim>\<open>main\<close>
  returns the relay has been joined, the ring is empty and the socket is closed; the events pushed are
  numbered \<open>0, 1, 2, \<dots>\<close>; the rows of the sends that \<open>k()\<close> did not refuse, followed by the rows still batched, are the rows of the events
  the ring accepted, each once and in order; \<^verbatim>\<open>processed + dropped = next_sequence()\<close>,
  the equation behind the printed summary; and if the ticker plant could be reached and did not answer
  the last flush with an error, every accepted event has been delivered. The run is that of a command
  line with fewer than \<open>2 ^ 60 - 16\<close> operations.\<close>

theorem sim_tape_complete:
  assumes "unat (cf_ops cfg) + 16 < 2 ^ 60"
  shows "\<exists>S P R. main_kdb khpu reply reply' sched clk c0 z cfg = Some S \<and> P = sr_publisher S \<and> R = tp_ring P
    \<and> \<not> er_running R \<and> items (er_ring R) = [] \<and> \<not> connected (er_logger R)
    \<and> (\<forall>k<length (er_produced R). te_sequence (er_produced R ! k) = of_nat k)
    \<and> subseq (er_accepted R) (er_produced R)
    \<and> delivered (ip_wire (er_logger R)) @ pending_rows (er_logger R) = map ipc_row (er_accepted R)
    \<and> er_processed R + dropped_messages (er_ring R) = next_sequence P
    \<and> next_sequence P = of_nat (length (er_produced R))
    \<and> (khpu (cf_host cfg) (cf_port cfg) [] > 0 \<and> reply \<noteq> Some (- 128) \<longrightarrow>
         delivered (ip_wire (er_logger R)) = map ipc_row (er_accepted R))"
proof -
  obtain S where S: "main_kdb khpu reply reply' sched clk c0 z cfg = Some S" "ipc_log.run_end [] (cf_ops cfg) S"
    "ip_handle (er_logger (tp_ring (sr_publisher S))) = 0"
    "khpu (cf_host cfg) (cf_port cfg) [] > 0 \<and> reply \<noteq> Some (- 128) \<longrightarrow>
       pending_rows (er_logger (tp_ring (sr_publisher S))) = []"
    using main_kdb_run [OF assms, of khpu reply reply' sched clk c0 z] by blast
  note E = S(2) [unfolded ipc_log.run_end_def Let_def numbered_def ipc_tape_def append_Nil]
  show ?thesis
    by (rule exI [of _ S], use E S(1,3,4) in \<open>elim conjE; simp add: next_sequence_def connected_def\<close>) auto
qed

theorem sim_tape_complete_witness:
  "\<exists>S R. main_kdb (\<lambda>_ _ _. 7) None None (\<lambda>_. 2) (\<lambda>c :: u64. (c, c + 1)) 0 sample_event default_config = Some S
     \<and> R = tp_ring (sr_publisher S) \<and> items (er_ring R) = []
     \<and> delivered (ip_wire (er_logger R)) = map ipc_row (er_accepted R)"
  using sim_tape_complete [of default_config "\<lambda>_ _ _. 7" None None "\<lambda>_. 2" "\<lambda>c :: u64. (c, c + 1)" 0 sample_event]
  by (auto simp: default_config_def kDefaultOps_def)

text \<open>C32: the tape is a complete audit trail. Whoever reads the events that the in-memory build
  published, and starts from empty queues, arrives at the final queues of the book, price by price and
  in time order: fills, acknowledgements and cancels say everything that happened. Every event is well
  formed (a positive quantity, a price in the band, two different orders in a fill); the sink's
  rows are a subsequence of the events, and all of them if the ring dropped none.\<close>

theorem sim_tape_replays:
  assumes "unat (cf_ops cfg) + 16 < 2 ^ 60"
  shows "\<exists>S P R es. main_memory sched clk c0 z cfg = Some S \<and> P = sr_publisher S \<and> R = tp_ring P
    \<and> es = er_produced R \<and> fold replay es (\<lambda>_ _. []) = book_depth P
    \<and> (\<forall>e\<in>set es. event_wf kDefaultMinPrice kDefaultMaxPrice e)
    \<and> subseq (im_rows (er_logger R)) (map FormatCsvRow es)
    \<and> (length es < 2 ^ 64 \<and> dropped_messages (er_ring R) = 0 \<longrightarrow> im_rows (er_logger R) = map FormatCsvRow es)"
proof -
  obtain S where S: "main_memory sched clk c0 z cfg = Some S" "memory_log.run_end [] (cf_ops cfg) S"
    using main_memory_run [OF assms, of sched clk c0 z] by blast
  let ?R = "tp_ring (sr_publisher S)"
  have R: "subseq (er_accepted ?R) (er_produced ?R)" "im_rows (er_logger ?R) = map FormatCsvRow (er_accepted ?R)"
    "of_nat (length (er_accepted ?R)) + dropped_messages (er_ring ?R) = (of_nat (length (er_produced ?R)) :: u64)"
    using S(2) by (auto simp: memory_log.run_end_def Let_def)
  have "er_accepted ?R = er_produced ?R" if "length (er_produced ?R) < 2 ^ 64" "dropped_messages (er_ring ?R) = 0"
    using nothing_dropped [OF R(1)] R(3) that by simp
  with S R show ?thesis by (auto simp: memory_log.run_end_def Let_def audited_def subseq_map)
qed

theorem sim_tape_replays_witness:
  "\<exists>S. main_memory (\<lambda>_. 2) (\<lambda>c :: u64. (c, c + 1)) 0 sample_event default_config = Some S
     \<and> fold replay (er_produced (tp_ring (sr_publisher S))) (\<lambda>_ _. []) = book_depth (sr_publisher S)"
  using sim_tape_replays [of default_config "\<lambda>_. 2" "\<lambda>c :: u64. (c, c + 1)" 0 sample_event]
  by (auto simp: default_config_def kDefaultOps_def)

end
