(* ===== verification/Fused_Handlers.thy ===== *)
theory Fused_Handlers imports Telemetry_Publisher begin

text \<open>
  The handlers are fused. \<^verbatim>\<open>AddLimit\<close> and \<^verbatim>\<open>Cancel\<close> of
  \<^verbatim>\<open>cpp/core/order_book.hpp\<close> are templates over their callback, so that a fill is
  reported from inside the matching loop. This theory relates two runs of the same call
  with different handlers: the matching, its failures and its result do not depend on the handler,
  and a fused run is the run that only collects the fills followed by a loop over them. It holds of
  every book, also of an inconsistent one.
\<close>

section \<open>Two runs with related handlers\<close>

text \<open>\<open>lockstep R h k\<close>: the handlers keep their states related.\<close>

definition lockstep :: "('s \<Rightarrow> 't \<Rightarrow> bool) \<Rightarrow> (Fill \<Rightarrow> 's \<Rightarrow> 's) \<Rightarrow> (Fill \<Rightarrow> 't \<Rightarrow> 't) \<Rightarrow> bool" where
  "lockstep R h k \<longleftrightarrow> (\<forall>f s t. R s t \<longrightarrow> R (h f s) (k f t))"

lemma lockstepD: "lockstep R h k \<Longrightarrow> R s t \<Longrightarrow> R (h f s) (k f t)"
  by (simp add: lockstep_def)

lemma lockstep_converse: "lockstep R h k \<Longrightarrow> lockstep (\<lambda>t s. R s t) k h"
  by (simp add: lockstep_def)

text \<open>\<open>meets R x y\<close>: the second run does what the first, \<open>Some x\<close>, did.\<close>

definition meets :: "('s \<Rightarrow> 't \<Rightarrow> bool) \<Rightarrow> 'a \<times> 'b \<times> 's \<Rightarrow> ('a \<times> 'b \<times> 't) option \<Rightarrow> bool" where
  "meets R x y \<longleftrightarrow> (\<exists>t. y = Some (fst x, fst (snd x), t) \<and> R (snd (snd x)) t)"

lemma meets_SomeI [intro]: "R s t \<Longrightarrow> meets R (r, b, s) (Some (r, b, t))"
  by (simp add: meets_def)

lemma meets_if:
  "(if c then x else x') = Some r \<Longrightarrow> (c \<Longrightarrow> x = Some r \<Longrightarrow> meets R r y) \<Longrightarrow> (\<not> c \<Longrightarrow> x' = Some r \<Longrightarrow> meets R r y')
   \<Longrightarrow> meets R r (if c then y else y')"
  by (simp split: if_splits)

text \<open>A step that calls no handler is the same in both runs.\<close>

lemma meets_bind:
  "Option.bind m f = Some x \<Longrightarrow> (\<And>a. f a = Some x \<Longrightarrow> meets R x (g a)) \<Longrightarrow> meets R x (Option.bind m g)"
  by (cases m) auto

lemma meets_bind_run:
  "Option.bind m f = Some x \<Longrightarrow> (\<And>r b s. m = Some (r, b, s) \<Longrightarrow> meets R (r, b, s) n)
   \<Longrightarrow> (\<And>r b s t. R s t \<Longrightarrow> f (r, b, s) = Some x \<Longrightarrow> meets R x (g (r, b, t))) \<Longrightarrow> meets R x (Option.bind n g)"
  by (cases m) (fastforce simp: meets_def)+

lemma ConsumeLevel_lockstep:
  assumes "ConsumeLevel h i ts px ls q b s = Some x" "lockstep R h k" "R s t"
  shows "meets R x (ConsumeLevel k i ts px ls q b t)"
  using assms
proof (induction h i ts px ls q b s x arbitrary: t rule: ConsumeLevel.raw_induct [rotated, consumes 1])
  case (1 CL h i ts px ls q b s x)
  note IH = 1(1) [OF _ 1(3)] and R = lockstepD [OF 1(3,4)]
  show ?case
    apply (subst ConsumeLevel.simps)
    apply (rule meets_bind [OF 1(2)])
    apply (erule meets_if)
     apply (simp only: Let_def)
     apply (erule meets_bind)+
     apply (erule IH)
     apply (rule R)
    apply (use 1(4) in auto)
    done
qed

text \<open>One round of either matching loop, whose recursive call is \<open>M\<close> in one run and \<open>N\<close> in the
  other.\<close>

lemma meets_round:
  assumes "do { (q1, b1, s1) \<leftarrow> ConsumeLevel h i ts px ls q b s;
       lvl \<leftarrow> LevelAt b1 ls px;
       b2 \<leftarrow> (if level_empty lvl then MarkLevelEmptied ls px b1 else Some b1);
       M q1 b2 s1 } = Some x" "lockstep R h k" "R s t"
    and "\<And>q1 b2 s1 t1. M q1 b2 s1 = Some x \<Longrightarrow> R s1 t1 \<Longrightarrow> meets R x (N q1 b2 t1)"
  shows "meets R x (do { (q1, b1, t1) \<leftarrow> ConsumeLevel k i ts px ls q b t;
       lvl \<leftarrow> LevelAt b1 ls px;
       b2 \<leftarrow> (if level_empty lvl then MarkLevelEmptied ls px b1 else Some b1);
       N q1 b2 t1 })"
  apply (rule meets_bind_run [OF assms(1)])
   apply (erule ConsumeLevel_lockstep [OF _ assms(2,3)])
  apply (simp only: prod.case)
  apply (erule meets_bind)+
  apply (erule assms(4), assumption)
  done

lemma MatchBuy_lockstep:
  assumes "MatchBuy h i px q b s = Some x" "lockstep R h k" "R s t"
  shows "meets R x (MatchBuy k i px q b t)"
  using assms
proof (induction h i px q b s x arbitrary: t rule: MatchBuy.raw_induct [rotated, consumes 1])
  case (1 MB h i px q b s x)
  show ?case
    apply (subst MatchBuy.simps)
    apply (rule meets_if [OF 1(2)])
     apply (simp only: Let_def)
     apply (erule meets_if)
      apply (use 1(4) in auto)[1]
     apply (erule meets_round [OF _ 1(3,4) 1(1) [OF _ 1(3)]])
      apply (use 1(4) in auto)
    done
qed

lemma MatchSell_lockstep:
  assumes "MatchSell h i px q b s = Some x" "lockstep R h k" "R s t"
  shows "meets R x (MatchSell k i px q b t)"
  using assms
proof (induction h i px q b s x arbitrary: t rule: MatchSell.raw_induct [rotated, consumes 1])
  case (1 MS h i px q b s x)
  show ?case
    apply (subst MatchSell.simps)
    apply (rule meets_if [OF 1(2)])
     apply (simp only: Let_def)
     apply (erule meets_if)
      apply (use 1(4) in auto)[1]
     apply (erule meets_round [OF _ 1(3,4) 1(1) [OF _ 1(3)]])
      apply (use 1(4) in auto)
    done
qed

lemma AddLimit_lockstep:
  assumes "AddLimit h i side px q b s = Some x" "lockstep R h k" "R s t"
  shows "meets R x (AddLimit k i side px q b t)"
proof -
  have m: "meets R y (case side of kBuy \<Rightarrow> MatchBuy k i px q b t | kSell \<Rightarrow> MatchSell k i px q b t)"
    if "(case side of kBuy \<Rightarrow> MatchBuy h i px q b s | kSell \<Rightarrow> MatchSell h i px q b s) = Some y" for y
    using that MatchBuy_lockstep [OF _ assms(2,3)] MatchSell_lockstep [OF _ assms(2,3)]
    by (cases side) auto
  show ?thesis
    unfolding AddLimit_def
    apply (rule meets_if [OF assms(1) [unfolded AddLimit_def]], simp)
    apply (erule meets_bind_run, erule m)
    apply (simp only: prod.case)
    apply (erule meets_if, fastforce)
    apply (erule meets_bind)
    apply auto
    done
qed

text \<open>The same for \<^verbatim>\<open>Cancel\<close>, whose callback takes the order's fields.\<close>

lemma Cancel_lockstep:
  assumes run: "Cancel h i b s = Some x"
    and keep: "\<And>i side px q. R (h i side px q s) (k i side px q t)" and R: "R s t"
  shows "meets R x (Cancel k i b t)"
proof -
  obtain r ix where e: "LookupAndEraseId i (bk_id_index b) = Some (r, ix)"
    using run by (auto simp: Cancel_def bind_eq_Some_conv)
  show ?thesis
  proof (cases r)
    case None
    with run e R show ?thesis by (auto simp: Cancel_def Let_def)
  next
    case (Some p)
    note run = run [unfolded Cancel_def e Some bind.simps prod.case option.case Let_def]
    show ?thesis
      unfolding Cancel_def e Some
      apply (simp only: bind.simps prod.case option.case Let_def)
      apply (rule meets_bind [OF run])
      apply (erule meets_bind)
      apply (erule meets_bind)
      apply (simp only: split_def)
      apply (erule meets_bind)+
      apply (use keep R in auto)
      done
  qed
qed

section \<open>The fused run is the buffered run\<close>

lemma meets_both:
  assumes "\<And>x. A = Some x \<Longrightarrow> meets (\<lambda>s t. s = g t) x B" "\<And>y. B = Some y \<Longrightarrow> meets (\<lambda>t s. s = g t) y A"
  shows "A = map_option (\<lambda>(ok, b, t). (ok, b, g t)) B"
proof (cases B)
  case None
  with assms(1) show ?thesis by (cases A) (auto simp: meets_def)
next
  case (Some y)
  with assms(2) show ?thesis by (auto simp: meets_def split: prod.splits)
qed

definition buffer_cancel :: "OrderId \<Rightarrow> Side \<Rightarrow> Price \<Rightarrow> Quantity \<Rightarrow> (OrderId \<times> Side \<times> Price \<times> Quantity) list
    \<Rightarrow> (OrderId \<times> Side \<times> Price \<times> Quantity) list" where
  "buffer_cancel i side px q cs = cs @ [(i, side, px, q)]"

lemma buffer_lockstep: "lockstep (\<lambda>s fs. s = fold h fs s0) h log_fill"
  by (simp add: lockstep_def log_fill_def)

text \<open>The fused call is equivalent to the reference that first runs the matching with a
  callback that only buffers its arguments and then calls the handler on the buffer in order: for
  every handler, every state and every book, consistent or not, the two give the same result, the
  same book and the same handler state, and one fails when the other does. So no handler, the
  telemetry publisher's included, can influence matching or cancellation.\<close>

lemma fused_equals_buffered:
  "AddLimit on_fill i side px q b s
     = map_option (\<lambda>(ok, b', fills). (ok, b', fold on_fill fills s)) (AddLimit log_fill i side px q b [])
   \<and> Cancel on_cancel i b s
     = map_option (\<lambda>(ok, b', cs). (ok, b', fold (\<lambda>(i, side, px, q). on_cancel i side px q) cs s))
         (Cancel buffer_cancel i b [])"
proof
  note L = buffer_lockstep [of on_fill s]
  show "AddLimit on_fill i side px q b s
     = map_option (\<lambda>(ok, b', fills). (ok, b', fold on_fill fills s)) (AddLimit log_fill i side px q b [])"
    by (rule meets_both) (auto elim: AddLimit_lockstep [OF _ L] AddLimit_lockstep [OF _ lockstep_converse [OF L]])
next
  let ?g = "\<lambda>cs. fold (\<lambda>(i, side, px, q). on_cancel i side px q) cs s"
  show "Cancel on_cancel i b s = map_option (\<lambda>(ok, b', cs). (ok, b', ?g cs)) (Cancel buffer_cancel i b [])"
    by (rule meets_both) (auto elim!: Cancel_lockstep simp: buffer_cancel_def)
qed

section \<open>The publisher only observes\<close>

text \<open>A handler that is never undefined on a good ring runs in lockstep with doing nothing.\<close>

definition good_state :: "('q \<Rightarrow> bool) \<Rightarrow> ('c, 'q) pub_state \<Rightarrow> unit \<Rightarrow> bool" where
  "good_state good st u \<longleftrightarrow> (\<exists>k q n c. st = Some (k, q, n, c) \<and> good q)"

abbreviation result_and_book :: "(bool \<times> ('c, 'q) TelemetryPublisher) option \<Rightarrow> (bool \<times> OrderBook) option" where
  "result_and_book \<equiv> map_option (\<lambda>(ok, P). (ok, tp_book P))"

abbreviation bare :: "(bool \<times> OrderBook \<times> unit) option \<Rightarrow> (bool \<times> OrderBook) option" where
  "bare \<equiv> map_option (\<lambda>(ok, b, _). (ok, b))"

lemma meets_bare:
  assumes "\<And>x. A = Some x \<Longrightarrow> meets (good_state good) x B"
    "\<And>y. B = Some y \<Longrightarrow> meets (\<lambda>u st. good_state good st u) y A"
  shows "(A = None \<and> B = None) \<or>
    (\<exists>ok b k q n c. A = Some (ok, b, Some (k, q, n, c)) \<and> good q \<and> B = Some (ok, b, ()))"
proof (cases B)
  case None
  with assms(1) show ?thesis by (cases A) (auto simp: meets_def)
next
  case (Some y)
  with assms(2) show ?thesis by (cases y) (auto simp: meets_def good_state_def)
qed

context telemetry_ring begin

lemma push_good:
  assumes "inv q"
  obtains ok q' where "push e q = Some (ok, q')" "inv q'"
  using push_total [OF assms] by blast

lemma pub_on_fill_lockstep: "lockstep (good_state inv) (pub_on_fill push (clk :: 'c clock_fn)) (\<lambda>_ _. ())"
  unfolding lockstep_def
proof (intro allI impI)
  fix f u and st :: "('c, 's) pub_state"
  assume "good_state inv st (u :: unit)"
  then obtain k q n c where st: "st = Some (k, q, n, c)" "inv q" by (auto simp: good_state_def)
  obtain ts c1 where c: "clk c = (ts, c1)" by (cases "clk c")
  from push_good [OF st(2)] obtain ok q' where "push (Event_Fill n ts f) q = Some (ok, q')" "inv q'" .
  with c show "good_state inv (pub_on_fill push clk f st) ()"
    by (simp add: st(1) pub_on_fill_def good_state_def)
qed

lemma pub_on_cancel_keeps:
  fixes clk :: "'c clock_fn"
  assumes "good_state inv st u"
  shows "good_state inv (pub_on_cancel push clk i side px r st) ()"
proof -
  from assms obtain k q n c where st: "st = Some (k, q, n, c)" "inv q" by (auto simp: good_state_def)
  obtain ts c1 where c: "clk c = (ts, c1)" by (cases "clk c")
  from push_good [OF st(2)] obtain ok q' where "push (Event_Cancel n ts i side px r) q = Some (ok, q')" "inv q'" .
  with c show ?thesis by (simp add: st(1) pub_on_cancel_def good_state_def)
qed

lemma start_good: "inv (tp_ring P) \<Longrightarrow> good_state inv (Some (0, tp_ring P, tp_seq P, tp_clock P)) ()"
  by (simp add: good_state_def)

lemma pub_AddLimit_observes:
  assumes "inv (tp_ring P)"
  shows "result_and_book (pub_AddLimit push clk i side px qty P)
    = bare (AddLimit (\<lambda>_ _. ()) i side px qty (tp_book P) ())"
proof -
  note g = start_good [OF assms] and L = pub_on_fill_lockstep [of clk]
  let ?run = "AddLimit (pub_on_fill push clk) i side px qty (tp_book P) (Some (0, tp_ring P, tp_seq P, tp_clock P))"
  let ?bare = "AddLimit (\<lambda>_ _. ()) i side px qty (tp_book P) ()"
  have M: "(?run = None \<and> ?bare = None) \<or>
    (\<exists>ok b k q n c. ?run = Some (ok, b, Some (k, q, n, c)) \<and> inv q \<and> ?bare = Some (ok, b, ()))"
    by (rule meets_bare) (erule AddLimit_lockstep [OF _ L g] AddLimit_lockstep [OF _ lockstep_converse [OF L] g])+
  show ?thesis
  proof (cases ?run)
    case None
    with M show ?thesis by (auto simp: pub_AddLimit_def)
  next
    case (Some y)
    with M obtain ok b k q n c where
      e: "?run = Some (ok, b, Some (k, q, n, c))" "inv q" "?bare = Some (ok, b, ())"
      by auto
    obtain ts c1 where c: "clk c = (ts, c1)" by (cases "clk c")
    from push_good [OF e(2)] obtain ok1 q1 where "push (Event_Ack n ts i side px (qty - k)) q = Some (ok1, q1)" "inv q1" .
    with e c show ?thesis by (simp add: pub_AddLimit_def Let_def)
  qed
qed

lemma pub_Cancel_observes:
  assumes "inv (tp_ring P)"
  shows "result_and_book (pub_Cancel push clk i P) = bare (Cancel (\<lambda>_ _ _ _ _. ()) i (tp_book P) ())"
proof -
  note g = start_good [OF assms]
  let ?run = "Cancel (pub_on_cancel push clk) i (tp_book P) (Some (0, tp_ring P, tp_seq P, tp_clock P))"
  let ?bare = "Cancel (\<lambda>_ _ _ _ _. ()) i (tp_book P) ()"
  have "(?run = None \<and> ?bare = None) \<or>
    (\<exists>ok b k q n c. ?run = Some (ok, b, Some (k, q, n, c)) \<and> inv q \<and> ?bare = Some (ok, b, ()))"
    by (rule meets_bare) (erule Cancel_lockstep; use g pub_on_cancel_keeps [OF g] in simp)+
  then show ?thesis by (auto simp: pub_Cancel_def)
qed

end

text \<open>C14: The publisher is transparent: on a well-formed ring, full or not,
  \<^verbatim>\<open>AddLimit\<close> and \<^verbatim>\<open>Cancel\<close> of the telemetry publisher are
  equivalent to the operations of the bare book with handlers that do nothing: the same answer and
  the same book, and undefined exactly where those are, for every book, consistent or not.\<close>

theorem publisher_transparent:
  assumes "ring_inv (tp_ring P)"
  shows "result_and_book (pub_AddLimit TryPush clk i side px qty P)
      = bare (AddLimit (\<lambda>_ _. ()) i side px qty (tp_book P) ())
    \<and> result_and_book (pub_Cancel TryPush clk i P) = bare (Cancel (\<lambda>_ _ _ _ _. ()) i (tp_book P) ())"
  using spsc.pub_AddLimit_observes [OF assms] spsc.pub_Cancel_observes [OF assms] by blast

theorem publisher_transparent_witness:
  "\<exists>P :: (u64, TelemetryEvent ring) TelemetryPublisher. pub_inv P
     \<and> result_and_book (pub_AddLimit TryPush (\<lambda>c. (c, c + 1)) 8 kBuy 5 4 P)
         = bare (AddLimit (\<lambda>_ _. ()) 8 kBuy 5 4 (tp_book P) ())"
proof -
  obtain P :: "(u64, TelemetryEvent ring) TelemetryPublisher" where P: "pub_inv P" using small_pub by blast
  then have "ring_inv (tp_ring P)" by (simp add: pub_inv_def)
  from publisher_transparent [OF this] P show ?thesis by blast
qed

end
