(* ===== verification/Sim_Threads.thy ===== *)
theory Sim_Threads imports Relay_Schedules Sim_Runner Fused_Handlers begin

text \<open>
  \<^verbatim>\<open>main\<close> of \<^verbatim>\<open>cpp/main/sim_runner.cpp\<close> as two threads. What the program publishes does
  not depend on the ring or on the relay thread: the run with any ring shadows the run of the
  main thread alone, with a recorder in the ring's place. Hence an execution of the two threads, one
  access to shared memory at a time, in which the main thread pushes what the program publishes, ends
  as \<open>sim_work\<close> does under some schedule.
\<close>

section \<open>A publisher shadows the recording one\<close>

text \<open>The state \<open>Q\<close> of a publisher over a ring, against \<open>P\<close> over the recorder: the ring is the first
  one, \<open>q0\<close>, after the recorded pushes.\<close>

definition shadows :: "'q pusher \<Rightarrow> 'q \<Rightarrow> ('c, TelemetryEvent list) TelemetryPublisher \<Rightarrow> ('c, 'q) TelemetryPublisher \<Rightarrow> bool" where
  "shadows push q0 P Q \<longleftrightarrow> tp_book Q = tp_book P \<and> tp_seq Q = tp_seq P \<and> tp_clock Q = tp_clock P
     \<and> (\<exists>oks. push_run push (tp_ring P) q0 = Some (oks, tp_ring Q))"

definition shadow_state :: "'q pusher \<Rightarrow> 'q \<Rightarrow> ('c, TelemetryEvent list) pub_state \<Rightarrow> ('c, 'q) pub_state \<Rightarrow> bool" where
  "shadow_state push q0 st st' \<longleftrightarrow> (\<exists>k es n c oks q. st = Some (k, es, n, c) \<and> st' = Some (k, q, n, c)
     \<and> push_run push es q0 = Some (oks, q))"

text \<open>\<open>follows V A B\<close>: where \<open>A\<close> is defined \<open>B\<close> is, with the same answer and related results.\<close>

definition follows :: "('s \<Rightarrow> 't \<Rightarrow> bool) \<Rightarrow> ('s \<Rightarrow> ('a \<times> 's) option) \<Rightarrow> ('t \<Rightarrow> ('a \<times> 't) option) \<Rightarrow> bool" where
  "follows V A B \<longleftrightarrow> (\<forall>P Q ok P'. V P Q \<longrightarrow> A P = Some (ok, P') \<longrightarrow> (\<exists>Q'. B Q = Some (ok, Q') \<and> V P' Q'))"

lemma followsD: "follows V A B \<Longrightarrow> V P Q \<Longrightarrow> A P = Some (ok, P') \<Longrightarrow> \<exists>Q'. B Q = Some (ok, Q') \<and> V P' Q'"
  by (simp add: follows_def)

context telemetry_ring begin

lemma push_run_snoc:
  assumes "inv q0" "push_run push es q0 = Some (oks, q)"
  obtains ok q' where "push e q = Some (ok, q')" "push_run push (es @ [e]) q0 = Some (oks @ [ok], q')"
proof -
  have "inv q" using push_run_total [OF assms(1), of es] assms(2) by auto
  from push_total [OF this, of e] obtain ok q' where "push e q = Some (ok, q')" by blast
  with that assms(2) show ?thesis by (simp add: push_run_append)
qed

lemma on_fill_shadow:
  fixes clk :: "'c clock_fn"
  assumes "inv q0"
  shows "lockstep (shadow_state push q0) (pub_on_fill record_event clk) (pub_on_fill push clk)"
  unfolding lockstep_def
proof (intro allI impI)
  fix f and st :: "('c, TelemetryEvent list) pub_state" and st' :: "('c, 's) pub_state"
  assume "shadow_state push q0 st st'"
  then obtain k es n c oks q where s: "st = Some (k, es, n, c)" "st' = Some (k, q, n, c)" "push_run push es q0 = Some (oks, q)"
    by (auto simp: shadow_state_def)
  obtain ts c1 where c: "clk c = (ts, c1)" by (cases "clk c")
  obtain ok q' where "push (Event_Fill n ts f) q = Some (ok, q')"
    "push_run push (es @ [Event_Fill n ts f]) q0 = Some (oks @ [ok], q')" using push_run_snoc [OF assms s(3)] .
  with s c show "shadow_state push q0 (pub_on_fill record_event clk f st) (pub_on_fill push clk f st')"
    by (auto simp: pub_on_fill_def record_event_def shadow_state_def)
qed

lemma on_cancel_shadow:
  fixes clk :: "'c clock_fn"
  assumes "inv q0" "shadow_state push q0 st st'"
  shows "shadow_state push q0 (pub_on_cancel record_event clk i side px r st) (pub_on_cancel push clk i side px r st')"
proof -
  obtain k es n c oks q where s: "st = Some (k, es, n, c)" "st' = Some (k, q, n, c)" "push_run push es q0 = Some (oks, q)"
    using assms(2) by (auto simp: shadow_state_def)
  obtain ts c1 where c: "clk c = (ts, c1)" by (cases "clk c")
  obtain ok q' where "push (Event_Cancel n ts i side px r) q = Some (ok, q')"
    "push_run push (es @ [Event_Cancel n ts i side px r]) q0 = Some (oks @ [ok], q')" using push_run_snoc [OF assms(1) s(3)] .
  with s c show ?thesis by (auto simp: pub_on_cancel_def record_event_def shadow_state_def)
qed

lemma shadow_start:
  "shadows push q0 P Q \<Longrightarrow> shadow_state push q0 (Some (0, tp_ring P, tp_seq P, tp_clock P)) (Some (0, tp_ring Q, tp_seq Q, tp_clock Q))"
  by (auto simp: shadows_def shadow_state_def)

lemma AddLimit_shadows:
  fixes clk :: "'c clock_fn"
  assumes q0: "inv q0"
  shows "follows (shadows push q0) (pub_AddLimit record_event clk i side px qty) (pub_AddLimit push clk i side px qty)"
  unfolding follows_def
proof (intro allI impI)
  fix P P' ok and Q :: "('c, 's) TelemetryPublisher"
  assume V: "shadows push q0 P Q" and run: "pub_AddLimit record_event clk i side px qty P = Some (ok, P')"
  obtain ok1 b st where a: "AddLimit (pub_on_fill record_event clk) i side px qty (tp_book P)
      (Some (0, tp_ring P, tp_seq P, tp_clock P)) = Some (ok1, b, st)"
    using run by (auto simp: pub_AddLimit_def split: bind_splits)
  from AddLimit_lockstep [OF a on_fill_shadow [OF q0] shadow_start [OF V]] obtain k es n c oks q where
    s: "st = Some (k, es, n, c)" "push_run push es q0 = Some (oks, q)"
      "AddLimit (pub_on_fill push clk) i side px qty (tp_book Q) (Some (0, tp_ring Q, tp_seq Q, tp_clock Q))
        = Some (ok1, b, Some (k, q, n, c))"
    using V by (auto simp: meets_def shadow_state_def shadows_def)
  obtain ts c1 where c: "clk c = (ts, c1)" by (cases "clk c")
  obtain ok2 q' where "push (Event_Ack n ts i side px (qty - k)) q = Some (ok2, q')"
    "push_run push (es @ [Event_Ack n ts i side px (qty - k)]) q0 = Some (oks @ [ok2], q')" using push_run_snoc [OF q0 s(2)] .
  with run a s c show "\<exists>Q'. pub_AddLimit push clk i side px qty Q = Some (ok, Q') \<and> shadows push q0 P' Q'"
    by (auto simp: pub_AddLimit_def Let_def record_event_def shadows_def split: if_splits)
qed

lemma Cancel_shadows:
  fixes clk :: "'c clock_fn"
  assumes q0: "inv q0"
  shows "follows (shadows push q0) (pub_Cancel record_event clk i) (pub_Cancel push clk i)"
  unfolding follows_def
proof (intro allI impI)
  fix P P' ok and Q :: "('c, 's) TelemetryPublisher"
  assume V: "shadows push q0 P Q" and run: "pub_Cancel record_event clk i P = Some (ok, P')"
  obtain ok1 b st where a: "Cancel (pub_on_cancel record_event clk) i (tp_book P)
      (Some (0, tp_ring P, tp_seq P, tp_clock P)) = Some (ok1, b, st)"
    using run by (auto simp: pub_Cancel_def split: bind_splits)
  from Cancel_lockstep [where R = "shadow_state push q0" and k = "pub_on_cancel push clk", OF a
      on_cancel_shadow [OF q0 shadow_start [OF V]] shadow_start [OF V]] run a V
  show "\<exists>Q'. pub_Cancel push clk i Q = Some (ok, Q') \<and> shadows push q0 P' Q'"
    by (auto simp: pub_Cancel_def meets_def shadow_state_def shadows_def)
qed

end

section \<open>The workload shadows the recording one\<close>

definition same_run :: "('s \<Rightarrow> 't \<Rightarrow> bool) \<Rightarrow> 's sim_state \<Rightarrow> 't sim_state \<Rightarrow> bool" where
  "same_run V S T \<longleftrightarrow> V (sr_publisher S) (sr_publisher T) \<and> sr_rng T = sr_rng S \<and> sr_resting T = sr_resting S
     \<and> sr_next_id T = sr_next_id S \<and> sr_adds T = sr_adds S \<and> sr_cancels T = sr_cancels S"

lemma cancel_back_related:
  assumes "cancel_back cancel S = Some S'" "same_run V S T" "\<And>i. follows V (cancel i) (cancel' i)"
  shows "\<exists>T'. cancel_back cancel' T = Some T' \<and> same_run V S' T'"
  using assms(1,2) followsD [OF assms(3), of "sr_publisher S" "sr_publisher T" "last (sr_resting S)"]
  by (fastforce simp: cancel_back_def same_run_def split: bind_splits)

lemma sim_add_related:
  assumes "sim_add add S = Some S'" "same_run V S T" "\<And>i side px qty. follows V (add i side px qty) (add' i side px qty)"
  shows "\<exists>T'. sim_add add' T = Some T' \<and> same_run V S' T'"
proof -
  let ?buy = "Next (sr_rng S) AND 1 \<noteq> 0" and ?g2 = "Next (Next (sr_rng S))"
  let ?side = "if ?buy then kBuy else kSell"
  let ?px = "if ?buy then 99 + (uint (?g2 mod 11) - 5) else 101 + (uint (?g2 mod 11) - 5)"
  let ?qty = "1 + Next ?g2 mod 4"
  obtain ok P where a: "add (sr_next_id S) ?side ?px ?qty (sr_publisher S) = Some (ok, P)"
    using assms(1) by (auto simp only: sim_add_def Let_def bind_eq_Some_conv)
  have "V (sr_publisher S) (sr_publisher T)" using assms(2) by (simp add: same_run_def)
  from followsD [OF assms(3) this a] obtain Q where
    b: "add' (sr_next_id S) ?side ?px ?qty (sr_publisher T) = Some (ok, Q)" "V P Q" by blast
  have eq: "sr_rng T = sr_rng S" "sr_next_id T = sr_next_id S" using assms(2) by (simp_all add: same_run_def)
  have "S' = (let S1 = S\<lparr>sr_publisher := P, sr_rng := Next ?g2, sr_next_id := sr_next_id S + 1\<rparr>
      in if ok then S1\<lparr>sr_resting := sr_resting S1 @ [sr_next_id S], sr_adds := sr_adds S1 + 1\<rparr> else S1)"
    using assms(1) unfolding sim_add_def Let_def a by simp
  moreover have "sim_add add' T = Some (let T1 = T\<lparr>sr_publisher := Q, sr_rng := Next ?g2, sr_next_id := sr_next_id S + 1\<rparr>
      in if ok then T1\<lparr>sr_resting := sr_resting T1 @ [sr_next_id S], sr_adds := sr_adds T1 + 1\<rparr> else T1)"
    unfolding sim_add_def Let_def eq b(1) by simp
  ultimately show ?thesis using assms(2) b(2) by (simp add: same_run_def Let_def)
qed

lemma sim_iter_related:
  assumes run: "sim_iter add cancel n S = Some S'" and R: "same_run V S T"
    and ops: "\<And>i side px qty. follows V (add i side px qty) (add' i side px qty)" "\<And>i. follows V (cancel i) (cancel' i)"
    and n: "\<And>P Q. V P Q \<Longrightarrow> n' Q = n P"
  shows "\<exists>T'. sim_iter add' cancel' n' T = Some T' \<and> same_run V S' T'"
proof -
  have eq: "sr_resting T = sr_resting S" "sr_rng T = sr_rng S" "n' (sr_publisher T) = n (sr_publisher S)"
    using R n by (auto simp: same_run_def)
  have g: "same_run V (S\<lparr>sr_rng := g\<rparr>) (T\<lparr>sr_rng := g\<rparr>)"
    "same_run V (S\<lparr>sr_rng := g, sr_resting := xs\<rparr>) (T\<lparr>sr_rng := g, sr_resting := xs\<rparr>)" for g xs
    using R by (simp_all add: same_run_def)
  note rel = cancel_back_related [OF _ g(1) ops(2)] cancel_back_related [OF _ g(2) ops(2)] sim_add_related [OF _ g(1) ops(1)]
  have s: "same_run V S (T\<lparr>sr_rng := sr_rng S\<rparr>)" using R by (simp add: same_run_def)
  show ?thesis using run g(1) s unfolding sim_iter_def Let_def
    by (simp add: eq split: if_split_asm) (use rel in auto)
qed

section \<open>The main thread alone\<close>

text \<open>What the program publishes: the workload over the recorder.\<close>

definition sim_alone :: "'c clock_fn \<Rightarrow> 'c \<Rightarrow> Config \<Rightarrow> ('c, TelemetryEvent list) TelemetryPublisher sim_state option" where
  "sim_alone clk c0 cfg = do {
     book0 \<leftarrow> OrderBook_new (of_nat kBookCapacity) kDefaultMinPrice kDefaultMaxPrice;
     book \<leftarrow> prewarm kMinPrewarmPx kMaxPrewarmPx book0;
     sim_loop (pub_AddLimit record_event clk) (pub_Cancel record_event clk) (\<lambda>P. open_order_count (tp_book P))
       (cf_ops cfg) (sim_start (TelemetryPublisher_new book [] c0) (cf_seed cfg))
   }"

abbreviation published :: "('c, TelemetryEvent list) TelemetryPublisher sim_state \<Rightarrow> TelemetryEvent list" where
  "published D \<equiv> tp_ring (sr_publisher D)"

lemma sim_alone_runs:
  assumes "unat (cf_ops cfg) + 16 < 2 ^ 60"
  shows "\<exists>D. sim_alone clk c0 cfg = Some D"
proof -
  obtain b where b: "OrderBook_new (of_nat kBookCapacity) kDefaultMinPrice kDefaultMaxPrice = Some b"
    "prewarm kMinPrewarmPx kMaxPrewarmPx b = Some b" "depth_of b = (\<lambda>_ _. [])"
    "book_in kDefaultMinPrice kDefaultMaxPrice kBookCapacity b" by (rule sim_setup)
  from b(3,4) tape_gate.sim_loop_ok [of kDefaultMinPrice kDefaultMaxPrice kBookCapacity "TelemetryPublisher_new b [] c0" "cf_ops cfg" clk "cf_seed cfg"]
  show ?thesis using assms b(1,2)
    by (auto simp: sim_alone_def pub_in_def TelemetryPublisher_new_def kDefaultMinPrice_def kDefaultMaxPrice_def)
qed

text \<open>Everything but the ring.\<close>

definition agrees :: "('c, 'q) TelemetryPublisher \<Rightarrow> ('c, 'r) TelemetryPublisher \<Rightarrow> bool" where
  "agrees P Q \<longleftrightarrow> tp_book Q = tp_book P \<and> tp_seq Q = tp_seq P \<and> tp_clock Q = tp_clock P"

lemma same_run_agrees:
  "same_run (shadows push q0) D S \<Longrightarrow> same_run agrees D (S\<lparr>sr_publisher := (sr_publisher S)\<lparr>tp_ring := R\<rparr>\<rparr>)"
  by (simp add: same_run_def shadows_def agrees_def)

context telemetry_ring begin

lemma sim_loop_shadows:
  fixes clk :: "'c clock_fn"
  assumes "inv q0" "sim_loop (pub_AddLimit record_event clk) (pub_Cancel record_event clk) (\<lambda>P. open_order_count (tp_book P))
      ops (sim_start (TelemetryPublisher_new b [] c0) seed) = Some D"
  shows "\<exists>S. sim_loop (pub_AddLimit push clk) (pub_Cancel push clk) (\<lambda>P. open_order_count (tp_book P))
      ops (sim_start (TelemetryPublisher_new b q0 c0) seed) = Some S \<and> same_run (shadows push q0) D S"
  unfolding sim_loop_def
proof (rule for_range_related [OF assms(2) [unfolded sim_loop_def]])
  show "same_run (shadows push q0) (sim_start (TelemetryPublisher_new b [] c0) seed) (sim_start (TelemetryPublisher_new b q0 c0) seed)"
    by (simp add: same_run_def sim_start_def shadows_def TelemetryPublisher_new_def)
qed (erule (1) sim_iter_related, rule AddLimit_shadows [OF assms(1)], rule Cancel_shadows [OF assms(1)], simp add: shadows_def)

end

context relayed_logger begin

text \<open>The program up to the return of \<^verbatim>\<open>Stop\<close> is the main thread alone, with its events pushed past the
  relay; what it publishes is the same under every schedule.\<close>

lemma sim_work_shadows:
  assumes D: "sim_alone clk c0 cfg = Some D" and ops: "unat (cf_ops cfg) + 16 < 2 ^ 60" and l0: "linv l0"
    and R: "push_run (pipe_push sched TryPush TryPop log) (published D) (Start (EventRelay_new (SpscRing kRingCapacity z) l0)) = Some (oks, R)"
      "Stop TryPop log R = Some R'"
  shows "\<exists>S. sim_work log l0 sched clk c0 z cfg = Some S \<and> same_run agrees D S \<and> tp_ring (sr_publisher S) = R'"
proof -
  define push where "push = pipe_push sched TryPush TryPop log"
  define relay where "relay = Start (EventRelay_new (SpscRing kRingCapacity z) l0)"
  obtain b0 b where b: "OrderBook_new (of_nat kBookCapacity) kDefaultMinPrice kDefaultMaxPrice = Some b0"
    "prewarm kMinPrewarmPx kMaxPrewarmPx b0 = Some b"
    and loop: "sim_loop (pub_AddLimit record_event clk) (pub_Cancel record_event clk) (\<lambda>P. open_order_count (tp_book P))
      (cf_ops cfg) (sim_start (TelemetryPublisher_new b [] c0) (cf_seed cfg)) = Some D"
    using D by (auto simp: sim_alone_def split: bind_splits)
  have "pipe_inv (tape l0) 0 relay"
    using Start_pipe [of "SpscRing kRingCapacity z" l0] new_ring [of 16 z, folded kRingCapacity_def] l0 by (simp add: relay_def)
  from telemetry_ring.sim_loop_shadows [OF recorded_ring.axioms(1) [OF pipe_recorded] this loop, of sched, folded push_def]
  obtain S where S: "sim_loop (pub_AddLimit push clk) (pub_Cancel push clk) (\<lambda>P. open_order_count (tp_book P))
      (cf_ops cfg) (sim_start (TelemetryPublisher_new b relay c0) (cf_seed cfg)) = Some S" "same_run (shadows push relay) D S"
    by blast
  have "tp_ring (sr_publisher S) = R" using S(2) R(1) by (auto simp: same_run_def shadows_def push_def relay_def)
  then have "sim_work log l0 sched clk c0 z cfg = Some (S\<lparr>sr_publisher := (sr_publisher S)\<lparr>tp_ring := R'\<rparr>\<rparr>)"
    using b S(1) R(2) reserve_fits [OF ops] by (simp add: sim_work_def push_def relay_def Let_def)
  with same_run_agrees [OF S(2)] show ?thesis by auto
qed

end

section \<open>Correctness\<close>

lemma Stop_stopped: "Stop pop log S = Some S' \<Longrightarrow> \<not> er_running S'"
  by (auto simp: Stop_def Stop_joined_def split: if_splits bind_splits)

lemma main_memory_after_work:
  assumes "sim_work InMemory_Log InMemory_new sched clk c0 z cfg = Some S" "tp_ring (sr_publisher S) = R" "\<not> er_running R"
  shows "main_memory sched clk c0 z cfg
    = Some (S\<lparr>sr_publisher := (sr_publisher S)\<lparr>tp_ring := R\<lparr>er_logger := InMemory_Flush (er_logger R)\<rparr>\<rparr>\<rparr>)"
  using assms by (simp add: main_memory_def sim_main_def BuildLogger_memory_def Let_def)

text \<open>C33: the whole program as two threads. Take an execution of the main thread and the relay
  thread, one access to shared memory at a time and with loads as stale as they may be, in which the
  main thread pushes what the program publishes (\<open>sim_alone\<close>, its run without the other thread)
  and then waits in \<^verbatim>\<open>Stop\<close> until the relay thread has returned. Under some schedule
  \<^verbatim>\<open>main\<close>, as it is modelled here, ends in the same way: the same final book, generator and
  counters, the same events published, accepted and dropped, the same rows in the logger and the same
  \<^verbatim>\<open>processed()\<close>. So what is proved of \<^verbatim>\<open>main\<close> under every schedule is true of the two
  threads.\<close>

theorem program_threads_covered:
  assumes "unat (cf_ops cfg) + 16 < 2 ^ 60" "sim_alone clk c0 cfg = Some D"
    and "rtranclp (working InMemory_Log) (Start (EventRelay_new (conc_init kRingCapacity z) InMemory_new)) S"
    and "cr_prod (er_ring S) = PIdle" "er_produced S = published D"
    and "rtranclp (stopping InMemory_Log) (Stop_request S) E" "er_pc E = R_done"
  shows "\<exists>sched T R. main_memory sched clk c0 z cfg = Some T \<and> R = tp_ring (sr_publisher T) \<and> same_run agrees D T
    \<and> call_outcome R = outcome E \<and> er_logger R = InMemory_Flush (er_logger E) \<and> er_processed R = er_processed E"
proof -
  have cap: "capacity_ok kRingCapacity" by (simp add: capacity_ok_def kRingCapacity_def)
  obtain sched oks R R' where R:
    "push_run (pipe_push sched TryPush TryPop InMemory_Log) (published D) (Start (EventRelay_new (SpscRing kRingCapacity z) InMemory_new)) = Some (oks, R)"
    "Stop TryPop InMemory_Log R = Some R'" "call_outcome R' = outcome E" "er_logger R' = er_logger E"
    "er_processed R' = er_processed E"
    using schedules_cover [OF assms(3) cap assms(4,6,7)] assms(5) by auto
  obtain T where T: "sim_work InMemory_Log InMemory_new sched clk c0 z cfg = Some T" "same_run agrees D T"
    "tp_ring (sr_publisher T) = R'"
    using memory_log.sim_work_shadows [OF assms(2,1) TrueI R(1,2)] by blast
  let ?R = "R'\<lparr>er_logger := InMemory_Flush (er_logger R')\<rparr>"
  have "call_outcome ?R = outcome E" "er_logger ?R = InMemory_Flush (er_logger E)" "er_processed ?R = er_processed E"
    using R(3-5) by (simp_all add: call_outcome_def)
  moreover let ?T = "T\<lparr>sr_publisher := (sr_publisher T)\<lparr>tp_ring := ?R\<rparr>\<rparr>"
  have "same_run agrees D ?T" using T(2) by (simp add: same_run_def agrees_def)
  moreover have "main_memory sched clk c0 z cfg = Some ?T" by (rule main_memory_after_work [OF T(1,3) Stop_stopped [OF R(2)]])
  ultimately show ?thesis by (intro exI [of _ sched] exI [of _ ?T] exI [of _ ?R]) simp
qed

theorem program_threads_covered_witness:
  "\<exists>D S E sched T. sim_alone (\<lambda>c :: u64. (c, c + 1)) 0 default_config = Some D
     \<and> rtranclp (working InMemory_Log) (Start (EventRelay_new (conc_init kRingCapacity sample_event) InMemory_new)) S
     \<and> er_produced S = published D \<and> rtranclp (stopping InMemory_Log) (Stop_request S) E \<and> er_pc E = R_done
     \<and> main_memory sched (\<lambda>c :: u64. (c, c + 1)) 0 sample_event default_config = Some T
     \<and> call_outcome (tp_ring (sr_publisher T)) = outcome E"
proof -
  have ops: "unat (cf_ops default_config) + 16 < 2 ^ 60" by (simp add: default_config_def kDefaultOps_def)
  have cap: "capacity_ok kRingCapacity" by (simp add: capacity_ok_def kRingCapacity_def)
  obtain D where D: "sim_alone (\<lambda>c :: u64. (c, c + 1)) 0 default_config = Some D"
    using sim_alone_runs [OF ops, of "\<lambda>c :: u64. (c, c + 1)" 0] ..
  obtain S where S: "rtranclp (working InMemory_Log) (Start (EventRelay_new (conc_init kRingCapacity sample_event) InMemory_new)) S"
    "cr_prod (er_ring S) = PIdle" "er_produced S = published D"
    using any_events_pushed [OF cap, of InMemory_Log sample_event InMemory_new "published D"] by (elim exE conjE) (rule that)
  obtain E where E: "rtranclp (stopping InMemory_Log) (Stop_request S) E" "er_pc E = R_done"
    using stop_finishes [OF S(1) cap S(2)] by blast
  from program_threads_covered [OF ops D S E] D S E show ?thesis by blast
qed

end
