(* ===== verification/Floating.thy ===== *)
theory Floating imports Prelude Complex_Main begin

text \<open>
  Floating point as the strategies and the environment use it. The hardware's \<^verbatim>\<open>float\<close>
  (\<open>'f\<close>) and \<^verbatim>\<open>double\<close> (\<open>'d\<close>), and the library's
  \<^verbatim>\<open>sqrt\<close>, \<^verbatim>\<open>sinh\<close> and \<^verbatim>\<open>llround\<close>, are the fields
  of a record that every definition using them takes as its argument: nothing is assumed of them
  unless a theorem says so. \<^verbatim>\<open>llround\<close> returns a \<^verbatim>\<open>long long\<close>, here its 64 bits;
  its value is unspecified where the rounded number is outside \<open>[- 2 ^ 63, 2 ^ 63)\<close>. A theorem over an arbitrary record therefore holds for any rounding
  mode, for overflow to infinity and for NaN (whose comparisons are all false). Conversions to
  integers that the language leaves undefined out of range return an option. \<open>exact\<close> is
  the instance that computes in the reals; theorems on the accuracy of a schedule use it.
\<close>

section \<open>The operations used\<close>

record ('f, 'd) fpu =
  d_lit :: "rat \<Rightarrow> 'd"
  d_of_u64 :: "u64 \<Rightarrow> 'd"
  d_of_s64 :: "int \<Rightarrow> 'd"
  d_of_f :: "'f \<Rightarrow> 'd"
  d_add :: "'d \<Rightarrow> 'd \<Rightarrow> 'd"
  d_sub :: "'d \<Rightarrow> 'd \<Rightarrow> 'd"
  d_mul :: "'d \<Rightarrow> 'd \<Rightarrow> 'd"
  d_div :: "'d \<Rightarrow> 'd \<Rightarrow> 'd"
  d_neg :: "'d \<Rightarrow> 'd"
  d_less :: "'d \<Rightarrow> 'd \<Rightarrow> bool"
  d_leq :: "'d \<Rightarrow> 'd \<Rightarrow> bool"
  d_sqrt :: "'d \<Rightarrow> 'd"
  d_sinh :: "'d \<Rightarrow> 'd"
  d_llround :: "'d \<Rightarrow> 64 word"
  d_to_u64 :: "'d \<Rightarrow> u64 option"
  f_lit :: "rat \<Rightarrow> 'f"
  f_of_u64 :: "u64 \<Rightarrow> 'f"
  f_of_s64 :: "int \<Rightarrow> 'f"
  f_of_d :: "'d \<Rightarrow> 'f"
  f_add :: "'f \<Rightarrow> 'f \<Rightarrow> 'f"
  f_sub :: "'f \<Rightarrow> 'f \<Rightarrow> 'f"
  f_mul :: "'f \<Rightarrow> 'f \<Rightarrow> 'f"
  f_div :: "'f \<Rightarrow> 'f \<Rightarrow> 'f"
  f_neg :: "'f \<Rightarrow> 'f"
  f_less :: "'f \<Rightarrow> 'f \<Rightarrow> bool"
  f_leq :: "'f \<Rightarrow> 'f \<Rightarrow> bool"
  f_to_u64 :: "'f \<Rightarrow> u64 option"

section \<open>Exact arithmetic\<close>

text \<open>Rounding to the nearest integer, halves away from zero.\<close>

definition round_away :: "real \<Rightarrow> int" where
  "round_away x = (if 0 \<le> x then \<lfloor>x + 1 / 2\<rfloor> else - \<lfloor>- x + 1 / 2\<rfloor>)"

text \<open>\<^verbatim>\<open>llround\<close>; outside the range of \<^verbatim>\<open>long long\<close> any value would do, and
  no theorem looks at it.\<close>

definition llround_s64 :: "real \<Rightarrow> 64 word" where
  "llround_s64 x = (let i = round_away x in if - (2 ^ 63) \<le> i \<and> i < 2 ^ 63 then word_of_int i else 2 ^ 63)"

definition truncate_u64 :: "real \<Rightarrow> u64 option" where
  "truncate_u64 x = (if -1 < x \<and> x < 2 ^ 64 then Some (word_of_int (if 0 \<le> x then \<lfloor>x\<rfloor> else 0)) else None)"

definition exact :: "(real, real) fpu" where
  "exact = \<lparr>d_lit = of_rat, d_of_u64 = (\<lambda>w. real (unat w)), d_of_s64 = real_of_int, d_of_f = (\<lambda>x. x),
     d_add = (+), d_sub = (-), d_mul = (*), d_div = (/), d_neg = uminus, d_less = (<), d_leq = (\<le>),
     d_sqrt = sqrt, d_sinh = sinh, d_llround = llround_s64, d_to_u64 = truncate_u64,
     f_lit = of_rat, f_of_u64 = (\<lambda>w. real (unat w)), f_of_s64 = real_of_int, f_of_d = (\<lambda>x. x),
     f_add = (+), f_sub = (-), f_mul = (*), f_div = (/), f_neg = uminus, f_less = (<), f_leq = (\<le>),
     f_to_u64 = truncate_u64\<rparr>"

lemma exact_simps [simp]:
  "d_lit exact = of_rat" "d_of_u64 exact w = real (unat w)" "d_of_s64 exact i = real_of_int i"
  "d_of_f exact x = x" "d_add exact = (+)" "d_sub exact = (-)" "d_mul exact = (*)" "d_div exact = (/)"
  "d_neg exact = uminus" "d_less exact = (<)" "d_leq exact = (\<le>)" "d_sqrt exact = sqrt"
  "d_sinh exact = sinh" "d_llround exact = llround_s64" "d_to_u64 exact = truncate_u64"
  "f_lit exact = of_rat" "f_of_u64 exact w = real (unat w)" "f_of_s64 exact i = real_of_int i"
  "f_of_d exact x = x" "f_add exact = (+)" "f_sub exact = (-)" "f_mul exact = (*)" "f_div exact = (/)"
  "f_neg exact = uminus" "f_less exact = (<)" "f_leq exact = (\<le>)" "f_to_u64 exact = truncate_u64"
  by (simp_all add: exact_def)

lemma round_away_error: "\<bar>real_of_int (round_away x) - x\<bar> \<le> 1 / 2"
proof (cases "0 \<le> x")
  case True
  have "real_of_int \<lfloor>x + 1 / 2\<rfloor> \<le> x + 1 / 2" "x + 1 / 2 < real_of_int \<lfloor>x + 1 / 2\<rfloor> + 1" by linarith+
  then show ?thesis unfolding round_away_def if_P [OF True] by linarith
next
  case False
  have "real_of_int \<lfloor>- x + 1 / 2\<rfloor> \<le> - x + 1 / 2" "- x + 1 / 2 < real_of_int \<lfloor>- x + 1 / 2\<rfloor> + 1" by linarith+
  then show ?thesis unfolding round_away_def if_not_P [OF False] of_int_minus by linarith
qed

lemma round_away_mono: "x \<le> y \<Longrightarrow> round_away x \<le> round_away y"
proof (cases "0 \<le> x \<or> \<not> 0 \<le> y")
  case True
  then show "x \<le> y \<Longrightarrow> ?thesis" unfolding round_away_def by (auto intro: floor_mono)
next
  case False
  then have "0 \<le> \<lfloor>- x + 1 / 2\<rfloor>" "0 \<le> \<lfloor>y + 1 / 2\<rfloor>" by simp_all
  then have "- \<lfloor>- x + 1 / 2\<rfloor> \<le> \<lfloor>y + 1 / 2\<rfloor>" by linarith
  then show ?thesis using False unfolding round_away_def by (auto split: if_splits)
qed

lemma round_away_int [simp]: "round_away (real_of_int i) = i"
  unfolding round_away_def by (auto simp: floor_eq_iff)

lemma round_away_nat [simp]: "round_away (real n) = int n"
  using round_away_int [of "int n"] by simp

text \<open>A product \<open>q * c\<close> with \<open>0 \<le> c \<le> 1\<close> rounds into \<open>{0..q}\<close>.\<close>

lemma round_away_fraction:
  assumes "0 \<le> c" "c \<le> 1"
  shows "0 \<le> round_away (real q * c)" "round_away (real q * c) \<le> int q"
  using round_away_mono [of 0 "real q * c"] round_away_mono [of "real q * c" "real q"] assms
  by (auto simp: mult_left_le round_away_def)

lemma unat_llround:
  assumes "0 \<le> c" "c \<le> 1" "unat (q :: u64) < 2 ^ 63"
  shows "unat (llround_s64 (real (unat q) * c)) = nat (round_away (real (unat q) * c))"
proof -
  let ?y = "round_away (real (unat q) * c)"
  have "int (unat q) < 2 ^ 63" using assms(3) by (simp only: flip: of_nat_less_iff [where 'a = int]) simp
  with round_away_fraction [OF assms(1,2), of "unat q"] have b: "0 \<le> ?y" "?y < 2 ^ 63" by linarith+
  then have "take_bit 64 ?y = ?y" by (intro take_bit_int_eq_self) simp_all
  then have "unat (word_of_int ?y :: u64) = nat ?y" by (simp only: unat_eq_nat_uint uint_word_of_int_eq) simp
  then show ?thesis using b by (simp add: llround_s64_def del: of_nat_unat)
qed

text \<open>Truncation of what fits.\<close>

lemma truncate_u64_nat:
  assumes "0 \<le> x" "x < 2 ^ 64"
  shows "\<exists>w. truncate_u64 x = Some w \<and> unat w = nat \<lfloor>x\<rfloor>"
proof -
  have "0 \<le> \<lfloor>x\<rfloor>" "\<lfloor>x\<rfloor> < 2 ^ 64" using assms by (simp_all add: floor_less_iff)
  then have "take_bit 64 \<lfloor>x\<rfloor> = \<lfloor>x\<rfloor>" by (intro take_bit_int_eq_self)
  then have "unat (word_of_int \<lfloor>x\<rfloor> :: u64) = nat \<lfloor>x\<rfloor>"
    by (simp only: unat_eq_nat_uint uint_word_of_int_eq) simp
  then show ?thesis using assms by (simp add: truncate_u64_def)
qed

section \<open>Rounded curves\<close>

text \<open>\<open>x\<close> is the share \<open>c j\<close> of \<open>Q\<close>, rounded.\<close>

lemmas real_unat = of_nat_unat

definition on_curve :: "u64 \<Rightarrow> (nat \<Rightarrow> real) \<Rightarrow> nat \<Rightarrow> u64 \<Rightarrow> bool" where
  "on_curve Q c j x \<longleftrightarrow> unat x = nat (round_away (real (unat Q) * c j))"

lemma on_curve_error:
  assumes "on_curve Q c j x" "0 \<le> c j" "c j \<le> 1"
  shows "\<bar>real (unat x) - real (unat Q) * c j\<bar> \<le> 1 / 2"
  using round_away_error [of "real (unat Q) * c j"] round_away_fraction(1) [OF assms(2,3), of "unat Q"] assms(1)
  by (simp add: on_curve_def del: real_unat)

lemma on_curve_start: "c 0 = 1 \<Longrightarrow> on_curve Q c 0 Q"
  by (simp add: on_curve_def del: real_unat)

text \<open>Where the curve falls, the clamp to the previous entry does not bite.\<close>

lemma on_curve_step:
  assumes "on_curve Q c i prev" "c j \<le> c i" "0 \<le> c j" "c j \<le> 1" "unat Q < 2 ^ 63"
  shows "on_curve Q c j (min prev (llround_s64 (real (unat Q) * c j)))"
proof -
  let ?y = "round_away (real (unat Q) * c j)" and ?w = "llround_s64 (real (unat Q) * c j)"
  have x: "unat ?w = nat ?y" by (rule unat_llround [OF assms(3-5)])
  have "nat ?y \<le> unat prev"
    using assms(1,2) by (auto simp: on_curve_def simp del: real_unat intro!: nat_mono round_away_mono mult_left_mono)
  then have "min prev ?w = ?w" using x by (simp add: min_absorb2 word_le_nat_alt del: real_unat)
  then show ?thesis using x by (simp add: on_curve_def del: real_unat)
qed

end
