(* ===== verification/Sim_Env.thy ===== *)
theory Sim_Env imports Telemetry_Pipeline Xorshift Floating begin

text \<open>
  The training environment of \<^verbatim>\<open>cpp/bindings/py_module.cpp\<close>: class
  \<^verbatim>\<open>SimEnv\<close>, a seller of a parent order against seeded background liquidity. The
  ring comes in through its \<open>push\<close> and the clock as a state transformer, as in the publisher;
  the clock, which publisher and environment share, is the one of the publisher's state;
  floating point is the record \<open>fpu\<close>. Signed 64-bit arithmetic is checked (\<open>s64\<close>), because
  its overflow is undefined. The wrapping of the numpy buffer and of the class for Python is not
  modelled.
\<close>

section \<open>Constants and state\<close>

definition kEnvBookCapacity :: u64 where "kEnvBookCapacity = 8192"
definition kEnvRingCapacity :: u64 where "kEnvRingCapacity = 2 ^ 16"
definition kEnvMinPrewarmPx :: Price where "kEnvMinPrewarmPx = 80"
definition kEnvMaxPrewarmPx :: Price where "kEnvMaxPrewarmPx = 120"
definition kEnvStateDim :: nat where "kEnvStateDim = 8"
definition kEnvActionDim :: nat where "kEnvActionDim = 2"
definition kPhi :: rat where "kPhi = 1"
definition kKappa :: rat where "kKappa = 1000"
definition kLiquidityLifetimeSteps :: u64 where "kLiquidityLifetimeSteps = 3"

definition s64 :: "int \<Rightarrow> int option" where
  "s64 x = (if - (2 ^ 63) \<le> x \<and> x < 2 ^ 63 then Some x else None)"

record ('f, 'c, 'q) SimEnv =
  en_parent_qty :: u64
  en_horizon_steps :: u64
  en_arrival_mid :: Price
  en_publisher :: "('c, 'q) TelemetryPublisher"
  en_rng :: u64
  en_fused_seq :: u64
  en_remaining :: u64
  en_qty_filled :: u64
  en_cash_from_fills :: int
  en_step_idx :: u64
  en_done :: bool
  en_next_id :: OrderId
  en_resting_ids :: "OrderId list"
  en_bg_ids :: "OrderId list"
  en_bg_birth :: "u64 list"
  en_bg_head :: nat
  en_state_buf :: "'f list"

abbreviation en_book :: "('f, 'c, 'q) SimEnv \<Rightarrow> OrderBook" where
  "en_book S \<equiv> tp_book (en_publisher S)"

section \<open>Reset and observation\<close>

fun cancel_all :: "'q pusher \<Rightarrow> 'c clock_fn \<Rightarrow> OrderId list \<Rightarrow> ('c, 'q) TelemetryPublisher
    \<Rightarrow> ('c, 'q) TelemetryPublisher option" where
  "cancel_all push clk [] P = Some P"
| "cancel_all push clk (i # is) P = do { (_, P1) \<leftarrow> pub_Cancel push clk i P; cancel_all push clk is P1 }"

definition ResetInternal :: "'q pusher \<Rightarrow> 'c clock_fn \<Rightarrow> ('f, 'c, 'q) SimEnv \<Rightarrow> ('f, 'c, 'q) SimEnv option" where
  "ResetInternal push clk S = do {
     P \<leftarrow> cancel_all push clk (en_resting_ids S) (en_publisher S);
     Some (S\<lparr>en_publisher := P, en_resting_ids := [], en_bg_ids := [], en_bg_birth := [], en_bg_head := 0,
       en_remaining := en_parent_qty S, en_step_idx := 0, en_qty_filled := 0, en_cash_from_fills := 0,
       en_done := False, en_next_id := 1\<rparr>)
   }"

definition observation :: "('f, 'd) fpu \<Rightarrow> ('f, 'c, 'q) SimEnv \<Rightarrow> 'f list" where
  "observation fp S =
     (let bb = (if has_bid (en_book S) then best_bid (en_book S) else 0);
          ba = (if has_ask (en_book S) then best_ask (en_book S) else 0);
          bb_f = f_of_s64 fp bb;
          ba_f = f_of_s64 fp ba;
          parent = f_of_u64 fp (en_parent_qty S)
      in [f_div fp (f_of_u64 fp (en_remaining S)) parent,
          if en_horizon_steps S = 0 then f_lit fp 0
          else f_sub fp (f_lit fp 1) (f_div fp (f_of_u64 fp (en_step_idx S)) (f_of_u64 fp (en_horizon_steps S))),
          bb_f,
          ba_f,
          if bb = 0 \<or> ba = 0 then f_lit fp 0 else f_sub fp ba_f bb_f,
          if bb = 0 \<or> ba = 0 then f_of_s64 fp (en_arrival_mid S)
          else f_mul fp (f_lit fp (1 / 2)) (f_add fp bb_f ba_f),
          f_div fp (f_of_u64 fp (en_qty_filled S)) parent,
          if en_qty_filled S = 0 \<or> en_arrival_mid S = 0 then f_lit fp 1
          else f_of_d fp (d_div fp (d_of_s64 fp (en_cash_from_fills S))
                 (d_mul fp (d_of_u64 fp (en_qty_filled S)) (d_of_s64 fp (en_arrival_mid S))))])"

definition WriteState :: "('f, 'd) fpu \<Rightarrow> ('f, 'c, 'q) SimEnv \<Rightarrow> ('f, 'c, 'q) SimEnv" where
  "WriteState fp S = S\<lparr>en_state_buf := observation fp S\<rparr>"

definition Reset :: "('f, 'd) fpu \<Rightarrow> 'q pusher \<Rightarrow> 'c clock_fn \<Rightarrow> u64 \<Rightarrow> ('f, 'c, 'q) SimEnv \<Rightarrow> ('f, 'c, 'q) SimEnv option" where
  "Reset fp push clk seed S = do {
     S1 \<leftarrow> ResetInternal push clk (S\<lparr>en_rng := Xorshift64_nonzero seed\<rparr>);
     Some (WriteState fp S1)
   }"

text \<open>The constructor. The ring has its relay attached and started by the caller.\<close>

definition SimEnv_new :: "('f, 'd) fpu \<Rightarrow> 'q pusher \<Rightarrow> 'c clock_fn \<Rightarrow> 'q \<Rightarrow> 'c \<Rightarrow> u64 \<Rightarrow> u64 \<Rightarrow> u64 \<Rightarrow> Price
    \<Rightarrow> ('f, 'c, 'q) SimEnv option" where
  "SimEnv_new fp push clk ring clock parent_qty horizon_steps seed arrival_mid = do {
     book0 \<leftarrow> OrderBook_new kEnvBookCapacity kDefaultMinPrice kDefaultMaxPrice;
     book \<leftarrow> prewarm kEnvMinPrewarmPx kEnvMaxPrewarmPx book0;
     S \<leftarrow> ResetInternal push clk
       \<lparr>en_parent_qty = (if parent_qty \<noteq> 0 then parent_qty else 1),
        en_horizon_steps = (if horizon_steps \<noteq> 0 then horizon_steps else 1),
        en_arrival_mid = arrival_mid,
        en_publisher = TelemetryPublisher_new book ring clock,
        en_rng = Xorshift64_nonzero seed, en_fused_seq = 1000000000, en_remaining = 0, en_qty_filled = 0,
        en_cash_from_fills = 0, en_step_idx = 0, en_done = False, en_next_id = 1, en_resting_ids = [],
        en_bg_ids = [], en_bg_birth = [], en_bg_head = 0, en_state_buf = replicate kEnvStateDim (f_lit fp 0)\<rparr>;
     Some (WriteState fp S)
   }"

section \<open>The background flow\<close>

text \<open>Expiry of synthetic orders past their lifetime.\<close>

function expire :: "'q pusher \<Rightarrow> 'c clock_fn \<Rightarrow> ('f, 'c, 'q) SimEnv \<Rightarrow> ('f, 'c, 'q) SimEnv option" where
  "expire push clk S =
     (if en_bg_head S < length (en_bg_ids S) then do {
        birth \<leftarrow> nth_opt (en_bg_birth S) (en_bg_head S);
        if birth + kLiquidityLifetimeSteps \<le> en_step_idx S then do {
          i \<leftarrow> nth_opt (en_bg_ids S) (en_bg_head S);
          (_, P) \<leftarrow> pub_Cancel push clk i (en_publisher S);
          expire push clk (S\<lparr>en_publisher := P, en_bg_head := en_bg_head S + 1\<rparr>)
        } else Some S
      } else Some S)"
  by pat_completeness auto

termination by (relation "measure (\<lambda>(_, _, S). length (en_bg_ids S) - en_bg_head S)") auto

declare expire.simps [simp del]

text \<open>One synthetic order, with the eviction that keeps the slab from filling up.\<close>

definition evict :: "'q pusher \<Rightarrow> 'c clock_fn \<Rightarrow> ('f, 'c, 'q) SimEnv \<Rightarrow> ('f, 'c, 'q) SimEnv option" where
  "evict push clk S =
     (if open_order_count (en_book S) \<ge> unat kEnvBookCapacity - 8 \<and> en_resting_ids S \<noteq> [] then do {
        let victim = last (en_resting_ids S);
        (_, P) \<leftarrow> pub_Cancel push clk victim (en_publisher S);
        Some (S\<lparr>en_publisher := P, en_resting_ids := butlast (en_resting_ids S)\<rparr>)
      } else Some S)"

definition bg_order :: "'q pusher \<Rightarrow> 'c clock_fn \<Rightarrow> ('f, 'c, 'q) SimEnv \<Rightarrow> ('f, 'c, 'q) SimEnv option" where
  "bg_order push clk S = do {
     let g1 = Next (en_rng S);
     let buy = (g1 AND 1 \<noteq> 0);
     let side = (if buy then kBuy else kSell);
     let g2 = Next g1;
     let depth = uint (g2 mod 5);
     px \<leftarrow> s64 (if buy then en_arrival_mid S - 1 - depth else en_arrival_mid S + 1 + depth);
     let g3 = Next g2;
     let qty = 10 + g3 mod 40;
     let i = en_next_id S;
     S1 \<leftarrow> evict push clk (S\<lparr>en_rng := g3, en_next_id := i + 1\<rparr>);
     (ok, P) \<leftarrow> pub_AddLimit push clk i side px qty (en_publisher S1);
     let S2 = S1\<lparr>en_publisher := P\<rparr>;
     Some (if ok then S2\<lparr>en_resting_ids := en_resting_ids S2 @ [i], en_bg_ids := en_bg_ids S2 @ [i],
             en_bg_birth := en_bg_birth S2 @ [en_step_idx S2]\<rparr> else S2)
   }"

definition background :: "'q pusher \<Rightarrow> 'c clock_fn \<Rightarrow> ('f, 'c, 'q) SimEnv \<Rightarrow> ('f, 'c, 'q) SimEnv option" where
  "background push clk S = do {
     S1 \<leftarrow> expire push clk S;
     for_range 0 12 (\<lambda>_. bg_order push clk) S1
   }"

section \<open>The child order\<close>

text \<open>The fused fill observer, on \<open>(filled, child_cash, ring, fused_seq, clock)\<close>.\<close>

type_synonym ('c, 'q) fused_state = "(Quantity \<times> int \<times> 'q \<times> u64 \<times> 'c) option"

definition env_on_fill :: "'q pusher \<Rightarrow> 'c clock_fn \<Rightarrow> Fill \<Rightarrow> ('c, 'q) fused_state \<Rightarrow> ('c, 'q) fused_state" where
  "env_on_fill push clk f st = do {
     (filled, cash, ring, sq, c) \<leftarrow> st;
     let filled1 = filled + fl_qty f;
     value \<leftarrow> s64 (fl_price f * sint (fl_qty f));
     cash1 \<leftarrow> s64 (cash + value);
     let (ts, c1) = clk c;
     (_, ring1) \<leftarrow> push (Event_Fill sq ts f) ring;
     Some (filled1, cash1, ring1, sq + 1, c1)
   }"

definition is_terminal :: "('f, 'c, 'q) SimEnv \<Rightarrow> bool" where
  "is_terminal S \<longleftrightarrow> en_step_idx S + 1 \<ge> en_horizon_steps S"

definition child_price :: "('f, 'd) fpu \<Rightarrow> 'f \<Rightarrow> ('f, 'c, 'q) SimEnv \<Rightarrow> Price option" where
  "child_price fp aggression S = do {
     best_bid_now \<leftarrow> (if has_bid (en_book S) then Some (best_bid (en_book S)) else s64 (en_arrival_mid S - 1));
     best_ask_now \<leftarrow> (if has_ask (en_book S) then Some (best_ask (en_book S)) else s64 (en_arrival_mid S + 1));
     let aggressive = (is_terminal S \<or> f_leq fp (f_lit fp (1 / 2)) aggression);
     Some (if aggressive then best_bid_now else best_ask_now)
   }"

definition child_order :: "'q pusher \<Rightarrow> 'c clock_fn \<Rightarrow> Price \<Rightarrow> Quantity \<Rightarrow> ('f, 'c, 'q) SimEnv
    \<Rightarrow> (Quantity \<times> int \<times> ('f, 'c, 'q) SimEnv) option" where
  "child_order push clk px child_qty S = do {
     let child_id = en_next_id S;
     let P = en_publisher S;
     (ok, book, st) \<leftarrow> AddLimit (env_on_fill push clk) child_id kSell px child_qty (tp_book P)
                          (Some (0, 0, tp_ring P, en_fused_seq S, tp_clock P));
     (filled, cash, ring, sq, c) \<leftarrow> st;
     let S1 = S\<lparr>en_next_id := child_id + 1, en_publisher := P\<lparr>tp_book := book, tp_ring := ring, tp_clock := c\<rparr>,
                en_fused_seq := sq\<rparr>;
     if ok \<and> filled < child_qty then do {
       let residual = child_qty - filled;
       let (ts, c1) = clk c;
       (_, ring1) \<leftarrow> push (Event_Ack sq ts child_id kSell px residual) ring;
       Some (filled, cash, S1\<lparr>en_publisher := P\<lparr>tp_book := book, tp_ring := ring1, tp_clock := c1\<rparr>,
         en_fused_seq := sq + 1, en_resting_ids := en_resting_ids S1 @ [child_id]\<rparr>)
     } else Some (filled, cash, S1)
   }"

section \<open>The step\<close>

definition MaybeCloseOut :: "('f, 'c, 'q) SimEnv \<Rightarrow> ('f, 'c, 'q) SimEnv" where
  "MaybeCloseOut S = (if en_remaining S = 0 \<or> en_step_idx S \<ge> en_horizon_steps S then S\<lparr>en_done := True\<rparr> else S)"

definition fill_reward :: "('f, 'd) fpu \<Rightarrow> Quantity \<Rightarrow> int \<Rightarrow> ('f, 'c, 'q) SimEnv \<Rightarrow> 'f" where
  "fill_reward fp filled cash S =
     (let s0 = (if en_arrival_mid S > 0 then en_arrival_mid S else 1);
          numerator = d_sub fp (d_of_s64 fp cash) (d_mul fp (d_of_u64 fp filled) (d_of_s64 fp s0))
      in if filled > 0 then f_of_d fp (d_div fp (d_mul fp (d_div fp numerator (d_of_s64 fp s0)) (d_lit fp 10000))
             (d_of_u64 fp (en_parent_qty S)))
         else f_lit fp 0)"

definition inventory_frac :: "('f, 'd) fpu \<Rightarrow> ('f, 'c, 'q) SimEnv \<Rightarrow> 'f" where
  "inventory_frac fp S = f_div fp (f_of_u64 fp (en_remaining S)) (f_of_u64 fp (en_parent_qty S))"

definition terminal_penalty :: "('f, 'd) fpu \<Rightarrow> ('f, 'c, 'q) SimEnv \<Rightarrow> 'f" where
  "terminal_penalty fp S =
     (let rem_frac = d_div fp (d_of_u64 fp (en_remaining S)) (d_of_u64 fp (en_parent_qty S))
      in f_of_d fp (d_mul fp (d_mul fp (d_neg fp (d_lit fp kKappa)) rem_frac) rem_frac))"

definition credit_fills :: "Quantity \<Rightarrow> int \<Rightarrow> ('f, 'c, 'q) SimEnv \<Rightarrow> ('f, 'c, 'q) SimEnv option" where
  "credit_fills filled cash S = do {
     total_cash \<leftarrow> s64 (en_cash_from_fills S + cash);
     Some (S\<lparr>en_qty_filled := en_qty_filled S + filled, en_cash_from_fills := total_cash,
       en_remaining := if filled \<ge> en_remaining S then 0 else en_remaining S - filled\<rparr>)
   }"

definition StepImpl :: "('f, 'd) fpu \<Rightarrow> 'q pusher \<Rightarrow> 'c clock_fn \<Rightarrow> 'f \<Rightarrow> 'f \<Rightarrow> ('f, 'c, 'q) SimEnv
    \<Rightarrow> ('f \<times> ('f, 'c, 'q) SimEnv) option" where
  "StepImpl fp push clk size_frac aggression S =
     (if en_done S then Some (f_lit fp 0, S)
      else do {
        S1 \<leftarrow> background push clk S;
        sized \<leftarrow> f_to_u64 fp (f_mul fp size_frac (f_of_u64 fp (en_remaining S1)));
        let child_qty = (if is_terminal S1 then en_remaining S1 else sized);
        if child_qty = 0 then
          (let idle = inventory_frac fp S1;
               S2 = MaybeCloseOut (S1\<lparr>en_step_idx := en_step_idx S1 + 1\<rparr>)
           in Some (f_mul fp (f_mul fp (f_neg fp (f_lit fp kPhi)) idle) idle, S2))
        else do {
          px \<leftarrow> child_price fp aggression S1;
          (filled, cash, S2) \<leftarrow> child_order push clk px child_qty S1;
          let reward = fill_reward fp filled cash S2;
          S3 \<leftarrow> credit_fills filled cash S2;
          let inv_frac = inventory_frac fp S3;
          let reward1 = f_sub fp reward (f_mul fp (f_mul fp (f_lit fp kPhi) inv_frac) inv_frac);
          let S4 = MaybeCloseOut (S3\<lparr>en_step_idx := en_step_idx S3 + 1\<rparr>);
          Some (if en_done S4 \<and> en_remaining S4 > 0 then f_add fp reward1 (terminal_penalty fp S4) else reward1, S4)
        }
      })"

definition std_clamp :: "('f, 'd) fpu \<Rightarrow> 'f \<Rightarrow> 'f" where
  "std_clamp fp x = (if f_less fp x (f_lit fp 0) then f_lit fp 0
     else if f_less fp (f_lit fp 1) x then f_lit fp 1 else x)"

text \<open>\<^verbatim>\<open>Step\<close>; the left of the sum is the exception for a short action.\<close>

definition Step :: "('f, 'd) fpu \<Rightarrow> 'q pusher \<Rightarrow> 'c clock_fn \<Rightarrow> 'f list \<Rightarrow> ('f, 'c, 'q) SimEnv
    \<Rightarrow> ((unit + 'f) \<times> ('f, 'c, 'q) SimEnv) option" where
  "Step fp push clk action S =
     (if length action < kEnvActionDim then Some (Inl (), S)
      else do {
        (reward, S1) \<leftarrow> StepImpl fp push clk (std_clamp fp (action ! 0)) (std_clamp fp (action ! 1)) S;
        Some (Inr reward, WriteState fp S1)
      })"

section \<open>Getters\<close>

definition State :: "('f, 'c, 'q) SimEnv \<Rightarrow> 'f list" where "State S = en_state_buf S"
definition Done :: "('f, 'c, 'q) SimEnv \<Rightarrow> bool" where "Done S = en_done S"
definition Remaining :: "('f, 'c, 'q) SimEnv \<Rightarrow> u64" where "Remaining S = en_remaining S"
definition StepIndex :: "('f, 'c, 'q) SimEnv \<Rightarrow> u64" where "StepIndex S = en_step_idx S"
definition QtyFilled :: "('f, 'c, 'q) SimEnv \<Rightarrow> u64" where "QtyFilled S = en_qty_filled S"

definition AvgFillPrice :: "('f, 'd) fpu \<Rightarrow> ('f, 'c, 'q) SimEnv \<Rightarrow> 'd" where
  "AvgFillPrice fp S = (if en_qty_filled S = 0 then d_lit fp 0
     else d_div fp (d_of_s64 fp (en_cash_from_fills S)) (d_of_u64 fp (en_qty_filled S)))"

end
