(* ===== verification/Sim_Env_Correct.thy ===== *)
theory Sim_Env_Correct imports Sim_Env Fused_Handlers begin

text \<open>
  The training environment against the gateway: its invariant, that every operation keeps it for
  any ring the publisher can drive, and what an episode does. The bounds are those of the source:
  8192 slots, prices up to 16383, synthetic orders of at most 49 units, so the fills of one step stay
  below 49 * 8192 units and the cash of an episode of at most 2^30 steps below 2^63.
\<close>

section \<open>Books with small bids\<close>

text \<open>Only synthetic orders rest on the bid side, and they are small.\<close>

definition small_queue :: "nat \<Rightarrow> queue \<Rightarrow> bool" where
  "small_queue m q \<longleftrightarrow> (\<forall>e\<in>set q. unat (snd e) \<le> m)"

definition small_bids :: "nat \<Rightarrow> depth \<Rightarrow> bool" where
  "small_bids m D \<longleftrightarrow> (\<forall>px. small_queue m (D kBuy px))"

lemma small_queue_simps [simp]:
  "small_queue m []" "small_queue m (e # q) \<longleftrightarrow> unat (snd e) \<le> m \<and> small_queue m q"
  "small_queue m (q @ q') \<longleftrightarrow> small_queue m q \<and> small_queue m q'"
  by (auto simp: small_queue_def)

lemma fill_queue_small: "fill_queue r q = (fs, r', rest) \<Longrightarrow> small_queue m q \<Longrightarrow> small_queue m rest"
proof (induction r q arbitrary: fs rule: fill_queue.induct)
  case (2 r i q es)
  have "unat (q - r) \<le> m" if "r < q" "unat q \<le> m"
    using that unat_diff_le [of q r] by (simp add: less_le_not_le)
  with 2 show ?case by (auto simp: Let_def split: if_splits prod.splits)
qed simp

lemma sweep_small: "sweep pxs r D = (fs, r', D') \<Longrightarrow> \<forall>px. small_queue m (D px) \<Longrightarrow> \<forall>px. small_queue m (D' px)"
proof (induction pxs arbitrary: r D fs)
  case (Cons a pxs)
  from sweep_ConsD [OF Cons.prems(1)] obtain gs r1 rest hs where
    f: "fill_queue r (D a) = (gs, r1, rest)" "sweep pxs r1 (D(a := rest)) = (hs, r', D')" by blast
  have "\<forall>px. small_queue m ((D(a := rest)) px)" using fill_queue_small [OF f(1)] Cons.prems(2) by auto
  with Cons.IH [OF f(2)] show ?case by blast
qed simp

lemma spec_add_small:
  assumes "spec_add mn mx cap i side px qty D = (ok, fills, D')" "small_bids m D" "side = kBuy \<Longrightarrow> unat qty \<le> m"
  shows "small_bids m D'"
proof -
  obtain fs r D1 where sw: "sweep (crossing side mn mx px) qty (D (opposite side)) = (fs, r, D1)"
    by (cases "sweep (crossing side mn mx px) qty (D (opposite side))")
  have r: "unat r \<le> unat qty" using sweep_conserves [OF sw] by simp
  show ?thesis
  proof (cases side)
    case kBuy
    then show ?thesis using assms sw r by (auto simp: spec_add_def small_bids_def Let_def split: if_splits)
  next
    case kSell
    then have "\<forall>px. small_queue m (D1 px)" using sweep_small [OF sw] assms(2) by (simp add: small_bids_def)
    then show ?thesis using assms(1) sw kSell by (auto simp: spec_add_def small_bids_def Let_def split: if_splits)
  qed
qed

lemma small_filter: "small_queue m q \<Longrightarrow> small_queue m (filter P q)"
  by (induction q) auto

lemma spec_cancel_small: "small_bids m D \<Longrightarrow> small_bids m (spec_cancel i D)"
  by (simp add: small_bids_def spec_cancel_def small_filter)

text \<open>What a seller can take out of such a book.\<close>

lemma sweep_total_le:
  "sweep pxs r D = (fs, r', D') \<Longrightarrow> distinct pxs \<Longrightarrow> total (map snd fs) \<le> (\<Sum>px\<in>set pxs. total (D px))"
proof (induction pxs arbitrary: r D fs)
  case (Cons a pxs)
  from sweep_ConsD [OF Cons.prems(1)] obtain gs r1 rest hs where
    f: "fill_queue r (D a) = (gs, r1, rest)" "sweep pxs r1 (D(a := rest)) = (hs, r', D')" "fs = map (Pair a) gs @ hs"
    by blast
  have "total (map snd hs) \<le> (\<Sum>px\<in>set pxs. total ((D(a := rest)) px))"
    by (rule Cons.IH [OF f(2)]) (use Cons.prems(2) in simp)
  also have "\<dots> = (\<Sum>px\<in>set pxs. total (D px))" using Cons.prems(2) by (intro sum.cong) auto
  finally show ?case using fill_queue_conserves [OF f(1)] Cons.prems(2) f(3) by (simp add: o_def)
qed simp

lemma small_total: "small_queue m q \<Longrightarrow> total q \<le> m * length q"
  by (induction q) auto

lemma sell_fills_bounded:
  assumes "spec_add mn mx cap i kSell px qty D = (ok, fills, D')" "small_bids m D"
  shows "(\<Sum>f \<leftarrow> fills. unat (fl_qty f)) \<le> m * order_total mn mx D" "\<forall>f\<in>set fills. mn \<le> fl_price f \<and> fl_price f \<le> mx"
proof -
  let ?pxs = "crossing kSell mn mx px"
  obtain fs r D1 where sw: "sweep ?pxs qty (D kBuy) = (fs, r, D1)" "fills = map (to_fill i kSell) fs"
    using assms(1) by (rule spec_add_sweep) simp
  have "(\<Sum>f \<leftarrow> fills. unat (fl_qty f)) = total (map snd fs)" by (simp add: sw(2) o_def)
  also have "\<dots> \<le> (\<Sum>p\<in>set ?pxs. total (D kBuy p))" by (rule sweep_total_le [OF sw(1)]) simp
  also have "\<dots> \<le> (\<Sum>p\<in>{mn..mx}. total (D kBuy p))" by (rule sum_mono2) auto
  also have "\<dots> \<le> (\<Sum>p\<in>{mn..mx}. m * (length (D kBuy p) + length (D kSell p)))"
  proof (rule sum_mono)
    fix p show "total (D kBuy p) \<le> m * (length (D kBuy p) + length (D kSell p))"
      using small_total [of m "D kBuy p"] assms(2) by (simp add: small_bids_def distrib_left)
  qed
  also have "\<dots> = m * order_total mn mx D" by (simp add: order_total_def sum_distrib_left)
  finally show "(\<Sum>f \<leftarrow> fills. unat (fl_qty f)) \<le> m * order_total mn mx D" .
  show "\<forall>f\<in>set fills. mn \<le> fl_price f \<and> fl_price f \<le> mx"
    using sweep_fill_px [OF sw(1)] by (auto simp: sw(2))
qed

section \<open>The fused observer\<close>

lemma s64_in [simp]: "- (2 ^ 63) \<le> x \<Longrightarrow> x < 2 ^ 63 \<Longrightarrow> s64 x = Some x"
  by (simp add: s64_def)

lemma sint_small: "int (unat w) < 2 ^ 63 \<Longrightarrow> sint (w :: u64) = int (unat w)"
proof -
  assume "int (unat w) < 2 ^ 63"
  then have "uint w < 2 ^ 63" by simp
  moreover have "- (2 ^ 63) \<le> uint w" by (rule order_trans [OF _ uint_ge_0]) simp
  ultimately have "signed_take_bit 63 (uint w) = uint w" by (intro signed_take_bit_int_eq_self)
  then show "sint w = int (unat w)" by (simp add: sint_uint)
qed

lemma fills_cash_bounds:
  "\<forall>f\<in>set fs. 0 \<le> fl_price f \<and> fl_price f \<le> M \<Longrightarrow> 0 \<le> fills_cash fs \<and> fills_cash fs \<le> M * int (fills_qty fs)"
proof (induction fs)
  case (Cons f fs)
  then have "fl_price f * int (unat (fl_qty f)) \<le> M * int (unat (fl_qty f))" by (intro mult_right_mono) auto
  with Cons show ?case by (auto simp: distrib_left)
qed simp

text \<open>The observer is the handler of the publisher with the cash beside it, as long as the cash fits.\<close>

lemma fold_env_none: "fold (env_on_fill push clk) fills None = None"
  by (induction fills) (simp_all add: env_on_fill_def)

lemma env_on_fill_pub:
  assumes "0 \<le> cash" "0 \<le> fl_price f" "cash + fl_price f * int (unat (fl_qty f)) < 2 ^ 63" "int (unat (fl_qty f)) < 2 ^ 63"
  shows "env_on_fill push clk f (Some (k, cash, q, sq, c)) = do {
    (k', q', sq', c') \<leftarrow> pub_on_fill push clk f (Some (k, q, sq, c));
    Some (k', cash + fl_price f * int (unat (fl_qty f)), q', sq', c') }"
proof -
  have v: "0 \<le> fl_price f * int (unat (fl_qty f))" using assms(2) by (intro mult_nonneg_nonneg) simp_all
  have "s64 (fl_price f * int (unat (fl_qty f))) = Some (fl_price f * int (unat (fl_qty f)))"
    "s64 (cash + fl_price f * int (unat (fl_qty f))) = Some (cash + fl_price f * int (unat (fl_qty f)))"
    by (rule s64_in; use assms v in linarith)+
  then have "s64 (fl_price f * sint (fl_qty f)) = Some (fl_price f * int (unat (fl_qty f)))"
    "s64 (cash + fl_price f * int (unat (fl_qty f))) = Some (cash + fl_price f * int (unat (fl_qty f)))"
    by (simp_all only: sint_small [OF assms(4)])
  then show ?thesis by (simp add: env_on_fill_def pub_on_fill_def case_prod_beta split: bind_splits)
qed

lemma fold_env_fill:
  assumes "0 \<le> cash" "\<forall>f\<in>set fills. 0 \<le> fl_price f \<and> fl_price f \<le> M" "1 \<le> M"
    and "cash + M * int (fills_qty fills) < 2 ^ 63"
  shows "fold (env_on_fill push clk) fills (Some (k, cash, q, sq, c)) = do {
    (k', q', sq', c') \<leftarrow> fold (pub_on_fill push clk) fills (Some (k, q, sq, c));
    Some (k', cash + fills_cash fills, q', sq', c') }"
  using assms(1,2,4)
proof (induction fills arbitrary: k cash q sq c)
  case (Cons f fills)
  let ?n = "int (unat (fl_qty f))"
  have M: "?n \<le> M * ?n" using assms(3) by (simp add: mult_le_cancel_right1)
  have f: "0 \<le> fl_price f" using Cons.prems(2) by simp
  have v: "0 \<le> fl_price f * ?n" "fl_price f * ?n \<le> M * ?n"
    using Cons.prems(2) by (auto intro: mult_right_mono)
  have b: "cash + M * ?n + M * int (fills_qty fills) < 2 ^ 63" using Cons.prems(3) by (simp add: distrib_left add.assoc)
  have pos: "0 \<le> M * int (fills_qty fills)" using assms(3) by simp
  have step: "env_on_fill push clk f (Some (k, cash, q, sq, c)) = do {
      (k', q', sq', c') \<leftarrow> pub_on_fill push clk f (Some (k, q, sq, c)); Some (k', cash + fl_price f * ?n, q', sq', c') }"
    by (rule env_on_fill_pub; use Cons.prems(1) f M v b pos in linarith)
  show ?case
  proof (cases "pub_on_fill push clk f (Some (k, q, sq, c))")
    case None
    then show ?thesis by (simp add: step fold_env_none fold_no_ring)
  next
    case (Some r)
    obtain k1 q1 s1 c1 where r: "r = (k1, q1, s1, c1)" by (cases r)
    have "fold (env_on_fill push clk) fills (Some (k1, cash + fl_price f * ?n, q1, s1, c1)) = do {
        (k', q', sq', c') \<leftarrow> fold (pub_on_fill push clk) fills (Some (k1, q1, s1, c1));
        Some (k', cash + fl_price f * ?n + fills_cash fills, q', sq', c') }"
      using v b Cons.prems(1,2) by (intro Cons.IH) auto
    then show ?thesis using step by (auto simp: Some r add.assoc split: bind_splits)
  qed
qed simp

text \<open>An order is new in the book exactly when something of it is left.\<close>

lemma spec_add_rests:
  assumes sp: "spec_add mn mx cap i side px qty D = (ok, fills, D')" and j: "spec_resting j D'"
  shows "spec_resting j D \<or> j = i \<and> ok \<and> fills_qty fills < unat qty"
proof (cases "spec_resting j D")
  case False
  then have "j = i" "ok" using spec_add_resting [OF sp j] by auto
  obtain fs r D1 where sw: "sweep (crossing side mn mx px) qty (D (opposite side)) = (fs, r, D1)"
    "fills = map (to_fill i side) fs" "D' (opposite side) = D1" "r = 0 \<Longrightarrow> D' side = D side"
    using sp by (rule spec_add_sweep) (use \<open>ok\<close> in blast)
  have "r \<noteq> 0"
  proof
    assume "r = 0"
    then have "spec_resting j D"
      using j sw(3,4) sweep_resting [OF sw(1)] by (cases side; simp add: spec_resting_def ex_Side; metis)
    with False show False ..
  qed
  then have "0 < unat r" by (simp add: unat_gt_0)
  then have "fills_qty fills < unat qty"
    using sweep_conserves [OF sw(1)] by (simp add: fills_qty_def sw(2) o_def)
  with \<open>j = i\<close> \<open>ok\<close> show ?thesis by blast
qed simp

section \<open>The invariant of the market\<close>

definition market_inv :: "('q \<Rightarrow> bool) \<Rightarrow> ('q \<Rightarrow> TelemetryEvent list) \<Rightarrow> nat \<Rightarrow> ('f, 'c, 'q) SimEnv \<Rightarrow> bool" where
  "market_inv rinv sent n S \<longleftrightarrow> pub_audited rinv sent kDefaultMinPrice kDefaultMaxPrice 8192 (en_publisher S)
     \<and> uncrossed (book_depth (en_publisher S)) \<and> small_bids 49 (book_depth (en_publisher S))
     \<and> tracks (set (en_resting_ids S)) (book_depth (en_publisher S))
     \<and> (\<forall>i\<in>set (en_resting_ids S). unat i < unat (en_next_id S)) \<and> unat (en_next_id S) \<le> n
     \<and> length (en_bg_birth S) = length (en_bg_ids S)
     \<and> - (2 ^ 62) \<le> en_arrival_mid S \<and> en_arrival_mid S \<le> 2 ^ 62"

text \<open>The members the background flow leaves alone.\<close>

definition same_account :: "('f, 'c, 'q) SimEnv \<Rightarrow> ('f, 'c, 'q) SimEnv \<Rightarrow> bool" where
  "same_account S S' \<longleftrightarrow> en_parent_qty S' = en_parent_qty S \<and> en_horizon_steps S' = en_horizon_steps S
     \<and> en_arrival_mid S' = en_arrival_mid S \<and> en_remaining S' = en_remaining S \<and> en_qty_filled S' = en_qty_filled S
     \<and> en_cash_from_fills S' = en_cash_from_fills S \<and> en_step_idx S' = en_step_idx S \<and> en_done S' = en_done S"

lemma same_account_refl [simp]: "same_account S S"
  by (simp add: same_account_def)

lemma same_account_trans: "same_account S S1 \<Longrightarrow> same_account S1 S2 \<Longrightarrow> same_account S S2"
  by (simp add: same_account_def)

text \<open>Whatever the ring does and whichever orders the synthetic flow meets, the child's included, it
  credits nothing to the account.\<close>

lemma expire_account: "expire push clk S = Some S' \<Longrightarrow> same_account S S'"
proof (induction push clk S rule: expire.induct)
  case (1 push clk S)
  let ?next = "\<lambda>P. S\<lparr>en_publisher := P, en_bg_head := en_bg_head S + 1\<rparr>"
  from "1.prems" have "S' = S \<or> (\<exists>P. expire push clk (?next P) = Some S' \<and> same_account (?next P) S')"
    using "1.IH" by (subst (asm) expire.simps) (fastforce split: if_splits bind_splits)
  then show ?case by (auto simp: same_account_def)
qed

lemma bg_order_account: "bg_order push clk S = Some S' \<Longrightarrow> same_account S S'"
  by (auto simp: bg_order_def evict_def same_account_def Let_def split: if_splits bind_splits prod.splits)

lemma background_account:
  assumes "background push clk S = Some S'"
  shows "same_account S S'"
proof -
  obtain S1 where S1: "expire push clk S = Some S1" "for_range 0 12 (\<lambda>_. bg_order push clk) S1 = Some S'"
    using assms by (auto simp: background_def split: bind_splits)
  have "same_account S1 S'"
    by (rule for_range_preorder [OF S1(2)]) (auto intro: bg_order_account same_account_trans)
  with expire_account [OF S1(1)] show ?thesis by (rule same_account_trans)
qed

text \<open>What was pushed since: no trade but those whose takers are in \<open>J\<close>.\<close>

definition trades_within :: "OrderId set \<Rightarrow> TelemetryEvent list \<Rightarrow> TelemetryEvent list \<Rightarrow> bool" where
  "trades_within J es es' \<longleftrightarrow> (\<exists>fs. es' = es @ fs \<and> (\<forall>j. j \<notin> J \<longrightarrow> trades_of j fs = []))"

lemma trades_within_refl [simp]: "trades_within J es es"
  by (auto simp: trades_within_def trades_of_def)

lemma trades_within_trans: "trades_within J es fs \<Longrightarrow> trades_within K fs gs \<Longrightarrow> J \<subseteq> L \<Longrightarrow> K \<subseteq> L \<Longrightarrow> trades_within L es gs"
  unfolding trades_within_def by (elim exE conjE) (auto 0 4)

abbreviation en_sent :: "('q \<Rightarrow> TelemetryEvent list) \<Rightarrow> ('f, 'c, 'q) SimEnv \<Rightarrow> TelemetryEvent list" where
  "en_sent sent S \<equiv> sent (tp_ring (en_publisher S))"

text \<open>The identifiers of the next \<open>n\<close> orders.\<close>

definition next_ids :: "('f, 'c, 'q) SimEnv \<Rightarrow> nat \<Rightarrow> OrderId set" where
  "next_ids S n = {en_next_id S + of_nat k | k. k < n}"

lemma tracks_mono: "tracks T D \<Longrightarrow> T \<subseteq> T' \<Longrightarrow> tracks T' D"
  by (auto simp: tracks_def)

lemma butlast_last: "xs \<noteq> [] \<Longrightarrow> set xs - {last xs} \<subseteq> set (butlast xs)"
  by (metis Diff_subset_conv append_butlast_last_id list.set(1) list.simps(15) set_append Un_commute subset_refl)

context recorded_ring begin

text \<open>A cancel, for the expiry and the eviction.\<close>

lemma env_cancel:
  assumes "market_inv inv sent n S"
  shows "\<exists>ok P. pub_Cancel push clk i (en_publisher S) = Some (ok, P)
    \<and> trades_within {} (en_sent sent S) (sent (tp_ring P))
    \<and> (\<forall>ids h. set (en_resting_ids S) - {i} \<subseteq> set ids \<longrightarrow> set ids \<subseteq> set (en_resting_ids S) \<longrightarrow>
         market_inv inv sent n (S\<lparr>en_publisher := P, en_resting_ids := ids, en_bg_head := h\<rparr>))"
proof -
  have P: "pub_audited inv sent kDefaultMinPrice kDefaultMaxPrice 8192 (en_publisher S)" using assms by (simp add: market_inv_def)
  obtain P' where P': "pub_Cancel push clk i (en_publisher S) = Some (spec_resting i (book_depth (en_publisher S)), P')"
    "pub_audited inv sent kDefaultMinPrice kDefaultMaxPrice 8192 P'" "book_depth P' = spec_cancel i (book_depth (en_publisher S))"
    "\<exists>es. sent (tp_ring P') = en_sent sent S @ es \<and> (\<forall>j. trades_of j es = [])"
    using audited_cancel [OF P, of clk i] by blast
  have t: "trades_within {} (en_sent sent S) (sent (tp_ring P'))" using P'(4) by (auto simp: trades_within_def)
  have "tracks (set (en_resting_ids S) - {i}) (book_depth P')"
    unfolding P'(3) using assms by (intro tracks_cancel) (simp add: market_inv_def)
  moreover have "uncrossed (book_depth P')" "small_bids 49 (book_depth P')"
    unfolding P'(3) using assms by (auto intro: spec_cancel_uncrossed spec_cancel_small simp: market_inv_def)
  ultimately show ?thesis using P'(1,2) t assms by (auto simp: market_inv_def intro: tracks_mono)
qed

lemma expire_ok:
  "market_inv inv sent n S \<Longrightarrow> \<exists>S'. expire push clk S = Some S' \<and> market_inv inv sent n S' \<and> same_account S S'
     \<and> trades_within {} (en_sent sent S) (en_sent sent S') \<and> en_next_id S' = en_next_id S"
proof (induction "length (en_bg_ids S) - en_bg_head S" arbitrary: S rule: less_induct)
  case less
  let ?h = "en_bg_head S"
  show ?case
  proof (cases "?h < length (en_bg_ids S) \<and> en_bg_birth S ! ?h + kLiquidityLifetimeSteps \<le> en_step_idx S")
    case False
    then have "expire push clk S = Some S" using less.prems by (auto simp: expire.simps [of push clk S] market_inv_def)
    then show ?thesis using less.prems by auto
  next
    case True
    then have h: "?h < length (en_bg_ids S)" "?h < length (en_bg_birth S)" using less.prems by (auto simp: market_inv_def)
    obtain ok P where P: "pub_Cancel push clk (en_bg_ids S ! ?h) (en_publisher S) = Some (ok, P)"
      "market_inv inv sent n (S\<lparr>en_publisher := P, en_resting_ids := en_resting_ids S, en_bg_head := ?h + 1\<rparr>)"
      "trades_within {} (en_sent sent S) (sent (tp_ring P))"
      using env_cancel [OF less.prems, of clk "en_bg_ids S ! ?h"] by auto
    let ?S = "S\<lparr>en_publisher := P, en_bg_head := ?h + 1\<rparr>"
    have "expire push clk S = expire push clk ?S"
      using True h P(1) by (simp add: expire.simps [of push clk S])
    moreover have "market_inv inv sent n ?S" using P(2) by (simp add: market_inv_def)
    then have "\<exists>S'. expire push clk ?S = Some S' \<and> market_inv inv sent n S' \<and> same_account ?S S'
      \<and> trades_within {} (en_sent sent ?S) (en_sent sent S') \<and> en_next_id S' = en_next_id ?S"
      by (intro less.hyps) (use h in auto)
    ultimately show ?thesis using trades_within_trans [OF P(3)] by (auto simp: same_account_def)
  qed
qed

lemma evict_ok:
  assumes "market_inv inv sent n S"
  shows "\<exists>S'. evict push clk S = Some S' \<and> market_inv inv sent n S' \<and> same_account S S'
    \<and> set (en_resting_ids S') \<subseteq> set (en_resting_ids S) \<and> en_next_id S' = en_next_id S
    \<and> trades_within {} (en_sent sent S) (en_sent sent S')"
proof (cases "open_order_count (en_book S) \<ge> unat kEnvBookCapacity - 8 \<and> en_resting_ids S \<noteq> []")
  case True
  let ?r = "en_resting_ids S"
  have sub: "set ?r - {last ?r} \<subseteq> set (butlast ?r)" "set (butlast ?r) \<subseteq> set ?r"
    using butlast_last [of ?r] True by (auto dest: in_set_butlastD)
  obtain ok P where P: "pub_Cancel push clk (last ?r) (en_publisher S) = Some (ok, P)"
    "market_inv inv sent n (S\<lparr>en_publisher := P, en_resting_ids := butlast ?r, en_bg_head := en_bg_head S\<rparr>)"
    "trades_within {} (en_sent sent S) (sent (tp_ring P))"
    using env_cancel [OF assms, of clk "last ?r"] sub by blast
  then have "evict push clk S = Some (S\<lparr>en_publisher := P, en_resting_ids := butlast ?r\<rparr>)"
    using True by (simp add: evict_def Let_def)
  moreover have "market_inv inv sent n (S\<lparr>en_publisher := P, en_resting_ids := butlast ?r\<rparr>)"
    using P(2) by (simp add: market_inv_def)
  ultimately show ?thesis using P(3) by (auto simp: same_account_def dest: in_set_butlastD)
qed (use assms in \<open>auto simp: evict_def\<close>)

end

context recorded_ring begin

lemma bg_order_ok:
  assumes S: "market_inv inv sent n S" and n: "n + 1 < 2 ^ 64"
  shows "\<exists>S'. bg_order push clk S = Some S' \<and> market_inv inv sent (n + 1) S' \<and> same_account S S'
    \<and> trades_within {en_next_id S} (en_sent sent S) (en_sent sent S') \<and> en_next_id S' = en_next_id S + 1"
proof -
  let ?g1 = "Next (en_rng S)" and ?i = "en_next_id S"
  let ?g2 = "Next ?g1" let ?g3 = "Next ?g2"
  let ?side = "if ?g1 AND 1 \<noteq> 0 then kBuy else kSell" and ?qty = "10 + ?g3 mod 40"
  define px where "px = (if ?g1 AND 1 \<noteq> 0 then en_arrival_mid S - 1 - uint (?g2 mod 5) else en_arrival_mid S + 1 + uint (?g2 mod 5))"
  obtain k where k: "uint (?g2 mod 5) = k" "0 \<le> k" "k < 5" by (simp add: uint_mod)
  then have px: "s64 px = Some px" using S unfolding px_def k(1) by (auto simp: s64_def market_inv_def)
  have m: "unat (?g3 mod 40) < 40" by (simp add: unat_mod)
  then have "unat ?qty = 10 + unat (?g3 mod 40)" by (subst unat_add_lem [THEN iffD1]) simp_all
  with m have qty: "unat ?qty \<le> 49" "?qty \<noteq> 0" by (auto simp: unat_eq_0 [symmetric])
  have i: "unat (?i + 1) = unat ?i + 1" by (rule unat_inc) (use S n in \<open>simp add: market_inv_def\<close>)
  let ?S0 = "S\<lparr>en_rng := ?g3, en_next_id := ?i + 1\<rparr>"
  have "market_inv inv sent (n + 1) ?S0" using S i by (fastforce simp: market_inv_def)
  from evict_ok [OF this, of clk] obtain S1 where S1: "evict push clk ?S0 = Some S1" "market_inv inv sent (n + 1) S1"
    "same_account ?S0 S1" "set (en_resting_ids S1) \<subseteq> set (en_resting_ids S)" "en_next_id S1 = ?i + 1"
    "trades_within {} (en_sent sent S) (en_sent sent S1)" by auto
  let ?D = "book_depth (en_publisher S1)"
  have P: "pub_audited inv sent kDefaultMinPrice kDefaultMaxPrice 8192 (en_publisher S1)" "uncrossed ?D" "small_bids 49 ?D"
    "tracks (set (en_resting_ids S1)) ?D" using S1(2) by (auto simp: market_inv_def)
  have fresh: "\<not> spec_resting ?i ?D" using P(4) S1(4) S by (fastforce simp: tracks_def market_inv_def)
  obtain ok fills D' where sp: "spec_add kDefaultMinPrice kDefaultMaxPrice 8192 ?i ?side px ?qty ?D = (ok, fills, D')"
    by (metis prod_cases3)
  obtain P' where P': "pub_AddLimit push clk ?i ?side px ?qty (en_publisher S1) = Some (ok, P')"
    "pub_audited inv sent kDefaultMinPrice kDefaultMaxPrice 8192 P'" "book_depth P' = D'"
    "\<exists>es. sent (tp_ring P') = en_sent sent S1 @ es \<and> executes ?i fills es"
    using audited_add [OF P(1) qty(2) fresh sp] by blast
  have "trades_within {?i} (en_sent sent S1) (sent (tp_ring P'))"
    using P'(4) executes_other by (auto simp: trades_within_def)
  from trades_within_trans [OF S1(6) this] have t: "trades_within {?i} (en_sent sent S) (sent (tp_ring P'))" by simp
  have D': "uncrossed D'" "small_bids 49 D'" "tracks (if ok then insert ?i (set (en_resting_ids S1)) else set (en_resting_ids S1)) D'"
    using spec_add_uncrossed [OF sp P(2) order_gateway.in_range [OF audited_gateway P(1)]]
      spec_add_small [OF sp P(3)] qty(1) P(4) spec_add_resting [OF sp] by (auto simp: tracks_def)
  let ?S2 = "S1\<lparr>en_publisher := P'\<rparr>"
  let ?S' = "if ok then ?S2\<lparr>en_resting_ids := en_resting_ids ?S2 @ [?i], en_bg_ids := en_bg_ids ?S2 @ [?i],
      en_bg_birth := en_bg_birth ?S2 @ [en_step_idx ?S2]\<rparr> else ?S2"
  have "bg_order push clk S = Some ?S'"
    using px S1(1) P'(1) unfolding px_def by (simp add: bg_order_def Let_def)
  moreover have "market_inv inv sent (n + 1) ?S'"
    using S1(2,5) P'(2,3) D' i by (auto simp: market_inv_def)
  moreover have "trades_within {?i} (en_sent sent S) (en_sent sent ?S')" "en_next_id ?S' = ?i + 1" using t S1(5) by simp_all
  moreover have "same_account S ?S'" using S1(3) by (simp add: same_account_def)
  ultimately show ?thesis by blast
qed

lemma background_ok:
  assumes S: "market_inv inv sent n S" and n: "n + 12 < 2 ^ 64"
  shows "\<exists>S'. background push clk S = Some S' \<and> market_inv inv sent (n + 12) S' \<and> same_account S S'
    \<and> trades_within (next_ids S 12) (en_sent sent S) (en_sent sent S') \<and> en_next_id S' = en_next_id S + 12"
proof -
  obtain S1 where S1: "expire push clk S = Some S1" "market_inv inv sent n S1" "same_account S S1"
    "trades_within {} (en_sent sent S) (en_sent sent S1)" "en_next_id S1 = en_next_id S" using expire_ok [OF S] by blast
  let ?I = "\<lambda>j S'. market_inv inv sent (n + j) S' \<and> same_account S S'
    \<and> trades_within (next_ids S j) (en_sent sent S) (en_sent sent S') \<and> en_next_id S' = en_next_id S + of_nat j"
  have "\<exists>S'. for_range 0 12 (\<lambda>_. bg_order push clk) S1 = Some S' \<and> ?I 12 S'"
  proof (rule for_range_invariant [where I = ?I])
    fix j T assume j: "j < 12" "?I j T"
    then obtain T' where T': "bg_order push clk T = Some T'" "market_inv inv sent (n + j + 1) T'" "same_account T T'"
      "trades_within {en_next_id T} (en_sent sent T) (en_sent sent T')" "en_next_id T' = en_next_id T + 1"
      using bg_order_ok [of "n + j" T clk] n by auto
    have "next_ids S j \<subseteq> next_ids S (Suc j)" "{en_next_id T} \<subseteq> next_ids S (Suc j)"
      using j(2) by (auto simp: next_ids_def intro: less_SucI)
    then have "trades_within (next_ids S (Suc j)) (en_sent sent S) (en_sent sent T')"
      using trades_within_trans [OF _ T'(4)] j(2) by blast
    with j T' show "\<exists>s'. bg_order push clk T = Some s' \<and> ?I (Suc j) s'"
      using same_account_trans by (auto simp: add.commute)
  qed (use S1 in \<open>auto simp: next_ids_def\<close>)
  with S1(1) show ?thesis by (simp add: background_def)
qed

end

section \<open>The child order\<close>

text \<open>A child is an order of the publisher, on the counter of the fused observer; the
  cash is that of its fills.\<close>

definition child_publisher :: "('f, 'c, 'q) SimEnv \<Rightarrow> ('c, 'q) TelemetryPublisher" where
  "child_publisher S = (en_publisher S)\<lparr>tp_seq := en_fused_seq S\<rparr>"

definition child_done :: "bool \<Rightarrow> ('c, 'q) TelemetryPublisher \<Rightarrow> ('f, 'c, 'q) SimEnv \<Rightarrow> ('f, 'c, 'q) SimEnv" where
  "child_done rests P S = S\<lparr>en_next_id := en_next_id S + 1,
     en_publisher := (en_publisher S)\<lparr>tp_book := tp_book P, tp_ring := tp_ring P, tp_clock := tp_clock P\<rparr>,
     en_fused_seq := tp_seq P,
     en_resting_ids := en_resting_ids S @ (if rests then [en_next_id S] else [])\<rparr>"

lemma child_order_publishes:
  assumes pub: "pub_AddLimit push clk (en_next_id S) kSell px qty (child_publisher S) = Some (ok, P)"
    and run: "AddLimit log_fill (en_next_id S) kSell px qty (en_book S) [] = Some (ok, b, fills)"
    and cash: "\<forall>f\<in>set fills. 0 \<le> fl_price f \<and> fl_price f \<le> M" "1 \<le> M" "M * int (fills_qty fills) < 2 ^ 63"
  shows "child_order push clk px qty S = Some (sum_list (map fl_qty fills), fills_cash fills,
    child_done (ok \<and> sum_list (map fl_qty fills) < qty) P S)"
proof -
  let ?st = "Some (0, tp_ring (en_publisher S), en_fused_seq S, tp_clock (en_publisher S))"
  have h: "AddLimit h (en_next_id S) kSell px qty (en_book S) st = Some (ok, b, fold h fills st)" for h and st :: 'z
    using fused_equals_buffered [THEN conjunct1, of h] run by simp
  obtain q sq c where f: "fold (pub_on_fill push clk) fills ?st = Some (sum_list (map fl_qty fills), q, sq, c)"
  proof (cases "fold (pub_on_fill push clk) fills ?st")
    case None
    then show ?thesis using pub by (simp add: pub_AddLimit_def child_publisher_def h)
  next
    case (Some r)
    then show ?thesis using that by (auto simp: fold_on_fill split: bind_splits)
  qed
  have "fold (env_on_fill push clk) fills (Some (0, 0, tp_ring (en_publisher S), en_fused_seq S, tp_clock (en_publisher S)))
      = Some (sum_list (map fl_qty fills), fills_cash fills, q, sq, c)"
    using fold_env_fill [OF _ cash(1,2), of 0 push clk 0 _ _ _] cash(3) by (simp add: f)
  then show ?thesis
    using pub f by (auto simp: child_order_def pub_AddLimit_def child_publisher_def child_done_def h Let_def
        split: bind_splits prod.splits if_splits)
qed

text \<open>The child of size \<open>qty\<close> at \<open>px\<close>, against the specification of the book: the trades and the queues
  of a sell order.\<close>

definition sells :: "Price \<Rightarrow> Quantity \<Rightarrow> TelemetryEvent list \<Rightarrow> ('f, 'c, 'q) SimEnv \<Rightarrow> ('f, 'c, 'q) SimEnv \<Rightarrow> bool" where
  "sells px qty ts S S' \<longleftrightarrow> (\<exists>ok fills.
     spec_add kDefaultMinPrice kDefaultMaxPrice (unat kEnvBookCapacity) (en_next_id S) kSell px qty (book_depth (en_publisher S))
       = (ok, fills, book_depth (en_publisher S'))
     \<and> map (\<lambda>e. (te_side e, te_price e, te_qty e)) ts = map (\<lambda>f. (fl_taker_side f, fl_price f, fl_qty f)) fills)"

context recorded_ring begin

lemma child_order_ok:
  assumes S: "market_inv inv sent n S" and n: "n + 1 < 2 ^ 64" and qty: "qty \<noteq> 0"
  shows "\<exists>filled cash S'. child_order push clk px qty S = Some (filled, cash, S') \<and> market_inv inv sent (n + 1) S'
    \<and> same_account S S' \<and> unat filled \<le> unat qty \<and> unat filled \<le> 49 * 8192
    \<and> 0 \<le> cash \<and> cash \<le> 16383 * int (unat filled)
    \<and> (\<exists>es. en_sent sent S' = en_sent sent S @ es \<and> trades_qty (trades_of (en_next_id S) es) = unat filled
         \<and> trades_cash (trades_of (en_next_id S) es) = cash \<and> (\<forall>e\<in>set (trades_of (en_next_id S) es). te_side e = kSell)
         \<and> sells px qty (trades_of (en_next_id S) es) S S')"
proof -
  let ?i = "en_next_id S" and ?D = "book_depth (en_publisher S)" and ?P = "child_publisher S"
  have P: "pub_audited inv sent kDefaultMinPrice kDefaultMaxPrice 8192 ?P" "tp_book ?P = en_book S"
    and D: "uncrossed ?D" "small_bids 49 ?D" "tracks (set (en_resting_ids S)) ?D"
    using S by (auto simp: market_inv_def child_publisher_def pub_audited_def pub_in_def)
  note B = pub_auditedD [OF P(1), unfolded P(2)]
  have i: "unat (?i + 1) = unat ?i + 1" by (rule unat_inc) (use S n in \<open>simp add: market_inv_def\<close>)
  have fresh: "\<not> spec_resting ?i ?D" using D(3) S by (fastforce simp: tracks_def market_inv_def)
  obtain ok fills D' where sp: "spec_add kDefaultMinPrice kDefaultMaxPrice 8192 ?i kSell px qty ?D = (ok, fills, D')"
    by (metis prod_cases3)
  obtain P' es where P': "pub_AddLimit push clk ?i kSell px qty ?P = Some (ok, P')"
    "pub_audited inv sent kDefaultMinPrice kDefaultMaxPrice 8192 P'" "book_depth P' = D'"
    "sent (tp_ring P') = sent (tp_ring ?P) @ es" "executes ?i fills es"
    using audited_add [OF P(1) qty, of ?i kSell px ok fills D' clk] fresh sp P(2) by auto
  obtain b' where run: "AddLimit log_fill ?i kSell px qty (en_book S) [] = Some (ok, b', fills)"
    using AddLimit_on_inv [OF B(2) qty fresh, of kSell px ok fills D' log_fill "[]"] sp B(4-6) by auto
  have "order_total kDefaultMinPrice kDefaultMaxPrice ?D \<le> 8192" using open_orders(1,3) [OF B(2)] B(4-6) by simp
  then have bound: "fills_qty fills \<le> 49 * 8192" "\<forall>f\<in>set fills. 0 \<le> fl_price f \<and> fl_price f \<le> 16383"
    using sell_fills_bounded [OF sp D(2)] by (auto simp: fills_qty_def kDefaultMinPrice_def kDefaultMaxPrice_def)
  let ?sum = "sum_list (map fl_qty fills)"
  have sum: "unat ?sum = fills_qty fills" "unat ?sum \<le> unat qty"
    using residual_left(2) [OF sp] spec_add_fills_unsigned [OF sp] by (simp_all add: fills_qty_def)
  have "child_order push clk px qty S = Some (?sum, fills_cash fills, child_done (ok \<and> ?sum < qty) P' S)"
    using bound by (intro child_order_publishes [OF P'(1) run bound(2)]) auto
  moreover have "tracks (set (en_resting_ids S @ (if ok \<and> ?sum < qty then [?i] else []))) D'"
    using D(3) spec_add_rests [OF sp] sum(1) by (auto simp: tracks_def word_less_nat_alt)
  then have "market_inv inv sent (n + 1) (child_done (ok \<and> ?sum < qty) P' S)"
    using S P'(2,3) i spec_add_uncrossed [OF sp D(1)] depth_band [OF B(2)] B(4,5) spec_add_small [OF sp D(2)]
    by (auto simp: market_inv_def child_done_def pub_audited_def pub_in_def)
  moreover have "same_account S (child_done (ok \<and> ?sum < qty) P' S)" by (simp add: same_account_def child_done_def)
  moreover have "sells px qty (trades_of ?i es) S (child_done (ok \<and> ?sum < qty) P' S)"
    using sp P'(3,5) by (auto simp: sells_def child_done_def executes_def kEnvBookCapacity_def)
  moreover have "en_sent sent (child_done (ok \<and> ?sum < qty) P' S) = en_sent sent S @ es"
    using P'(4) by (simp add: child_done_def child_publisher_def)
  moreover have "te_side e = kSell" if "e \<in> set (trades_of ?i es)" for e
    using executes_sums(3) [OF P'(5) that] spec_add_takers [OF sp] by auto
  ultimately show ?thesis
    using fills_cash_bounds [OF bound(2)] bound(1) sum executes_sums(1,2) [OF P'(5)] by (auto intro!: exI [of _ es] simp del: of_nat_unat)
qed

end

section \<open>The invariant of the account\<close>

text \<open>What is left is the parent less what was filled; with an oversized child it is cut off at
  zero. The cash of an episode stays far inside 64 bits.\<close>

definition account_inv :: "('f, 'c, 'q) SimEnv \<Rightarrow> bool" where
  "account_inv S \<longleftrightarrow> en_parent_qty S \<noteq> 0 \<and> en_horizon_steps S \<noteq> 0 \<and> unat (en_horizon_steps S) \<le> 2 ^ 30
     \<and> (en_done S \<longleftrightarrow> en_remaining S = 0 \<or> unat (en_horizon_steps S) \<le> unat (en_step_idx S))
     \<and> unat (en_step_idx S) \<le> unat (en_horizon_steps S)
     \<and> unat (en_remaining S) = unat (en_parent_qty S) - unat (en_qty_filled S)
     \<and> unat (en_qty_filled S) \<le> 49 * 8192 * unat (en_step_idx S)
     \<and> 0 \<le> en_cash_from_fills S \<and> en_cash_from_fills S \<le> 16383 * int (unat (en_qty_filled S))"

definition env_inv :: "('q \<Rightarrow> bool) \<Rightarrow> ('q \<Rightarrow> TelemetryEvent list) \<Rightarrow> ('f, 'c, 'q) SimEnv \<Rightarrow> bool" where
  "env_inv rinv sent S \<longleftrightarrow> market_inv rinv sent (1 + 13 * unat (en_step_idx S)) S \<and> account_inv S"

text \<open>\<open>same_desk\<close> of the environment: its parameters.\<close>

definition same_task :: "('f, 'c, 'q) SimEnv \<Rightarrow> ('f, 'c, 'q) SimEnv \<Rightarrow> bool" where
  "same_task S S' \<longleftrightarrow> en_parent_qty S' = en_parent_qty S \<and> en_horizon_steps S' = en_horizon_steps S
     \<and> en_arrival_mid S' = en_arrival_mid S"

text \<open>One step of the account: \<open>filled\<close> units more, for \<open>cash\<close>.\<close>

definition one_step :: "nat \<Rightarrow> int \<Rightarrow> ('f, 'c, 'q) SimEnv \<Rightarrow> ('f, 'c, 'q) SimEnv \<Rightarrow> bool" where
  "one_step filled cash S S' \<longleftrightarrow> same_task S S' \<and> unat (en_step_idx S') = unat (en_step_idx S) + 1
     \<and> unat (en_qty_filled S') = unat (en_qty_filled S) + filled
     \<and> unat (en_remaining S') = unat (en_remaining S) - filled
     \<and> en_cash_from_fills S' = en_cash_from_fills S + cash"

text \<open>Neither sum of the account leaves its type.\<close>

lemma account_fits:
  assumes S: "account_inv S" "\<not> en_done S" and f: "unat filled \<le> 49 * 8192" "0 \<le> cash" "cash \<le> 16383 * int (unat filled)"
  shows "unat (en_step_idx S + 1) = unat (en_step_idx S) + 1"
    "unat (en_qty_filled S + filled) = unat (en_qty_filled S) + unat filled"
    "unat (en_qty_filled S) + unat filled \<le> 49 * 8192 * (unat (en_step_idx S) + 1)"
    "en_cash_from_fills S + cash \<le> 16383 * int (unat (en_qty_filled S) + unat filled)"
    "s64 (en_cash_from_fills S + cash) = Some (en_cash_from_fills S + cash)"
proof -
  have lt: "unat (en_step_idx S) < unat (en_horizon_steps S)" "unat (en_horizon_steps S) \<le> 2 ^ 30"
    and q: "unat (en_qty_filled S) \<le> 49 * 8192 * unat (en_step_idx S)"
    and c: "0 \<le> en_cash_from_fills S" "en_cash_from_fills S \<le> 16383 * int (unat (en_qty_filled S))"
    using S by (auto simp: account_inv_def)
  show "unat (en_step_idx S + 1) = unat (en_step_idx S) + 1" by (rule unat_inc) (use lt in simp)
  show "unat (en_qty_filled S + filled) = unat (en_qty_filled S) + unat filled"
    by (subst unat_add_lem [THEN iffD1]) (use q f(1) lt in simp_all)
  show q1: "unat (en_qty_filled S) + unat filled \<le> 49 * 8192 * (unat (en_step_idx S) + 1)" using q f(1) by simp
  moreover have "49 * 8192 * (unat (en_step_idx S) + 1) \<le> 49 * 8192 * 2 ^ 30" using lt by (intro mult_le_mono2) simp
  ultimately have big: "unat (en_qty_filled S) + unat filled \<le> 49 * 8192 * 2 ^ 30" by linarith
  show c1: "en_cash_from_fills S + cash \<le> 16383 * int (unat (en_qty_filled S) + unat filled)"
    using c(2) f(3) unfolding of_nat_add distrib_left by linarith
  have "16383 * int (unat (en_qty_filled S) + unat filled) \<le> 16383 * int (49 * 8192 * 2 ^ 30)"
    using big by (intro mult_left_mono) (simp_all only: of_nat_le_iff zero_le_numeral)
  with c1 have "en_cash_from_fills S + cash < 2 ^ 63" by simp
  then show "s64 (en_cash_from_fills S + cash) = Some (en_cash_from_fills S + cash)" using c(1) f(2) by (simp add: s64_def)
qed

lemma account_step:
  assumes S: "account_inv S" "\<not> en_done S" and T: "same_account S T"
    and f: "unat filled \<le> 49 * 8192" "0 \<le> cash" "cash \<le> 16383 * int (unat filled)"
  shows "\<exists>U. credit_fills filled cash T = Some U \<and> account_inv (MaybeCloseOut (U\<lparr>en_step_idx := en_step_idx U + 1\<rparr>))
    \<and> one_step (unat filled) cash S (MaybeCloseOut (U\<lparr>en_step_idx := en_step_idx U + 1\<rparr>))
    \<and> U = T\<lparr>en_qty_filled := en_qty_filled U, en_cash_from_fills := en_cash_from_fills U, en_remaining := en_remaining U\<rparr>"
proof -
  note fit = account_fits [OF S f]
  have lt: "unat (en_step_idx S) < unat (en_horizon_steps S)" and c: "0 \<le> en_cash_from_fills S"
    using S by (auto simp: account_inv_def)
  let ?rem = "if filled \<ge> en_remaining S then 0 else en_remaining S - filled"
  have rem: "unat ?rem = unat (en_remaining S) - unat filled"
    using unat_diff_le [of "en_remaining S" filled] by (auto simp: word_le_nat_alt word_less_nat_alt)
  let ?U = "T\<lparr>en_qty_filled := en_qty_filled T + filled, en_cash_from_fills := en_cash_from_fills S + cash, en_remaining := ?rem\<rparr>"
  let ?V = "MaybeCloseOut (?U\<lparr>en_step_idx := en_step_idx ?U + 1\<rparr>)"
  note T' = T [unfolded same_account_def]
  have U: "credit_fills filled cash T = Some ?U" using fit(5) T' by (simp add: credit_fills_def)
  have V: "en_qty_filled ?V = en_qty_filled S + filled" "en_step_idx ?V = en_step_idx S + 1" "en_remaining ?V = ?rem"
    "en_cash_from_fills ?V = en_cash_from_fills S + cash" "en_parent_qty ?V = en_parent_qty S"
    "en_horizon_steps ?V = en_horizon_steps S" "en_arrival_mid ?V = en_arrival_mid S"
    "en_done ?V \<longleftrightarrow> ?rem = 0 \<or> en_step_idx S + 1 \<ge> en_horizon_steps S"
    using S(2) T' by (simp_all add: MaybeCloseOut_def)
  have "unat ?rem = unat (en_parent_qty S) - (unat (en_qty_filled S) + unat filled)"
    using rem S(1) by (simp add: account_inv_def)
  then have "account_inv ?V"
    unfolding account_inv_def V using S(1) fit(1-4) c f(2) lt
    by (simp only: account_inv_def word_le_nat_alt) auto
  moreover have "one_step (unat filled) cash S ?V"
    unfolding one_step_def same_task_def V using fit(1,2) rem by simp
  ultimately show ?thesis using U by (intro exI [of _ ?U]) simp
qed

section \<open>The step\<close>

text \<open>The trades of a step's child as the taker: twelve background orders have the next identifiers,
  the child the one after them.\<close>

definition child_trades :: "('q \<Rightarrow> TelemetryEvent list) \<Rightarrow> ('f, 'c, 'q) SimEnv \<Rightarrow> ('f, 'c, 'q) SimEnv \<Rightarrow> TelemetryEvent list" where
  "child_trades sent S S' = trades_of (en_next_id S + 12) (drop (length (en_sent sent S)) (en_sent sent S'))"

lemma child_trades_sent:
  assumes "trades_within (next_ids S 12) (en_sent sent S) es1" "en_sent sent S' = es1 @ es"
  shows "child_trades sent S S' = trades_of (en_next_id S + 12) es"
proof -
  have "en_next_id S + 12 \<notin> next_ids S 12"
  proof
    assume "en_next_id S + 12 \<in> next_ids S 12"
    then obtain k where k: "(12 :: u64) = of_nat k" "k < 12" by (auto simp: next_ids_def)
    from arg_cong [OF k(1), of unat] k(2) show False by (simp add: unat_of_nat64)
  qed
  then show ?thesis using assms by (auto simp: child_trades_def trades_within_def)
qed

text \<open>The account of one step: what the child of size \<open>q\<close> sold in the trades \<open>ts\<close>.\<close>

definition traded :: "Quantity \<Rightarrow> TelemetryEvent list \<Rightarrow> ('f, 'c, 'q) SimEnv \<Rightarrow> ('f, 'c, 'q) SimEnv \<Rightarrow> bool" where
  "traded q ts S S' \<longleftrightarrow> one_step (trades_qty ts) (trades_cash ts) S S' \<and> trades_qty ts \<le> unat q
     \<and> (\<forall>e\<in>set ts. te_side e = kSell)"

text \<open>What the step did, in the market \<open>S1\<close> that the background flow left: nothing without a child, and
  otherwise its sale at the price its aggression asks for.\<close>

definition worked :: "('f, 'd) fpu \<Rightarrow> 'f \<Rightarrow> Quantity \<Rightarrow> TelemetryEvent list \<Rightarrow> ('f, 'c, 'q) SimEnv \<Rightarrow> ('f, 'c, 'q) SimEnv \<Rightarrow> bool" where
  "worked fp aggression q ts S1 S' \<longleftrightarrow>
     (if q = 0 then ts = [] \<and> book_depth (en_publisher S') = book_depth (en_publisher S1)
      else \<exists>px. child_price fp aggression S1 = Some px \<and> sells px q ts S1 S')"

lemma child_price_ok: "market_inv rinv sent n S \<Longrightarrow> \<exists>px. child_price fp aggression S = Some px"
  by (auto simp: child_price_def market_inv_def)

lemma market_advance:
  "market_inv rinv sent m T \<Longrightarrow> m \<le> n \<Longrightarrow> en_publisher U = en_publisher T \<Longrightarrow> en_resting_ids U = en_resting_ids T \<Longrightarrow>
     en_next_id U = en_next_id T \<Longrightarrow> en_bg_ids U = en_bg_ids T \<Longrightarrow> en_bg_birth U = en_bg_birth T \<Longrightarrow>
     en_arrival_mid U = en_arrival_mid T \<Longrightarrow> market_inv rinv sent n U"
  by (auto simp: market_inv_def)

context recorded_ring begin

text \<open>A step that is not over: the child is \<open>size_frac\<close> of what is left, all of it at the end.\<close>

lemma StepImpl_idle:
  assumes S: "account_inv S" "\<not> en_done S" and S1: "market_inv inv sent m S1" "same_account S S1"
    and m: "m \<le> 14 + 13 * unat (en_step_idx S)"
  shows "env_inv inv sent (MaybeCloseOut (S1\<lparr>en_step_idx := en_step_idx S1 + 1\<rparr>))"
    "one_step 0 0 S (MaybeCloseOut (S1\<lparr>en_step_idx := en_step_idx S1 + 1\<rparr>))"
proof -
  let ?S' = "MaybeCloseOut (S1\<lparr>en_step_idx := en_step_idx S1 + 1\<rparr>)"
  obtain U where U: "credit_fills 0 0 S1 = Some U" "account_inv (MaybeCloseOut (U\<lparr>en_step_idx := en_step_idx U + 1\<rparr>))"
    "one_step 0 0 S (MaybeCloseOut (U\<lparr>en_step_idx := en_step_idx U + 1\<rparr>))"
    using account_step [OF S S1(2), of 0 0] by auto
  have z: "U = S1" using U(1) by (auto simp: credit_fills_def s64_def split: if_splits)
  show o: "one_step 0 0 S ?S'" using U(3) by (simp add: z)
  have "market_inv inv sent (1 + 13 * unat (en_step_idx ?S')) ?S'"
    using o m by (intro market_advance [OF S1(1)]) (auto simp: one_step_def MaybeCloseOut_def)
  then show "env_inv inv sent ?S'" using U(2) by (simp add: env_inv_def z)
qed

lemma StepImpl_trade:
  assumes S: "account_inv S" "\<not> en_done S" and S2: "market_inv inv sent m S2" "same_account S S2"
    and m: "m \<le> 14 + 13 * unat (en_step_idx S)"
    and f: "unat filled \<le> 49 * 8192" "0 \<le> cash" "cash \<le> 16383 * int (unat filled)"
  shows "\<exists>S3. credit_fills filled cash S2 = Some S3 \<and> env_inv inv sent (MaybeCloseOut (S3\<lparr>en_step_idx := en_step_idx S3 + 1\<rparr>))
    \<and> one_step (unat filled) cash S (MaybeCloseOut (S3\<lparr>en_step_idx := en_step_idx S3 + 1\<rparr>))"
proof -
  obtain S3 where S3: "credit_fills filled cash S2 = Some S3"
    "account_inv (MaybeCloseOut (S3\<lparr>en_step_idx := en_step_idx S3 + 1\<rparr>))"
    "one_step (unat filled) cash S (MaybeCloseOut (S3\<lparr>en_step_idx := en_step_idx S3 + 1\<rparr>))"
    using account_step [OF S S2(2) f] by blast
  let ?S4 = "MaybeCloseOut (S3\<lparr>en_step_idx := en_step_idx S3 + 1\<rparr>)"
  have "en_publisher S3 = en_publisher S2" "en_resting_ids S3 = en_resting_ids S2" "en_next_id S3 = en_next_id S2"
    "en_bg_ids S3 = en_bg_ids S2" "en_bg_birth S3 = en_bg_birth S2" "en_arrival_mid S3 = en_arrival_mid S2"
    using S3(1) by (auto simp: credit_fills_def split: bind_splits)
  then have "market_inv inv sent (1 + 13 * unat (en_step_idx ?S4)) ?S4"
    using S3(3) m by (intro market_advance [OF S2(1)]) (auto simp: one_step_def MaybeCloseOut_def)
  with S3 show ?thesis by (auto simp: env_inv_def)
qed

lemma StepImpl_ok:
  assumes S: "env_inv inv sent S" "\<not> en_done S"
    and sized: "f_to_u64 fp (f_mul fp sz (f_of_u64 fp (en_remaining S))) = Some sized"
  shows "\<exists>r S'. StepImpl fp push clk sz ag S = Some (r, S') \<and> env_inv inv sent S'
    \<and> traded (if is_terminal S then en_remaining S else sized) (child_trades sent S S') S S'
    \<and> (\<exists>S1. background push clk S = Some S1
         \<and> worked fp ag (if is_terminal S then en_remaining S else sized) (child_trades sent S S') S1 S')"
proof -
  let ?n = "1 + 13 * unat (en_step_idx S)"
  have acc: "account_inv S" and n: "?n + 13 < 2 ^ 64" using S by (auto simp: env_inv_def account_inv_def)
  obtain S1 where S1: "background push clk S = Some S1" "market_inv inv sent (?n + 12) S1" "same_account S S1"
    "trades_within (next_ids S 12) (en_sent sent S) (en_sent sent S1)" "en_next_id S1 = en_next_id S + 12"
    using background_ok [of ?n S clk] S(1) n by (auto simp: env_inv_def)
  let ?q = "if is_terminal S then en_remaining S else sized"
  have q: "(if is_terminal S1 then en_remaining S1 else sized) = ?q" "f_to_u64 fp (f_mul fp sz (f_of_u64 fp (en_remaining S1))) = Some sized"
    using S1(3) sized by (auto simp: is_terminal_def same_account_def)
  show ?thesis
  proof (cases "?q = 0")
    case True
    let ?S' = "MaybeCloseOut (S1\<lparr>en_step_idx := en_step_idx S1 + 1\<rparr>)"
    have "\<exists>r. StepImpl fp push clk sz ag S = Some (r, ?S')"
      using S1(1) q True by (simp add: StepImpl_def S(2) Let_def)
    moreover have "child_trades sent S ?S' = []"
      using child_trades_sent [where sent = sent and S = S, OF S1(4), of ?S' "[]"] by (simp add: MaybeCloseOut_def trades_of_def)
    ultimately show ?thesis using StepImpl_idle [OF acc S(2) S1(2,3)] S1(1) True
      by (auto simp: traded_def worked_def MaybeCloseOut_def)
  next
    case False
    obtain px where px: "child_price fp ag S1 = Some px" using child_price_ok [OF S1(2)] by blast
    obtain filled cash S2 es where S2: "child_order push clk px ?q S1 = Some (filled, cash, S2)"
      "market_inv inv sent (?n + 13) S2" "same_account S1 S2" "unat filled \<le> unat ?q"
      "unat filled \<le> 49 * 8192" "0 \<le> cash" "cash \<le> 16383 * int (unat filled)"
      and es: "en_sent sent S2 = en_sent sent S1 @ es" "trades_qty (trades_of (en_next_id S1) es) = unat filled"
        "trades_cash (trades_of (en_next_id S1) es) = cash" "\<forall>e\<in>set (trades_of (en_next_id S1) es). te_side e = kSell"
        "sells px ?q (trades_of (en_next_id S1) es) S1 S2"
      using child_order_ok [OF S1(2) _ False, of clk px] n by (auto simp: add.assoc)
    obtain S3 where S3: "credit_fills filled cash S2 = Some S3"
      "env_inv inv sent (MaybeCloseOut (S3\<lparr>en_step_idx := en_step_idx S3 + 1\<rparr>))"
      "one_step (unat filled) cash S (MaybeCloseOut (S3\<lparr>en_step_idx := en_step_idx S3 + 1\<rparr>))"
      using StepImpl_trade [OF acc S(2) S2(2) same_account_trans [OF S1(3) S2(3)] _ S2(5-7)] by auto
    let ?S' = "MaybeCloseOut (S3\<lparr>en_step_idx := en_step_idx S3 + 1\<rparr>)"
    have "\<exists>r. StepImpl fp push clk sz ag S = Some (r, ?S')"
      using S1(1) q False px S2(1) S3(1) by (simp add: StepImpl_def S(2) Let_def)
    moreover have "en_publisher ?S' = en_publisher S2" using S3(1) by (auto simp: MaybeCloseOut_def credit_fills_def split: bind_splits)
    then have "child_trades sent S ?S' = trades_of (en_next_id S1) es"
      using child_trades_sent [where sent = sent and S = S, OF S1(4), of ?S' es] es(1) S1(5) by simp
    moreover have "worked fp ag ?q (trades_of (en_next_id S1) es) S1 ?S'"
      using False px es(5) \<open>en_publisher ?S' = en_publisher S2\<close> by (auto simp: worked_def sells_def)
    ultimately show ?thesis using S3(2,3) S2(4) es(2-4) S1(1) by (auto simp: traded_def)
  qed
qed

end

section \<open>Reset and construction\<close>

lemma WriteState_same [simp]: "market_inv rinv sent n (WriteState fp S) = market_inv rinv sent n S"
  "account_inv (WriteState fp S) = account_inv S" "env_inv rinv sent (WriteState fp S) = env_inv rinv sent S"
  "one_step k c S0 (WriteState fp S) = one_step k c S0 S"
  "same_task S0 (WriteState fp S) = same_task S0 S" "same_task (WriteState fp S) S0 = same_task S S0"
  by (simp_all add: WriteState_def market_inv_def account_inv_def env_inv_def one_step_def same_task_def)

lemma WriteState_members [simp]:
  "en_publisher (WriteState fp S) = en_publisher S" "en_done (WriteState fp S) = en_done S"
  "en_remaining (WriteState fp S) = en_remaining S" "en_qty_filled (WriteState fp S) = en_qty_filled S"
  "en_step_idx (WriteState fp S) = en_step_idx S" "en_parent_qty (WriteState fp S) = en_parent_qty S"
  "en_horizon_steps (WriteState fp S) = en_horizon_steps S" "en_next_id (WriteState fp S) = en_next_id S"
  "en_arrival_mid (WriteState fp S) = en_arrival_mid S" "en_rng (WriteState fp S) = en_rng S"
  "en_resting_ids (WriteState fp S) = en_resting_ids S" "en_cash_from_fills (WriteState fp S) = en_cash_from_fills S"
  "en_state_buf (WriteState fp S) = observation fp S"
  by (simp_all add: WriteState_def)

lemma observation_WriteState [simp]: "observation fp (WriteState fp S) = observation fp S"
  unfolding observation_def WriteState_members by (rule refl)

text \<open>A fresh episode.\<close>

definition fresh_episode :: "('f, 'c, 'q) SimEnv \<Rightarrow> bool" where
  "fresh_episode S \<longleftrightarrow> book_depth (en_publisher S) = (\<lambda>_ _. []) \<and> open_order_count (en_book S) = 0
     \<and> en_remaining S = en_parent_qty S \<and> en_qty_filled S = 0 \<and> en_cash_from_fills S = 0
     \<and> en_step_idx S = 0 \<and> \<not> en_done S \<and> en_next_id S = 1 \<and> en_resting_ids S = []"

lemma fresh_WriteState [simp]: "fresh_episode (WriteState fp S) = fresh_episode S"
  by (simp add: fresh_episode_def)

context recorded_ring begin

lemma cancel_all_ok:
  "pub_audited inv sent mn mx cap P \<Longrightarrow> tracks T (book_depth P) \<Longrightarrow> T \<subseteq> set ids \<Longrightarrow>
     \<exists>P'. cancel_all push clk ids P = Some P' \<and> pub_audited inv sent mn mx cap P' \<and> book_depth P' = (\<lambda>_ _. [])"
proof (induction ids arbitrary: P T)
  case Nil
  then show ?case using order_gateway.untracked_empty [OF audited_gateway, of P] by simp
next
  case (Cons i ids)
  obtain ok P1 where P1: "pub_Cancel push clk i P = Some (ok, P1)" "pub_audited inv sent mn mx cap P1"
    "tracks (T - {i}) (book_depth P1)"
    using order_gateway.cancel_tracked [OF audited_gateway Cons.prems(1,2), of clk i] by blast
  have "T - {i} \<subseteq> set ids" using Cons.prems(3) by auto
  with Cons.IH [OF P1(2,3)] P1(1) show ?case by simp
qed

lemma ResetInternal_ok:
  assumes "market_inv inv sent n S" "en_parent_qty S \<noteq> 0" "en_horizon_steps S \<noteq> 0" "unat (en_horizon_steps S) \<le> 2 ^ 30"
  shows "\<exists>S'. ResetInternal push clk S = Some S' \<and> env_inv inv sent S' \<and> fresh_episode S' \<and> same_task S S'
    \<and> en_rng S' = en_rng S"
proof -
  obtain P where P: "cancel_all push clk (en_resting_ids S) (en_publisher S) = Some P"
    "pub_audited inv sent kDefaultMinPrice kDefaultMaxPrice 8192 P" "book_depth P = (\<lambda>_ _. [])"
    using cancel_all_ok [of kDefaultMinPrice kDefaultMaxPrice 8192 "en_publisher S" "set (en_resting_ids S)" "en_resting_ids S" clk] assms(1)
    by (auto simp: market_inv_def)
  then obtain S' where S': "ResetInternal push clk S = Some S'" "en_publisher S' = P" "en_resting_ids S' = []"
    "en_bg_ids S' = []" "en_bg_birth S' = []" "en_remaining S' = en_parent_qty S" "en_step_idx S' = 0"
    "en_qty_filled S' = 0" "en_cash_from_fills S' = 0" "\<not> en_done S'" "en_next_id S' = 1" "same_task S S'" "en_rng S' = en_rng S"
    by (simp add: ResetInternal_def same_task_def)
  have "open_order_count (tp_book P) = 0"
    using open_orders(2) [OF pub_auditedD(2) [OF P(2)]] P(3) by (simp add: spec_resting_def)
  then have "fresh_episode S'" using S' P(3) by (simp add: fresh_episode_def same_task_def)
  moreover have "env_inv inv sent S'"
    using S' P(2,3) assms by (simp add: env_inv_def market_inv_def account_inv_def same_task_def tracks_def spec_resting_def
        uncrossed_def small_bids_def unat_gt_0)
  ultimately show ?thesis using S' by blast
qed

lemma Reset_ok:
  assumes "env_inv inv sent S"
  shows "\<exists>S'. Reset fp push clk seed S = Some S' \<and> env_inv inv sent S' \<and> fresh_episode S' \<and> same_task S S'
    \<and> en_rng S' = Xorshift64_nonzero seed \<and> en_state_buf S' = observation fp S'"
proof -
  let ?S = "S\<lparr>en_rng := Xorshift64_nonzero seed\<rparr>"
  have "market_inv inv sent (1 + 13 * unat (en_step_idx S)) ?S" using assms by (simp add: env_inv_def market_inv_def)
  from ResetInternal_ok [OF this, of clk] assms obtain S' where "ResetInternal push clk ?S = Some S'" "env_inv inv sent S'"
    "fresh_episode S'" "same_task ?S S'" "en_rng S' = Xorshift64_nonzero seed"
    by (auto simp: env_inv_def account_inv_def)
  then show ?thesis
    by (intro exI [of _ "WriteState fp S'"]) (auto simp: Reset_def same_task_def)
qed

lemma SimEnv_new_ok:
  assumes "inv ring" "sent ring = []" "unat horizon \<le> 2 ^ 30" "- (2 ^ 62) \<le> mid" "mid \<le> 2 ^ 62"
  shows "\<exists>S. SimEnv_new fp push clk ring clock parent horizon seed mid = Some S \<and> env_inv inv sent S \<and> fresh_episode S
    \<and> en_parent_qty S = (if parent \<noteq> 0 then parent else 1) \<and> en_horizon_steps S = (if horizon \<noteq> 0 then horizon else 1)
    \<and> en_arrival_mid S = mid"
proof -
  obtain b where b: "OrderBook_new kEnvBookCapacity kDefaultMinPrice kDefaultMaxPrice = Some b" "book_inv b"
    "depth_of b = (\<lambda>_ _. [])" "bk_min_price b = kDefaultMinPrice" "bk_max_price b = kDefaultMaxPrice" "slab_capacity b = 8192"
    using OrderBook_new_ok [of kEnvBookCapacity kDefaultMinPrice kDefaultMaxPrice]
    by (auto simp: kEnvBookCapacity_def kDefaultMinPrice_def kDefaultMaxPrice_def)
  then have w: "prewarm kEnvMinPrewarmPx kEnvMaxPrewarmPx b = Some b"
    by (intro prewarm_ok) (simp_all add: kDefaultMinPrice_def kDefaultMaxPrice_def kEnvMinPrewarmPx_def kEnvMaxPrewarmPx_def)
  define S0 where "S0 = \<lparr>en_parent_qty = (if parent \<noteq> 0 then parent else 1),
        en_horizon_steps = (if horizon \<noteq> 0 then horizon else 1),
        en_arrival_mid = mid,
        en_publisher = TelemetryPublisher_new b ring clock,
        en_rng = Xorshift64_nonzero seed, en_fused_seq = 1000000000, en_remaining = 0, en_qty_filled = 0,
        en_cash_from_fills = 0, en_step_idx = 0, en_done = False, en_next_id = 1, en_resting_ids = [],
        en_bg_ids = [], en_bg_birth = [], en_bg_head = 0, en_state_buf = replicate kEnvStateDim (f_lit fp 0)\<rparr>"
  have "market_inv inv sent 1 S0"
    using b assms by (simp add: S0_def market_inv_def TelemetryPublisher_new_def pub_audited_def pub_in_def book_in_def uncrossed_def
        small_bids_def tracks_def spec_resting_def)
  moreover have "en_parent_qty S0 \<noteq> 0" "en_horizon_steps S0 \<noteq> 0" "unat (en_horizon_steps S0) \<le> 2 ^ 30"
    using assms(3) by (simp_all add: S0_def)
  ultimately obtain S where S: "ResetInternal push clk S0 = Some S" "env_inv inv sent S" "fresh_episode S" "same_task S0 S"
    using ResetInternal_ok [of 1 S0 clk] by blast
  then have "SimEnv_new fp push clk ring clock parent horizon seed mid = Some (WriteState fp S)"
    using b(1) w by (simp add: SimEnv_new_def S0_def)
  with S show ?thesis by (simp add: same_task_def S0_def)
qed

lemma Step_ok:
  assumes S: "env_inv inv sent S" and a: "2 \<le> length action"
    and sized: "f_to_u64 fp (f_mul fp (std_clamp fp (action ! 0)) (f_of_u64 fp (en_remaining S))) = Some sized"
  shows "\<exists>r S'. Step fp push clk action S = Some (Inr r, S') \<and> env_inv inv sent S' \<and> en_state_buf S' = observation fp S'
    \<and> (if en_done S then S' = WriteState fp S
       else traded (if is_terminal S then en_remaining S else sized) (child_trades sent S S') S S'
         \<and> (\<exists>S1. background push clk S = Some S1
              \<and> worked fp (std_clamp fp (action ! 1)) (if is_terminal S then en_remaining S else sized) (child_trades sent S S') S1 S'))"
proof (cases "en_done S")
  case True
  then have "Step fp push clk action S = Some (Inr (f_lit fp 0), WriteState fp S)"
    using a by (simp add: Step_def StepImpl_def kEnvActionDim_def)
  then show ?thesis using True S by simp
next
  case False
  from StepImpl_ok [OF S False sized, of clk "std_clamp fp (action ! 1)"] obtain r S' where
    S': "StepImpl fp push clk (std_clamp fp (action ! 0)) (std_clamp fp (action ! 1)) S = Some (r, S')"
    "env_inv inv sent S'" "traded (if is_terminal S then en_remaining S else sized) (child_trades sent S S') S S'"
    "\<exists>S1. background push clk S = Some S1
       \<and> worked fp (std_clamp fp (action ! 1)) (if is_terminal S then en_remaining S else sized) (child_trades sent S S') S1 S'" by blast
  then have "Step fp push clk action S = Some (Inr r, WriteState fp S')"
    using a by (simp add: Step_def kEnvActionDim_def)
  then show ?thesis using S' False by (intro exI [of _ r] exI [of _ "WriteState fp S'"]) (auto simp: traded_def child_trades_def worked_def sells_def)
qed

end

end
