(* ===== verification/Sim_Env_Theorems.thy ===== *)
theory Sim_Env_Theorems imports Sim_Env_Correct begin

text \<open>
  The properties of \<^verbatim>\<open>SimEnv\<close> as the module builds it: its own ring of 2^16 slots, a
  relay thread into an in-memory sink, and any clock and schedule of the two threads.
\<close>

section \<open>The environment with its relay\<close>

definition env_push :: "(nat \<Rightarrow> nat) \<Rightarrow> (TelemetryEvent ring, InMemoryKdbLogger) EventRelay pusher" where
  "env_push sched = pipe_push sched TryPush TryPop InMemory_Log"

definition env_relay :: "TelemetryEvent \<Rightarrow> (TelemetryEvent ring, InMemoryKdbLogger) EventRelay" where
  "env_relay z = Start (EventRelay_new (SpscRing kEnvRingCapacity z) InMemory_new)"

type_synonym ('f, 'c) sim_env = "('f, 'c, (TelemetryEvent ring, InMemoryKdbLogger) EventRelay) SimEnv"

text \<open>The destructor: \<^verbatim>\<open>Stop\<close>, then \<^verbatim>\<open>Flush\<close>, then that of the member
  \<^verbatim>\<open>relay_\<close>.\<close>

definition SimEnv_destroy :: "('f, 'c) sim_env \<Rightarrow> (TelemetryEvent ring, InMemoryKdbLogger) EventRelay option" where
  "SimEnv_destroy S = do {
     R \<leftarrow> Stop TryPop InMemory_Log (tp_ring (en_publisher S));
     EventRelay_destroy TryPop InMemory_Log (R\<lparr>er_logger := InMemory_Flush (er_logger R)\<rparr>)
   }"

text \<open>The class as Python sees it: arguments that are left out have defaults.\<close>

definition oep_env_SimEnv :: "('f, 'd) fpu \<Rightarrow> (nat \<Rightarrow> nat) \<Rightarrow> 'c clock_fn \<Rightarrow> TelemetryEvent \<Rightarrow> 'c \<Rightarrow> u64 option \<Rightarrow> u64 option
    \<Rightarrow> u64 option \<Rightarrow> Price option \<Rightarrow> ('f, 'c) sim_env option" where
  "oep_env_SimEnv fp sched clk z c0 parent_qty horizon_steps seed arrival_mid =
     SimEnv_new fp (env_push sched) clk (env_relay z) c0 (case_option 1000 id parent_qty) (case_option 32 id horizon_steps)
       (case_option 0xC0FFEEBABE id seed) (case_option 100 id arrival_mid)"

definition oep_env_reset :: "('f, 'd) fpu \<Rightarrow> (nat \<Rightarrow> nat) \<Rightarrow> 'c clock_fn \<Rightarrow> u64 option \<Rightarrow> ('f, 'c) sim_env \<Rightarrow> ('f, 'c) sim_env option" where
  "oep_env_reset fp sched clk seed S = Reset fp (env_push sched) clk (case_option 0xC0FFEEBABE id seed) S"

definition state_dim :: nat where "state_dim = kEnvStateDim"
definition action_dim :: nat where "action_dim = kEnvActionDim"

definition DroppedMessages :: "('f, 'c) sim_env \<Rightarrow> u64" where
  "DroppedMessages S = dropped_messages (er_ring (tp_ring (en_publisher S)))"

definition Processed :: "('f, 'c) sim_env \<Rightarrow> u64" where
  "Processed S = er_processed (tp_ring (en_publisher S))"

text \<open>Every state a client can bring about with a horizon of at most \<open>2 ^ 30\<close> steps and an
  arrival price of at most \<open>2 ^ 62\<close> in size. A call that is undefined has no result and no successor.\<close>

inductive env_reachable :: "('f, 'd) fpu \<Rightarrow> (nat \<Rightarrow> nat) \<Rightarrow> 'c clock_fn \<Rightarrow> ('f, 'c) sim_env \<Rightarrow> bool"
  for fp sched clk where
  env_new: "SimEnv_new fp (env_push sched) clk (env_relay z) c0 parent horizon seed mid = Some S \<Longrightarrow>
     unat horizon \<le> 2 ^ 30 \<Longrightarrow> - (2 ^ 62) \<le> mid \<Longrightarrow> mid \<le> 2 ^ 62 \<Longrightarrow> env_reachable fp sched clk S"
| env_reset: "env_reachable fp sched clk S \<Longrightarrow> Reset fp (env_push sched) clk seed S = Some S' \<Longrightarrow> env_reachable fp sched clk S'"
| env_step: "env_reachable fp sched clk S \<Longrightarrow> Step fp (env_push sched) clk action S = Some (r, S') \<Longrightarrow> env_reachable fp sched clk S'"

fun env_run :: "('f, 'd) fpu \<Rightarrow> (nat \<Rightarrow> nat) \<Rightarrow> 'c clock_fn \<Rightarrow> 'f list list \<Rightarrow> ('f, 'c) sim_env \<Rightarrow> ('f, 'c) sim_env option" where
  "env_run fp sched clk [] S = Some S"
| "env_run fp sched clk (a # as) S = do {
     (_, S1) \<leftarrow> Step fp (env_push sched) clk a S;
     env_run fp sched clk as S1
   }"

text \<open>The same with a ghost: what the children of the current episode sold as takers, in order.\<close>

inductive env_history :: "('f, 'd) fpu \<Rightarrow> (nat \<Rightarrow> nat) \<Rightarrow> 'c clock_fn \<Rightarrow> TelemetryEvent list \<Rightarrow> ('f, 'c) sim_env \<Rightarrow> bool"
  for fp sched clk where
  history_new: "SimEnv_new fp (env_push sched) clk (env_relay z) c0 parent horizon seed mid = Some S \<Longrightarrow>
     unat horizon \<le> 2 ^ 30 \<Longrightarrow> - (2 ^ 62) \<le> mid \<Longrightarrow> mid \<le> 2 ^ 62 \<Longrightarrow> env_history fp sched clk [] S"
| history_reset: "env_history fp sched clk ts S \<Longrightarrow> Reset fp (env_push sched) clk seed S = Some S' \<Longrightarrow> env_history fp sched clk [] S'"
| history_step: "env_history fp sched clk ts S \<Longrightarrow> Step fp (env_push sched) clk action S = Some (r, S') \<Longrightarrow>
     env_history fp sched clk (ts @ child_trades er_produced S S') S'"

lemma history_reachable: "env_history fp sched clk ts S \<Longrightarrow> env_reachable fp sched clk S"
  by (induction rule: env_history.induct) (auto intro: env_reachable.intros)

lemma reachable_history: "env_reachable fp sched clk S \<Longrightarrow> \<exists>ts. env_history fp sched clk ts S"
  by (induction rule: env_reachable.induct) (blast intro: env_history.intros)+

interpretation env_ring: recorded_ring "env_push sched" "memory_relay.pipe_inv [] 0" er_produced
  unfolding env_push_def by (rule memory_relay.pipe_recorded)

abbreviation relay_ok :: "(TelemetryEvent ring, InMemoryKdbLogger) EventRelay \<Rightarrow> bool" where
  "relay_ok \<equiv> memory_relay.pipe_inv [] 0"

lemma env_relay_ok: "relay_ok (env_relay z)" "er_produced (env_relay z) = []"
  using memory_relay.Start_pipe [of "SpscRing kEnvRingCapacity z" InMemory_new] new_ring [of 16 z, folded kEnvRingCapacity_def]
  by (simp_all add: env_relay_def InMemory_new_def Start_def EventRelay_new_def)

text \<open>A step that returns was sized.\<close>

lemma Step_sized:
  assumes "env_inv relay_ok er_produced S" "Step fp (env_push sched) clk action S = Some (r, S')" "2 \<le> length action" "\<not> en_done S"
  obtains sized where "f_to_u64 fp (f_mul fp (std_clamp fp (action ! 0)) (f_of_u64 fp (en_remaining S))) = Some sized"
proof -
  have "1 + 13 * unat (en_step_idx S) + 12 < 2 ^ 64" using assms(1) by (auto simp: env_inv_def account_inv_def)
  then obtain S1 where S1: "background (env_push sched) clk S = Some S1" "same_account S S1"
    using env_ring.background_ok [of "1 + 13 * unat (en_step_idx S)" S sched clk] assms(1) by (auto simp: env_inv_def)
  from assms(2-4) S1 that show thesis
    by (cases "f_to_u64 fp (f_mul fp (std_clamp fp (action ! 0)) (f_of_u64 fp (en_remaining S)))")
      (auto simp: Step_def StepImpl_def kEnvActionDim_def same_account_def split: bind_splits)
qed

lemma reachable_env_inv: "env_reachable fp sched clk S \<Longrightarrow> env_inv relay_ok er_produced S \<and> en_state_buf S = observation fp S"
proof (induction rule: env_reachable.induct)
  case (env_new z c0 parent horizon seed mid S)
  obtain S1 where "SimEnv_new fp (env_push sched) clk (env_relay z) c0 parent horizon seed mid = Some S1" "env_inv relay_ok er_produced S1"
    using env_ring.SimEnv_new_ok [OF env_relay_ok env_new(2-4), of fp sched clk z c0 parent seed] by blast
  with env_new(1) show ?case by (auto simp: SimEnv_new_def split: bind_splits)
next
  case (env_reset S seed S')
  then show ?case using env_ring.Reset_ok [of S fp sched clk seed] by auto
next
  case (env_step S action r S')
  then have S: "env_inv relay_ok er_produced S" "en_state_buf S = observation fp S" by auto
  consider "length action < 2" | "2 \<le> length action" "en_done S" | "2 \<le> length action" "\<not> en_done S" by linarith
  then show ?case
  proof cases
    case 1
    then show ?thesis using env_step(2) S by (auto simp: Step_def kEnvActionDim_def)
  next
    case 2
    then have "S' = WriteState fp S" using env_step(2) by (auto simp: Step_def StepImpl_def kEnvActionDim_def)
    then show ?thesis using S by simp
  next
    case 3
    obtain sized where "f_to_u64 fp (f_mul fp (std_clamp fp (action ! 0)) (f_of_u64 fp (en_remaining S))) = Some sized"
      by (rule Step_sized [OF S(1) env_step(2) 3])
    from env_ring.Step_ok [OF S(1) 3(1) this, of sched clk] env_step(2) show ?thesis by auto
  qed
qed

section \<open>Correctness\<close>

text \<open>C34: an episode starts clean. From any state a client can reach, \<^verbatim>\<open>Reset\<close>
  returns with an empty book (every resting order, synthetic or the agent's, was among the tracked
  ids), the whole parent left, nothing filled, no cash, and the generator at the seed, never at zero.\<close>

theorem env_reset_clean:
  assumes "env_reachable fp sched clk S"
  shows "\<exists>S'. Reset fp (env_push sched) clk seed S = Some S' \<and> env_reachable fp sched clk S'
    \<and> book_depth (en_publisher S') = (\<lambda>_ _. []) \<and> open_order_count (en_book S') = 0
    \<and> Remaining S' = en_parent_qty S \<and> QtyFilled S' = 0 \<and> en_cash_from_fills S' = 0 \<and> StepIndex S' = 0 \<and> \<not> Done S'
    \<and> en_rng S' = Xorshift64_nonzero seed \<and> State S' = observation fp S'"
proof -
  obtain S' where S': "Reset fp (env_push sched) clk seed S = Some S'" "fresh_episode S'" "same_task S S'"
    "en_rng S' = Xorshift64_nonzero seed" "en_state_buf S' = observation fp S'"
    using env_ring.Reset_ok [of S fp sched clk seed] reachable_env_inv [OF assms] by auto
  with env_reset [OF assms S'(1)] show ?thesis
    by (simp add: fresh_episode_def same_task_def Remaining_def QtyFilled_def StepIndex_def Done_def State_def)
qed

lemma small_env:
  "\<exists>S :: (real, u64) sim_env. SimEnv_new exact (env_push (\<lambda>_. 1)) (\<lambda>c. (c, c + 1)) (env_relay sample_event) 0 10 2 7 100 = Some S
     \<and> env_reachable exact (\<lambda>_. 1) (\<lambda>c. (c, c + 1)) S \<and> fresh_episode S \<and> en_parent_qty S = 10 \<and> en_horizon_steps S = 2"
proof -
  obtain S :: "(real, u64) sim_env" where
    S: "SimEnv_new exact (env_push (\<lambda>_. 1)) (\<lambda>c. (c, c + 1)) (env_relay sample_event) 0 10 2 7 100 = Some S"
      "fresh_episode S" "en_parent_qty S = 10" "en_horizon_steps S = 2"
    using env_ring.SimEnv_new_ok [OF env_relay_ok, of 2 100 exact "\<lambda>_. 1" "\<lambda>c :: u64. (c, c + 1)" sample_event 0 10 7] by auto
  then have "env_reachable exact (\<lambda>_. 1) (\<lambda>c. (c, c + 1)) S" by (intro env_new [OF S(1)]) simp_all
  with S show ?thesis by blast
qed

theorem env_reset_clean_witness:
  "\<exists>S S' :: (real, u64) sim_env. Reset exact (env_push (\<lambda>_. 1)) (\<lambda>c. (c, c + 1)) 0 S = Some S'
     \<and> Remaining S' = 10 \<and> en_rng S' = 1"
proof -
  obtain S :: "(real, u64) sim_env" where S: "env_reachable exact (\<lambda>_. 1) (\<lambda>c. (c, c + 1)) S" "en_parent_qty S = 10"
    using small_env by blast
  from env_reset_clean [OF S(1), of 0] S(2) show ?thesis by (auto simp: Xorshift64_nonzero_def)
qed

text \<open>With a child of at most what is left, nothing is cut off.\<close>

lemma step_conserves:
  assumes "one_step k c S S'" "k \<le> unat (if is_terminal S then en_remaining S else sized)" "sized \<le> en_remaining S"
  shows "en_remaining S' + en_qty_filled S' = en_remaining S + en_qty_filled S"
proof -
  have "k \<le> unat (en_remaining S)" using assms(2,3) by (auto simp: word_le_nat_alt split: if_splits)
  then have "unat (en_remaining S') + unat (en_qty_filled S') = unat (en_remaining S) + unat (en_qty_filled S)"
    using assms(1) by (simp add: one_step_def)
  from arg_cong [OF this, of "of_nat :: nat \<Rightarrow> u64"] show ?thesis by simp
qed

text \<open>C35: the account of one step, against the tape. When the child's size converts to an integer,
  \<^verbatim>\<open>Step\<close> returns. After \<^verbatim>\<open>done()\<close> it publishes no trade of a child and changes
  nothing. Before, it advances by one step, and the account moves by exactly the trades \<open>ts\<close> that the
  step's child made as the taker, as the published fill events say: the quantity filled grows by the
  sum of their quantities, the cash by the sum of price times quantity, and what is left falls by that
  quantity (cut off at zero). These trades are those of a sell order of the child's size, at the price
  its aggression asks for, in the book that the background flow left, and the book afterwards is what
  that order leaves (\<open>worked\<close>); the child's size is the action's share of what was left, and all of it
  at the last step. The episode is over exactly when nothing is left or the horizon is
  reached. The book stays well formed and uncrossed. (A child that rests and is hit later is the maker
  of that trade; the account does not see it.)\<close>

theorem env_step_accounts:
  assumes "env_reachable fp sched clk S" "2 \<le> length action"
    and "f_to_u64 fp (f_mul fp (std_clamp fp (action ! 0)) (f_of_u64 fp (en_remaining S))) = Some sized"
  shows "\<exists>r S' ts. Step fp (env_push sched) clk action S = Some (Inr r, S') \<and> env_reachable fp sched clk S'
    \<and> book_inv (en_book S') \<and> uncrossed (book_depth (en_publisher S')) \<and> ts = child_trades er_produced S S'
    \<and> (if Done S then S' = WriteState fp S \<and> ts = []
       else StepIndex S' = StepIndex S + 1
         \<and> unat (QtyFilled S') = unat (QtyFilled S) + trades_qty ts
         \<and> en_cash_from_fills S' = en_cash_from_fills S + trades_cash ts
         \<and> unat (Remaining S') = unat (Remaining S) - trades_qty ts
         \<and> (\<exists>S1 q. background (env_push sched) clk S = Some S1
              \<and> q = (if StepIndex S + 1 = en_horizon_steps S then Remaining S else sized)
              \<and> worked fp (std_clamp fp (action ! 1)) q ts S1 S' \<and> trades_qty ts \<le> unat q)
         \<and> (\<forall>e\<in>set ts. te_side e = kSell)
         \<and> unat (Remaining S') = unat (en_parent_qty S) - unat (QtyFilled S')
         \<and> (Done S' \<longleftrightarrow> Remaining S' = 0 \<or> StepIndex S' = en_horizon_steps S)
         \<and> (sized \<le> Remaining S \<longrightarrow> Remaining S' + QtyFilled S' = Remaining S + QtyFilled S))"
proof -
  have S: "env_inv relay_ok er_produced S" using reachable_env_inv [OF assms(1)] by blast
  obtain r S' where S': "Step fp (env_push sched) clk action S = Some (Inr r, S')" "env_inv relay_ok er_produced S'"
    "if en_done S then S' = WriteState fp S
     else traded (if is_terminal S then en_remaining S else sized) (child_trades er_produced S S') S S'
       \<and> (\<exists>S1. background (env_push sched) clk S = Some S1
            \<and> worked fp (std_clamp fp (action ! 1)) (if is_terminal S then en_remaining S else sized) (child_trades er_produced S S') S1 S')"
    using env_ring.Step_ok [OF S assms(2,3), of sched clk] by blast
  have B: "book_inv (en_book S')" "uncrossed (book_depth (en_publisher S'))" and A: "account_inv S" "account_inv S'"
    using S S'(2) by (auto simp: env_inv_def market_inv_def pub_audited_def pub_in_def book_in_def)
  have R: "env_reachable fp sched clk S'" by (rule env_step [OF assms(1) S'(1)])
  show ?thesis
  proof (cases "en_done S")
    case True
    then show ?thesis using S' B R by (auto simp: Done_def child_trades_def trades_of_def)
  next
    case False
    define ts where "ts = child_trades er_produced S S'"
    have t: "one_step (trades_qty ts) (trades_cash ts) S S'" "\<forall>e\<in>set ts. te_side e = kSell"
      "trades_qty ts \<le> unat (if is_terminal S then en_remaining S else sized)"
      "\<exists>S1. background (env_push sched) clk S = Some S1
         \<and> worked fp (std_clamp fp (action ! 1)) (if is_terminal S then en_remaining S else sized) ts S1 S'"
      using S'(3) False by (auto simp: traded_def ts_def)
    have inc: "unat (en_step_idx S + 1) = unat (en_step_idx S) + 1"
      using t(1) A(2) unat_inc [of "en_step_idx S"] by (simp add: one_step_def account_inv_def)
    have step: "en_step_idx S' = en_step_idx S + 1" using t(1) inc by (simp add: one_step_def word_unat_eq_iff)
    have last: "is_terminal S \<longleftrightarrow> en_step_idx S + 1 = en_horizon_steps S"
      using A(1) False inc by (auto simp: is_terminal_def account_inv_def word_le_nat_alt word_unat_eq_iff)
    have over: "en_done S' \<longleftrightarrow> en_remaining S' = 0 \<or> en_step_idx S' = en_horizon_steps S"
      using A(2) t(1) by (auto simp: account_inv_def one_step_def same_task_def word_unat_eq_iff)
    note sum = step_conserves [OF t(1,3)]
    have left: "unat (en_remaining S') = unat (en_parent_qty S) - unat (en_qty_filled S')"
      using A(2) t(1) by (simp add: account_inv_def one_step_def same_task_def)
    show ?thesis
      using S'(1) R B False step over sum left t(1,2) t(3,4) [unfolded last]
      by (intro exI [of _ r] exI [of _ S'] exI [of _ ts])
        (auto simp: ts_def Done_def StepIndex_def QtyFilled_def Remaining_def one_step_def)
  qed
qed

theorem env_step_accounts_witness:
  "\<exists>(S :: (real, u64) sim_env) S' r. Step exact (env_push (\<lambda>_. 1)) (\<lambda>c. (c, c + 1)) [1 / 2, 1] S = Some (Inr r, S')
     \<and> StepIndex S' = 1 \<and> Remaining S' + QtyFilled S' = 10
     \<and> unat (QtyFilled S') = trades_qty (child_trades er_produced S S')"
proof -
  obtain S :: "(real, u64) sim_env" where S: "env_reachable exact (\<lambda>_. 1) (\<lambda>c. (c, c + 1)) S" "fresh_episode S" "en_parent_qty S = 10"
    using small_env by blast
  have "f_to_u64 exact (f_mul exact (std_clamp exact ([1 / 2, 1] ! 0)) (f_of_u64 exact (en_remaining S))) = Some 5"
    using S(2,3) by (simp add: fresh_episode_def std_clamp_def truncate_u64_def)
  from env_step_accounts [OF S(1) _ this] S(2,3) show ?thesis
    by (fastforce simp: fresh_episode_def Done_def StepIndex_def Remaining_def QtyFilled_def)
qed

section \<open>The end of an episode\<close>

text \<open>Every size of a child up to the parent converts.\<close>

definition sizes_defined :: "('f, 'd) fpu \<Rightarrow> 'f \<Rightarrow> u64 \<Rightarrow> bool" where
  "sizes_defined fp x Q \<longleftrightarrow> (\<forall>r. unat r \<le> unat Q \<longrightarrow> f_to_u64 fp (f_mul fp (std_clamp fp x) (f_of_u64 fp r)) \<noteq> None)"

lemma exact_sized:
  "\<exists>q. f_to_u64 exact (f_mul exact (std_clamp exact x) (f_of_u64 exact r)) = Some q \<and> unat q \<le> unat r"
proof -
  define c where "c = std_clamp exact x"
  define n where "n = unat r"
  have c: "0 \<le> c" "c \<le> 1" by (auto simp: c_def std_clamp_def)
  have "n < 2 ^ 64" using unsigned_less [of r] by (simp add: n_def)
  then have "0 \<le> c * real n" "c * real n < 2 ^ 64" and le: "c * real n \<le> real n"
    using c by (auto simp: mult_left_le_one_le intro: le_less_trans [of _ "real n"])
  from truncate_u64_nat [OF this(1,2)] obtain w where "truncate_u64 (c * real n) = Some w" "unat w = nat \<lfloor>c * real n\<rfloor>" by blast
  moreover from this have "unat w \<le> n" using le by (simp add: floor_le_iff nat_le_iff)
  ultimately show ?thesis by (simp add: c_def n_def del: real_unat)
qed

lemma exact_sizes_defined: "sizes_defined exact x Q"
  using exact_sized by (fastforce simp: sizes_defined_def)

lemma env_run_ok:
  assumes "env_inv relay_ok er_produced S" "\<forall>a\<in>set as. 2 \<le> length a \<and> sizes_defined fp (a ! 0) (en_parent_qty S)"
  shows "\<exists>S'. env_run fp sched clk as S = Some S' \<and> env_inv relay_ok er_produced S' \<and> same_task S S' \<and> (en_done S \<longrightarrow> en_done S')
    \<and> (\<not> en_done S' \<longrightarrow> unat (en_step_idx S') = unat (en_step_idx S) + length as)"
  using assms
proof (induction "as" arbitrary: S)
  case (Cons a "as")
  have r: "unat (en_remaining S) \<le> unat (en_parent_qty S)" using Cons.prems(1) by (simp add: env_inv_def account_inv_def)
  then obtain sized where "f_to_u64 fp (f_mul fp (std_clamp fp (a ! 0)) (f_of_u64 fp (en_remaining S))) = Some sized"
    using Cons.prems(2) by (auto simp: sizes_defined_def)
  then obtain x S1 where
    S1: "Step fp (env_push sched) clk a S = Some (Inr x, S1)" "env_inv relay_ok er_produced S1"
      "if en_done S then S1 = WriteState fp S else \<exists>filled cash. one_step filled cash S S1"
    using env_ring.Step_ok [OF Cons.prems(1), of a fp sized sched clk] Cons.prems(2) by (cases "en_done S") (auto simp: traded_def)
  have t: "same_task S S1" using S1(3) by (auto simp: one_step_def same_task_def split: if_splits)
  then obtain S' where S': "env_run fp sched clk as S1 = Some S'" "env_inv relay_ok er_produced S'" "same_task S1 S'"
    "en_done S1 \<longrightarrow> en_done S'" "\<not> en_done S' \<longrightarrow> unat (en_step_idx S') = unat (en_step_idx S1) + length as"
    using Cons.IH [OF S1(2)] Cons.prems(2) by (auto simp: same_task_def)
  have "en_done S'" if "en_done S" using that S1(3) S'(4) by simp
  moreover have "unat (en_step_idx S') = unat (en_step_idx S) + Suc (length as)" if nd: "\<not> en_done S'"
    using S1(3) S'(4,5) nd by (auto simp: one_step_def split: if_splits)
  ultimately show ?case using S1(1) S' t by (auto simp: same_task_def)
qed (simp add: same_task_def)

text \<open>C36: every episode ends. From any reachable state, as many actions as there are steps to the
  horizon bring the environment to \<^verbatim>\<open>done()\<close>, whatever the actions are, provided
  each size converts to an integer; it stops because the parent is sold or because the horizon is
  reached, and never steps past it.\<close>

theorem env_episode_ends:
  assumes "env_reachable fp sched clk S"
    and "\<forall>a\<in>set acts. 2 \<le> length a \<and> sizes_defined fp (a ! 0) (en_parent_qty S)"
    and "unat (en_horizon_steps S) \<le> unat (StepIndex S) + length acts"
  shows "\<exists>S'. env_run fp sched clk acts S = Some S' \<and> Done S' \<and> StepIndex S' \<le> en_horizon_steps S
    \<and> (Remaining S' = 0 \<or> StepIndex S' = en_horizon_steps S)"
proof -
  obtain S' where S': "env_run fp sched clk acts S = Some S'" "env_inv relay_ok er_produced S'" "same_task S S'"
    "\<not> en_done S' \<longrightarrow> unat (en_step_idx S') = unat (en_step_idx S) + length acts"
    using env_run_ok [of S acts fp sched clk] assms(2) reachable_env_inv [OF assms(1)] by blast
  have d: "en_done S' \<longleftrightarrow> en_remaining S' = 0 \<or> unat (en_horizon_steps S) \<le> unat (en_step_idx S')"
    and le: "unat (en_step_idx S') \<le> unat (en_horizon_steps S)"
    using S'(2,3) by (auto simp: env_inv_def account_inv_def same_task_def)
  have "en_done S'" using d S'(4) assms(3) by (auto simp: StepIndex_def)
  then show ?thesis
    using S'(1) d le by (auto simp: Done_def StepIndex_def Remaining_def word_le_nat_alt word_unat_eq_iff)
qed

theorem env_episode_ends_witness:
  "\<exists>S S' :: (real, u64) sim_env. env_run exact (\<lambda>_. 1) (\<lambda>c. (c, c + 1)) [[1 / 4, 0], [0, 0]] S = Some S' \<and> Done S'
     \<and> en_horizon_steps S = 2"
proof -
  obtain S :: "(real, u64) sim_env" where S: "env_reachable exact (\<lambda>_. 1) (\<lambda>c. (c, c + 1)) S" "en_horizon_steps S = 2"
    using small_env by blast
  from env_episode_ends [OF S(1), of "[[1 / 4, 0], [0, 0]]"] S(2) exact_sizes_defined show ?thesis by auto
qed

section \<open>The observation\<close>

lemma exact_conserves:
  "env_reachable exact sched clk S \<Longrightarrow> unat (en_remaining S) + unat (en_qty_filled S) = unat (en_parent_qty S)"
proof (induction rule: env_reachable.induct)
  case (env_new z c0 parent horizon seed mid S)
  obtain S1 where "SimEnv_new exact (env_push sched) clk (env_relay z) c0 parent horizon seed mid = Some S1" "fresh_episode S1"
    using env_ring.SimEnv_new_ok [OF env_relay_ok env_new(2-4), of exact sched clk z c0 parent seed] by blast
  with env_new(1) show ?case by (simp add: fresh_episode_def)
next
  case (env_reset S seed S')
  then show ?case using env_ring.Reset_ok [of S exact sched clk seed] reachable_env_inv
    by (fastforce simp: fresh_episode_def same_task_def)
next
  case (env_step S action r S')
  have S: "env_inv relay_ok er_produced S" using reachable_env_inv [OF env_step(1)] by blast
  show ?case
  proof (cases "length action < 2")
    case True
    then show ?thesis using env_step by (auto simp: Step_def kEnvActionDim_def)
  next
    case False
    then have a: "2 \<le> length action" by simp
    obtain q where q: "f_to_u64 exact (f_mul exact (std_clamp exact (action ! 0)) (f_of_u64 exact (en_remaining S))) = Some q"
      "unat q \<le> unat (en_remaining S)" using exact_sized by blast
    have "if en_done S then S' = WriteState exact S
       else traded (if is_terminal S then en_remaining S else q) (child_trades er_produced S S') S S'"
      using env_ring.Step_ok [OF S a q(1), of sched clk] env_step(2) by auto
    then show ?thesis using env_step(3) q(2) by (auto simp: traded_def one_step_def same_task_def split: if_splits)
  qed
qed

lemma reachable_touch:
  assumes "env_reachable fp sched clk S" "has_bid (en_book S)" "has_ask (en_book S)"
  shows "0 \<le> best_bid (en_book S)" "best_bid (en_book S) < best_ask (en_book S)"
proof -
  have b: "book_inv (en_book S)" "uncrossed (book_depth (en_publisher S))" "bk_min_price (en_book S) = 0"
    using reachable_env_inv [OF assms(1)] by (auto simp: env_inv_def market_inv_def pub_audited_def pub_in_def book_in_def kDefaultMinPrice_def)
  show "best_bid (en_book S) < best_ask (en_book S)" by (rule uncrossed_best [OF b(1,2) assms(2,3)])
  show "0 \<le> best_bid (en_book S)"
    using best_populated_prices(1) [OF b(1) assms(2)] depth_band [OF b(1)] b(3) by (force simp: in_band_def)
qed

text \<open>The account is that of the trades of the episode.\<close>

lemma history_account:
  "env_history fp sched clk ts S \<Longrightarrow> unat (en_qty_filled S) = trades_qty ts \<and> en_cash_from_fills S = trades_cash ts"
proof (induction rule: env_history.induct)
  case (history_new z c0 parent horizon seed mid S)
  obtain S1 where "SimEnv_new fp (env_push sched) clk (env_relay z) c0 parent horizon seed mid = Some S1" "fresh_episode S1"
    using env_ring.SimEnv_new_ok [OF env_relay_ok history_new(2-4), of fp sched clk z c0 parent seed] by blast
  with history_new(1) show ?case by (simp add: fresh_episode_def)
next
  case (history_reset ts S seed S')
  then show ?case using env_ring.Reset_ok [of S fp sched clk seed] reachable_env_inv [OF history_reachable]
    by (fastforce simp: fresh_episode_def)
next
  case (history_step ts S action r S')
  have S: "env_inv relay_ok er_produced S" using reachable_env_inv [OF history_reachable [OF history_step(1)]] by blast
  consider "length action < 2 \<or> en_done S" | "2 \<le> length action" "\<not> en_done S" by linarith
  then show ?case
  proof cases
    case 1
    then have "S' = S \<or> S' = WriteState fp S"
      using history_step(2) by (auto simp: Step_def StepImpl_def kEnvActionDim_def split: if_splits)
    then show ?thesis using history_step(3) by (auto simp: child_trades_def trades_of_def)
  next
    case 2
    obtain sized where "f_to_u64 fp (f_mul fp (std_clamp fp (action ! 0)) (f_of_u64 fp (en_remaining S))) = Some sized"
      by (rule Step_sized [OF S history_step(2) 2])
    from env_ring.Step_ok [OF S 2(1) this, of sched clk] history_step(2,3) 2(2) show ?thesis
      by (auto simp: traded_def one_step_def)
  qed
qed

text \<open>C37: the observation, in exact arithmetic, against the tape. In every reachable state, with \<open>ts\<close> the
  trades its children made as takers since the episode began: the share filled is their quantity over
  the parent's, the share left is the rest to one, and the price feature is their average price over
  the arrival price (1 before the first trade). The touch prices are those of the
  book. Inventory and time to go lie in the unit interval and one of them is zero exactly when the episode is over; the spread is never negative, and when it is
  positive the mid price lies strictly between the touch prices. (Trades in which a child's resting
  order was the maker are in none of these numbers.)\<close>

theorem env_observation_exact:
  assumes "env_history exact sched clk ts S"
  shows "length (State S) = 8 \<and> State S ! 0 + State S ! 6 = 1
    \<and> State S ! 1 = 1 - real (unat (StepIndex S)) / real (unat (en_horizon_steps S))
    \<and> State S ! 2 = (if has_bid (en_book S) then real_of_int (best_bid (en_book S)) else 0)
    \<and> State S ! 3 = (if has_ask (en_book S) then real_of_int (best_ask (en_book S)) else 0)
    \<and> State S ! 6 = real (trades_qty ts) / real (unat (en_parent_qty S))
    \<and> State S ! 7 = (if trades_qty ts = 0 \<or> en_arrival_mid S = 0 then 1
         else real_of_int (trades_cash ts) / (real (trades_qty ts) * real_of_int (en_arrival_mid S)))
    \<and> 0 \<le> State S ! 0 \<and> 0 \<le> State S ! 6 \<and> 0 \<le> State S ! 1 \<and> State S ! 1 \<le> 1
    \<and> (Done S \<longleftrightarrow> State S ! 0 = 0 \<or> State S ! 1 = 0)
    \<and> 0 \<le> State S ! 4 \<and> (0 < State S ! 4 \<longrightarrow> State S ! 2 < State S ! 5 \<and> State S ! 5 < State S ! 3)"
proof -
  note reach = history_reachable [OF assms]
  have A: "account_inv S" and o: "State S = observation exact S"
    using reachable_env_inv [OF reach] by (auto simp: env_inv_def State_def)
  let ?Q = "real (unat (en_parent_qty S))" and ?T = "real (unat (en_horizon_steps S))"
  let ?q = "real (unat (en_remaining S))" and ?f = "real (unat (en_qty_filled S))" and ?t = "real (unat (en_step_idx S))"
  have sum: "?q + ?f = ?Q" using exact_conserves [OF reach] by (metis of_nat_add)
  have nz: "en_parent_qty S \<noteq> 0" "en_horizon_steps S \<noteq> 0" using A by (simp_all add: account_inv_def)
  then have pos: "0 < ?Q" "0 < ?T" by (simp_all only: of_nat_0_less_iff unat_gt_0 not_False_eq_True)
  have t: "?t \<le> ?T" using A by (simp add: account_inv_def del: real_unat)
  have over: "en_done S \<longleftrightarrow> ?q = 0 \<or> ?t = ?T"
    using A by (auto simp: account_inv_def unat_eq_0 simp del: real_unat)
  have st: "State S ! 0 = ?q / ?Q" "State S ! 1 = 1 - ?t / ?T" "State S ! 6 = ?f / ?Q" "length (State S) = 8"
    using nz(2) by (simp_all add: o observation_def Let_def del: real_unat)
  have "State S ! 0 + State S ! 6 = 1" "0 \<le> State S ! 0" "0 \<le> State S ! 6" "0 \<le> State S ! 1" "State S ! 1 \<le> 1"
    "Done S \<longleftrightarrow> State S ! 0 = 0 \<or> State S ! 1 = 0"
    unfolding st using sum pos t over by (auto simp: Done_def field_simps simp del: real_unat)
  moreover have "0 \<le> State S ! 4 \<and> (0 < State S ! 4 \<longrightarrow> State S ! 2 < State S ! 5 \<and> State S ! 5 < State S ! 3)"
    using reachable_touch [OF reach] by (auto simp: o observation_def Let_def of_rat_divide)
  moreover have acc: "unat (en_qty_filled S) = trades_qty ts" "en_cash_from_fills S = trades_cash ts"
    using history_account [OF assms] by simp_all
  then have "en_qty_filled S = 0 \<longleftrightarrow> trades_qty ts = 0" by (simp add: unat_eq_0 flip: acc(1))
  then have "State S ! 7 = (if trades_qty ts = 0 \<or> en_arrival_mid S = 0 then 1
      else real_of_int (trades_cash ts) / (real (trades_qty ts) * real_of_int (en_arrival_mid S)))"
    by (simp add: o observation_def Let_def acc del: real_unat)
  moreover have "State S ! 2 = (if has_bid (en_book S) then real_of_int (best_bid (en_book S)) else 0)"
    "State S ! 3 = (if has_ask (en_book S) then real_of_int (best_ask (en_book S)) else 0)"
    by (simp_all add: o observation_def Let_def)
  ultimately show ?thesis using st(2,3,4) acc(1) by (simp add: StepIndex_def)
qed

theorem env_observation_exact_witness:
  "\<exists>S :: (real, u64) sim_env. en_parent_qty S = 10 \<and> State S ! 0 + State S ! 6 = 1 \<and> length (State S) = 8"
proof -
  obtain S :: "(real, u64) sim_env" where S: "env_reachable exact (\<lambda>_. 1) (\<lambda>c. (c, c + 1)) S" "en_parent_qty S = 10"
    using small_env by blast
  obtain ts where "env_history exact (\<lambda>_. 1) (\<lambda>c. (c, c + 1)) ts S" using reachable_history [OF S(1)] ..
  from env_observation_exact [OF this] S(2) show ?thesis by blast
qed

section \<open>Teardown\<close>

text \<open>C38: the destructor loses nothing. From any reachable state \<^verbatim>\<open>~SimEnv\<close>
  returns: the relay thread is joined, the ring is empty, the sink holds the rows of the accepted
  events in order, and \<^verbatim>\<open>processed() + dropped_messages()\<close> is the number of
  events the environment published. The published events, those of the publisher and those of
  the fused observer together, are an audit trail of the environment's whole life, resets included:
  all are well formed, and replaying them from empty queues gives the queues of its book.\<close>

theorem env_teardown_complete:
  assumes "env_reachable fp sched clk S"
  shows "\<exists>R es. SimEnv_destroy S = Some R \<and> es = er_produced R \<and> \<not> er_running R \<and> items (er_ring R) = []
    \<and> subseq (er_accepted R) es \<and> im_rows (er_logger R) = map FormatCsvRow (er_accepted R)
    \<and> er_processed R + dropped_messages (er_ring R) = of_nat (length es)
    \<and> fold replay es (\<lambda>_ _. []) = book_depth (en_publisher S)
    \<and> (\<forall>e\<in>set es. event_wf kDefaultMinPrice kDefaultMaxPrice e)"
proof -
  have P: "pub_audited relay_ok er_produced kDefaultMinPrice kDefaultMaxPrice 8192 (en_publisher S)"
    using reachable_env_inv [OF assms] by (simp add: env_inv_def market_inv_def)
  from memory_relay.Stop_ok [OF pub_auditedD(3) [OF P]] P show ?thesis
    by (auto simp: SimEnv_destroy_def InMemory_Flush_def add.commute pub_audited_def audited_def)
qed

theorem env_teardown_complete_witness:
  "\<exists>(S :: (real, u64) sim_env) R. en_parent_qty S = 10 \<and> SimEnv_destroy S = Some R \<and> items (er_ring R) = []
     \<and> fold replay (er_produced R) (\<lambda>_ _. []) = book_depth (en_publisher S)"
proof -
  obtain S :: "(real, u64) sim_env" where S: "env_reachable exact (\<lambda>_. 1) (\<lambda>c. (c, c + 1)) S" "en_parent_qty S = 10"
    using small_env by blast
  from env_teardown_complete [OF S(1)] S(2) show ?thesis by blast
qed

end
