(* ===== verification/Strategy.thy ===== *)
theory Strategy imports Level_Fifo begin

text \<open>
  The strategy interface of \<^verbatim>\<open>cpp/exec/strategy.hpp\<close>. The CRTP base forwards
  every call to the derived class; a derived class is here a record \<open>D\<close> of its
  \<^verbatim>\<open>...Impl\<close> functions and the base's members are functions of that record. The
  locale \<open>schedule\<close> states what every execution schedule promises, a table that runs the parent
  quantity down to zero, and proves what its clients need once: the children sum to the parent
  without wrap-around, and driving all steps through a publisher submits exactly the parent.
\<close>

section \<open>The CRTP vocabulary\<close>

record 's strategy =
  ChildQuantityImpl :: "'s \<Rightarrow> nat \<Rightarrow> Quantity option"
  RemainingAfterStepImpl :: "'s \<Rightarrow> nat \<Rightarrow> Quantity option"
  side_impl :: "'s \<Rightarrow> Side"
  parent_qty_impl :: "'s \<Rightarrow> Quantity"
  num_steps_impl :: "'s \<Rightarrow> nat"

definition ChildQuantity :: "'s strategy \<Rightarrow> 's \<Rightarrow> nat \<Rightarrow> Quantity option" where
  "ChildQuantity D S j = ChildQuantityImpl D S j"

definition RemainingAfterStep :: "'s strategy \<Rightarrow> 's \<Rightarrow> nat \<Rightarrow> Quantity option" where
  "RemainingAfterStep D S j = RemainingAfterStepImpl D S j"

definition side :: "'s strategy \<Rightarrow> 's \<Rightarrow> Side" where "side D S = side_impl D S"
definition parent_qty :: "'s strategy \<Rightarrow> 's \<Rightarrow> Quantity" where "parent_qty D S = parent_qty_impl D S"
definition num_steps :: "'s strategy \<Rightarrow> 's \<Rightarrow> nat" where "num_steps D S = num_steps_impl D S"

text \<open>\<open>add\<close> is the publisher's \<^verbatim>\<open>AddLimit\<close>.\<close>

definition SubmitStep :: "'s strategy \<Rightarrow> (OrderId \<Rightarrow> Side \<Rightarrow> Price \<Rightarrow> Quantity \<Rightarrow> 'p \<Rightarrow> (bool \<times> 'p) option)
    \<Rightarrow> 's \<Rightarrow> nat \<Rightarrow> OrderId \<Rightarrow> Price \<Rightarrow> 'p \<Rightarrow> (bool \<times> 'p) option" where
  "SubmitStep D add S j i px P = do {
     q \<leftarrow> ChildQuantity D S j;
     if q = 0 then Some (True, P) else add i (side D S) px q P
   }"

text \<open>A client that drives the whole schedule: step \<open>j\<close> with the id and price \<open>order j\<close>.\<close>

definition submit_all :: "'s strategy \<Rightarrow> (OrderId \<Rightarrow> Side \<Rightarrow> Price \<Rightarrow> Quantity \<Rightarrow> 'p \<Rightarrow> (bool \<times> 'p) option)
    \<Rightarrow> (nat \<Rightarrow> OrderId \<times> Price) \<Rightarrow> 's \<Rightarrow> 'p \<Rightarrow> 'p option" where
  "submit_all D add order S P = for_range 0 (num_steps D S)
     (\<lambda>j P. map_option snd (SubmitStep D add S j (fst (order j)) (snd (order j)) P)) P"

text \<open>A publisher that only writes down what it is asked, for statements on what is submitted.\<close>

type_synonym submission = "OrderId \<times> Side \<times> Price \<times> Quantity"

definition note_order :: "OrderId \<Rightarrow> Side \<Rightarrow> Price \<Rightarrow> Quantity \<Rightarrow> submission list \<Rightarrow> (bool \<times> submission list) option" where
  "note_order i s px q L = Some (True, L @ [(i, s, px, q)])"

section \<open>What a schedule promises\<close>

locale schedule =
  fixes D :: "'s strategy" and complete :: "'s \<Rightarrow> bool"
  assumes starts_full: "complete S \<Longrightarrow> RemainingAfterStep D S 0 = Some (parent_qty D S)"
    and ends_empty: "complete S \<Longrightarrow> RemainingAfterStep D S (num_steps D S) = Some 0"
    and steps_down: "complete S \<Longrightarrow> j < num_steps D S \<Longrightarrow>
       \<exists>r q. RemainingAfterStep D S j = Some r \<and> ChildQuantity D S j = Some q \<and> q \<le> r
         \<and> RemainingAfterStep D S (Suc j) = Some (r - q)"
begin

definition child :: "'s \<Rightarrow> nat \<Rightarrow> Quantity" where "child S j = the (ChildQuantity D S j)"
definition left :: "'s \<Rightarrow> nat \<Rightarrow> Quantity" where "left S j = the (RemainingAfterStep D S j)"

lemma child_is: "complete S \<Longrightarrow> j < num_steps D S \<Longrightarrow> ChildQuantity D S j = Some (child S j)"
  using steps_down unfolding child_def by fastforce

lemma left_is: "complete S \<Longrightarrow> j \<le> num_steps D S \<Longrightarrow> RemainingAfterStep D S j = Some (left S j)"
  using starts_full [of S] steps_down [of S "j - 1"] unfolding left_def
  by (cases j) fastforce+

lemma left_step:
  assumes "complete S" "j < num_steps D S"
  shows "unat (left S j) = unat (child S j) + unat (left S (Suc j))"
proof -
  obtain r q where "RemainingAfterStep D S j = Some r" "ChildQuantity D S j = Some q" "q \<le> r"
    "RemainingAfterStep D S (Suc j) = Some (r - q)" using steps_down [OF assms] by blast
  then show ?thesis unfolding left_def child_def
    by (simp add: unat_sub word_le_nat_alt)
qed

lemma left_sum:
  "complete S \<Longrightarrow> j \<le> num_steps D S \<Longrightarrow>
     (\<Sum>i<j. unat (child S i)) + unat (left S j) = unat (parent_qty D S)"
proof (induction j)
  case 0
  then show ?case using starts_full [of S] by (simp add: left_def)
next
  case (Suc j)
  then show ?case using left_step [of S j] by simp
qed

text \<open>The children add up to the parent, over the naturals: no addition wraps.\<close>

lemma children_sum:
  assumes "complete S"
  shows "(\<Sum>j<num_steps D S. unat (child S j)) = unat (parent_qty D S)"
  using left_sum [OF assms, of "num_steps D S"] ends_empty [OF assms] by (simp add: left_def)

lemma left_antimono:
  "complete S \<Longrightarrow> i \<le> j \<Longrightarrow> j \<le> num_steps D S \<Longrightarrow> left S j \<le> left S i"
proof (induction j)
  case (Suc j)
  have "left S (Suc j) \<le> left S j" using left_step [of S j] Suc.prems by (simp add: word_le_nat_alt)
  then show ?case using Suc by (cases "i = Suc j") auto
qed simp

text \<open>Every step of a complete schedule is defined exactly as far as the publisher's call is.\<close>

lemma SubmitStep_eq:
  assumes "complete S" "j < num_steps D S"
  shows "SubmitStep D add S j i px P =
    (if child S j = 0 then Some (True, P) else add i (side D S) px (child S j) P)"
  using child_is [OF assms] by (simp add: SubmitStep_def)

text \<open>The two tables as lists: they exist, run from the parent to zero without rising, and sum
  to the parent.\<close>

lemma runs_down:
  assumes c: "complete S"
  shows "\<exists>qs rs. map (ChildQuantity D S) [0..<num_steps D S] = map Some qs
    \<and> map (RemainingAfterStep D S) [0..<num_steps D S + 1] = map Some rs
    \<and> (\<Sum>q \<leftarrow> qs. unat q) = unat (parent_qty D S)
    \<and> hd rs = parent_qty D S \<and> last rs = 0 \<and> sorted_wrt (\<ge>) rs"
proof (intro exI conjI)
  show "map (ChildQuantity D S) [0..<num_steps D S] = map Some (map (child S) [0..<num_steps D S])"
    using child_is [OF c] by simp
  show "map (RemainingAfterStep D S) [0..<num_steps D S + 1] = map Some (map (left S) [0..<num_steps D S + 1])"
    using left_is [OF c] by (simp add: less_Suc_eq_le)
  show "(\<Sum>q \<leftarrow> map (child S) [0..<num_steps D S]. unat q) = unat (parent_qty D S)"
    using children_sum [OF c] by (simp add: interv_sum_list_conv_sum_set_nat atLeast0LessThan comp_def)
  show "hd (map (left S) [0..<num_steps D S + 1]) = parent_qty D S"
    using starts_full [OF c] by (simp add: hd_map left_def del: upt_Suc)
  show "last (map (left S) [0..<num_steps D S + 1]) = 0"
    using ends_empty [OF c] by (simp add: left_def)
  show "sorted_wrt (\<ge>) (map (left S) [0..<num_steps D S + 1])"
    unfolding sorted_wrt_map by (rule sorted_wrt_mono_rel [of _ "(<)"]) (auto intro: left_antimono [OF c] simp del: upt_Suc)
qed

definition orders :: "(nat \<Rightarrow> OrderId \<times> Price) \<Rightarrow> 's \<Rightarrow> nat \<Rightarrow> submission list" where
  "orders order S n = [(fst (order j), side D S, snd (order j), child S j). j \<leftarrow> [0..<n], child S j \<noteq> 0]"

lemma orders_Suc: "orders order S (Suc n) = orders order S n @
    (if child S n = 0 then [] else [(fst (order n), side D S, snd (order n), child S n)])"
  by (simp add: orders_def)

lemma submit_all_orders:
  assumes c: "complete S"
  shows "submit_all D note_order order S L = Some (L @ orders order S (num_steps D S))"
proof -
  have "\<exists>L'. submit_all D note_order order S L = Some L' \<and> L' = L @ orders order S (num_steps D S)"
    unfolding submit_all_def
    by (rule for_range_invariant [where I = "\<lambda>j L'. L' = L @ orders order S j"])
      (auto simp: SubmitStep_eq [OF c] note_order_def orders_Suc, simp add: orders_def)
  then show ?thesis by blast
qed

lemma orders_total: "complete S \<Longrightarrow> (\<Sum>(_, _, _, q) \<leftarrow> orders order S n. unat q) = (\<Sum>j<n. unat (child S j))"
  by (induction n) (simp_all add: orders_Suc orders_def [of _ _ 0])

lemma submits_parent:
  assumes "complete S"
  shows "\<exists>L. submit_all D note_order order S [] = Some L
    \<and> (\<forall>(_, s, _, q) \<in> set L. s = side D S \<and> q \<noteq> 0)
    \<and> (\<Sum>(_, _, _, q) \<leftarrow> L. unat q) = unat (parent_qty D S)"
  using submit_all_orders [OF assms, of order "[]"] orders_total [OF assms] children_sum [OF assms]
  by (auto simp: orders_def)

end

section \<open>Tables\<close>

text \<open>The shape all schedules share: a child table and a remaining table, filled up to step \<open>n\<close>.\<close>

definition table_upto :: "Quantity \<Rightarrow> nat \<Rightarrow> nat \<Rightarrow> Quantity list \<Rightarrow> Quantity list \<Rightarrow> bool" where
  "table_upto Q N n child rem \<longleftrightarrow> length child = N \<and> length rem = N + 1 \<and> n \<le> N \<and> rem ! 0 = Q
     \<and> (\<forall>j<n. child ! j \<le> rem ! j \<and> rem ! Suc j = rem ! j - child ! j)"

lemma table_upto_extend:
  assumes "table_upto Q N n child rem" "n < N" "q \<le> rem ! n"
  shows "table_upto Q N (Suc n) (child[n := q]) (rem[Suc n := rem ! n - q])"
  using assms unfolding table_upto_def by (auto simp: nth_list_update elim!: less_SucE)

lemma table_upto_left: "table_upto Q N n child rem \<Longrightarrow> j \<le> n \<Longrightarrow> rem ! j \<le> Q"
proof (induction j)
  case (Suc j)
  then have "child ! j \<le> rem ! j" "rem ! Suc j = rem ! j - child ! j"
    unfolding table_upto_def by auto
  then have "rem ! Suc j \<le> rem ! j" by (simp add: word_sub_le)
  then show ?case using Suc by auto
qed (simp add: table_upto_def)

definition table_complete :: "Quantity \<Rightarrow> nat \<Rightarrow> Quantity list \<Rightarrow> Quantity list \<Rightarrow> bool" where
  "table_complete Q N child rem \<longleftrightarrow> table_upto Q N N child rem \<and> rem ! N = 0"

lemma table_completeD:
  assumes "table_complete Q N child rem"
  shows "nth_opt rem 0 = Some Q" "nth_opt rem N = Some 0"
    "j < N \<Longrightarrow> \<exists>r q. nth_opt rem j = Some r \<and> nth_opt child j = Some q \<and> q \<le> r \<and> nth_opt rem (Suc j) = Some (r - q)"
  using assms unfolding table_complete_def table_upto_def by auto

lemma table_upto_sum:
  "table_upto Q N n child rem \<Longrightarrow> k \<le> n \<Longrightarrow> (\<Sum>j<k. unat (child ! j)) + unat (rem ! k) = unat Q"
proof (induction k)
  case (Suc k)
  then have "child ! k \<le> rem ! k" "rem ! Suc k = rem ! k - child ! k" by (simp_all add: table_upto_def)
  then have "unat (rem ! Suc k) + unat (child ! k) = unat (rem ! k)" by (simp add: unat_sub word_le_nat_alt)
  then show ?case using Suc by simp
qed (simp add: table_upto_def)

end
