(* ===== verification/Almgren_Chriss.thy ===== *)
theory Almgren_Chriss imports Strategy Floating begin

text \<open>
  The Almgren-Chriss schedule of \<^verbatim>\<open>cpp/exec/almgren_chriss.hpp\<close> and
  \<^verbatim>\<open>.cpp\<close>. The constructor is a loop over a table; its floating point is the
  parameter \<open>fp\<close>. Whatever \<open>fp\<close> computes, the table sums to the parent. In exact
  arithmetic no clamp bites and each entry is within half a unit of the continuous curve.
\<close>

section \<open>The constructor and the strategy\<close>

record 'd AC_Params =
  ac_parent_qty :: Quantity
  ac_parent_side :: Side
  ac_num_steps :: nat
  ac_horizon :: 'd
  ac_lambda :: 'd
  ac_sigma :: 'd
  ac_eta :: 'd

record 'd AlmgrenChriss =
  ac_params :: "'d AC_Params"
  ac_kappa :: 'd
  ac_child_qty :: "Quantity list"
  ac_remaining :: "Quantity list"

definition ComputeKappa :: "('f, 'd) fpu \<Rightarrow> 'd \<Rightarrow> 'd \<Rightarrow> 'd \<Rightarrow> 'd option" where
  "ComputeKappa fp lambda sigma eta =
     (if \<not> d_less fp (d_lit fp 0) eta then None
      else let num = d_mul fp (d_mul fp lambda sigma) sigma in
        if d_leq fp num (d_lit fp 0) then Some (d_lit fp 0)
        else Some (d_sqrt fp (d_div fp num eta)))"

text \<open>\<^verbatim>\<open>frac\<close> at step \<open>j\<close>, clamped to the unit interval.\<close>

definition ac_frac :: "('f, 'd) fpu \<Rightarrow> nat \<Rightarrow> 'd \<Rightarrow> 'd \<Rightarrow> bool \<Rightarrow> 'd \<Rightarrow> nat \<Rightarrow> 'd" where
  "ac_frac fp N T kappa lin denom j =
     (let t = d_div fp (d_mul fp (d_of_u64 fp (of_nat j)) T) (d_of_u64 fp (of_nat N));
          fr = (if lin then d_div fp (d_sub fp T t) T
                  else d_div fp (d_sinh fp (d_mul fp kappa (d_sub fp T t))) denom);
          fr = (if d_less fp fr (d_lit fp 0) then d_lit fp 0 else fr)
      in if d_less fp (d_lit fp 1) fr then d_lit fp 1 else fr)"

text \<open>One round of the loop, on \<open>(prev, child_qty_, remaining_)\<close>.\<close>

definition ac_round :: "('f, 'd) fpu \<Rightarrow> 'd \<Rightarrow> (nat \<Rightarrow> 'd) \<Rightarrow> nat \<Rightarrow> Quantity \<times> Quantity list \<times> Quantity list
    \<Rightarrow> (Quantity \<times> Quantity list \<times> Quantity list) option" where
  "ac_round fp Qf fr j = (\<lambda>(prev, child, rem).
     let x = d_llround fp (d_mul fp Qf (fr j));
         x = (if x > prev then prev else x)
     in do {
       rem1 \<leftarrow> upd_opt rem j x;
       child1 \<leftarrow> upd_opt child (j - 1) (prev - x);
       Some (x, child1, rem1)
     })"

definition AlmgrenChriss_new :: "('f, 'd) fpu \<Rightarrow> 'd AC_Params \<Rightarrow> 'd AlmgrenChriss option" where
  "AlmgrenChriss_new fp p = do {
     kappa \<leftarrow> ComputeKappa fp (ac_lambda p) (ac_sigma p) (ac_eta p);
     let child = replicate (ac_num_steps p) 0;
     let rem = replicate (ac_num_steps p + 1) 0;
     if \<not> ac_num_steps p \<ge> 1 \<or> \<not> d_less fp (d_lit fp 0) (ac_horizon p) then None else do {
       let N = ac_num_steps p;
       let T = ac_horizon p;
       let Qf = d_of_u64 fp (ac_parent_qty p);
       rem \<leftarrow> upd_opt rem 0 (ac_parent_qty p);
       rem \<leftarrow> upd_opt rem N 0;
       let kT = d_mul fp kappa T;
       let lin = (\<not> d_less fp (d_lit fp (1 / 10 ^ 9)) kT);
       let denom = (if lin then d_lit fp 0 else d_sinh fp kT);
       (prev, child, rem) \<leftarrow>
         for_range 1 N (ac_round fp Qf (ac_frac fp N T kappa lin denom)) (ac_parent_qty p, child, rem);
       child \<leftarrow> upd_opt child (N - 1) prev;
       Some \<lparr>ac_params = p, ac_kappa = kappa, ac_child_qty = child, ac_remaining = rem\<rparr>
     }
   }"

definition AC_kappa :: "'d AlmgrenChriss \<Rightarrow> 'd" where
  "AC_kappa S = ac_kappa S"

definition AC_strategy :: "'d AlmgrenChriss strategy" where
  "AC_strategy = \<lparr>ChildQuantityImpl = (\<lambda>S j. nth_opt (ac_child_qty S) j),
     RemainingAfterStepImpl = (\<lambda>S j. nth_opt (ac_remaining S) j),
     side_impl = (\<lambda>S. ac_parent_side (ac_params S)),
     parent_qty_impl = (\<lambda>S. ac_parent_qty (ac_params S)),
     num_steps_impl = (\<lambda>S. ac_num_steps (ac_params S))\<rparr>"

section \<open>The table\<close>

definition ac_complete :: "'d AlmgrenChriss \<Rightarrow> bool" where
  "ac_complete S \<longleftrightarrow> table_complete (ac_parent_qty (ac_params S)) (ac_num_steps (ac_params S)) (ac_child_qty S) (ac_remaining S)"

interpretation ac: schedule AC_strategy ac_complete
  by unfold_locales
    (auto simp: AC_strategy_def ac_complete_def RemainingAfterStep_def ChildQuantity_def parent_qty_def
       num_steps_def table_completeD(1,2) dest: table_completeD(3))

text \<open>The round as arithmetic, once its indices are in range; \<open>P\<close> is any bound on the
  entries that rounding and the clamp establish.\<close>

definition ac_table :: "Quantity \<Rightarrow> nat \<Rightarrow> (nat \<Rightarrow> Quantity \<Rightarrow> bool) \<Rightarrow> nat \<Rightarrow> Quantity \<times> Quantity list \<times> Quantity list \<Rightarrow> bool" where
  "ac_table Q N P j = (\<lambda>(prev, child, rem).
     table_upto Q N (j - 1) child rem \<and> prev = rem ! (j - 1) \<and> rem ! N = (if N = 0 then Q else 0) \<and> (\<forall>i<j. P i (rem ! i)))"

definition ac_entry :: "('f, 'd) fpu \<Rightarrow> 'd \<Rightarrow> (nat \<Rightarrow> 'd) \<Rightarrow> nat \<Rightarrow> Quantity \<Rightarrow> Quantity" where
  "ac_entry fp Qf fr j prev = min prev (d_llround fp (d_mul fp Qf (fr j)))"

lemma ac_round_ok:
  assumes "ac_table Q N P j st" "1 \<le> j" "j < N" "P j (ac_entry fp Qf fr j (fst st))"
  shows "\<exists>st'. ac_round fp Qf fr j st = Some st' \<and> ac_table Q N P (Suc j) st'"
proof -
  obtain prev child rem where st: "st = (prev, child, rem)" by (cases st)
  obtain k where j: "j = Suc k" using assms(2) by (cases j) auto
  let ?x = "ac_entry fp Qf fr j prev"
  from assms(1) have tab: "table_upto Q N k child rem" "prev = rem ! k" "rem ! N = 0"
    and P: "\<forall>i<j. P i (rem ! i)"
    using assms(3) by (auto simp: ac_table_def st j)
  then have len: "length child = N" "length rem = N + 1" by (simp_all add: table_upto_def)
  have x: "?x \<le> prev" by (simp add: ac_entry_def)
  then have "prev - (prev - ?x) = ?x" by simp
  then have "table_upto Q N (Suc k) (child[k := prev - ?x]) (rem[j := ?x])"
    using table_upto_extend [OF tab(1), of "prev - ?x"] assms(3) tab(2) x
    by (simp add: j word_sub_le)
  moreover have "ac_round fp Qf fr j st = Some (?x, child[k := prev - ?x], rem[j := ?x])"
    using len assms(3) by (auto simp: ac_round_def st j ac_entry_def Let_def min_def)
  ultimately show ?thesis
    using P assms(3,4) tab(3) len by (auto simp: ac_table_def j st nth_list_update elim!: less_SucE)
qed

lemma AlmgrenChriss_new_table:
  assumes ok: "1 \<le> ac_num_steps p" "d_less fp (d_lit fp 0) (ac_horizon p)"
    and k: "ComputeKappa fp (ac_lambda p) (ac_sigma p) (ac_eta p) = Some kappa"
    and P0: "P 0 (ac_parent_qty p)"
    and P: "\<And>j st lin denom. lin = (\<not> d_less fp (d_lit fp (1 / 10 ^ 9)) (d_mul fp kappa (ac_horizon p)))
      \<Longrightarrow> denom = (if lin then d_lit fp 0 else d_sinh fp (d_mul fp kappa (ac_horizon p)))
      \<Longrightarrow> 1 \<le> j \<Longrightarrow> j < ac_num_steps p \<Longrightarrow> ac_table (ac_parent_qty p) (ac_num_steps p) P j st
      \<Longrightarrow> P j (ac_entry fp (d_of_u64 fp (ac_parent_qty p)) (ac_frac fp (ac_num_steps p) (ac_horizon p) kappa lin denom) j (fst st))"
  shows "\<exists>S. AlmgrenChriss_new fp p = Some S \<and> ac_params S = p \<and> ac_kappa S = kappa \<and> ac_complete S
    \<and> (\<forall>j < ac_num_steps p. P j (ac_remaining S ! j))"
proof -
  let ?N = "ac_num_steps p" and ?Q = "ac_parent_qty p"
  define lin where "lin = (\<not> d_less fp (d_lit fp (1 / 10 ^ 9)) (d_mul fp kappa (ac_horizon p)))"
  define denom where "denom = (if lin then d_lit fp 0 else d_sinh fp (d_mul fp kappa (ac_horizon p)))"
  let ?fr = "ac_frac fp ?N (ac_horizon p) kappa lin denom" and ?Qf = "d_of_u64 fp ?Q"
  let ?rem = "(replicate (?N + 1) 0)[0 := ?Q, ?N := 0]"
  obtain n where n: "?N = Suc n" using ok(1) by (cases ?N) auto
  have init: "ac_table ?Q ?N P 1 (?Q, replicate ?N 0, ?rem)"
    unfolding ac_table_def table_upto_def n prod.case using P0 by (simp add: nth_list_update del: replicate_Suc list_update.simps)
  have "\<exists>st. for_range 1 ?N (ac_round fp ?Qf ?fr) (?Q, replicate ?N 0, ?rem) = Some st \<and> ac_table ?Q ?N P ?N st"
  proof (rule for_range_invariant [where I = "ac_table ?Q ?N P", OF ok(1) init])
    fix j st assume j: "1 \<le> j" "j < ?N" and st: "ac_table ?Q ?N P j st"
    show "\<exists>st'. ac_round fp ?Qf ?fr j st = Some st' \<and> ac_table ?Q ?N P (Suc j) st'"
      by (rule ac_round_ok [OF st j]) (rule P [OF lin_def denom_def j st])
  qed
  then obtain st where loop: "for_range 1 ?N (ac_round fp ?Qf ?fr) (?Q, replicate ?N 0, ?rem) = Some st"
    and inv: "ac_table ?Q ?N P ?N st" by blast
  obtain prev child rem where st: "st = (prev, child, rem)" by (cases st)
  have tab: "table_upto ?Q ?N n child rem" "prev = rem ! n" "rem ! ?N = 0" "\<forall>i<?N. P i (rem ! i)"
    using inv by (simp_all add: ac_table_def st n)
  then have len: "length child = ?N" "length rem = ?N + 1" by (simp_all add: table_upto_def)
  have "rem[Suc n := 0] = rem" using tab(3) by (metis list_update_id n)
  then have "table_upto ?Q ?N ?N (child[n := prev]) rem"
    using table_upto_extend [OF tab(1), of prev] tab(2) by (simp add: n)
  then have "table_complete ?Q ?N (child[n := prev]) rem" using tab(3) by (simp add: table_complete_def)
  moreover have "AlmgrenChriss_new fp p = Some \<lparr>ac_params = p, ac_kappa = kappa, ac_child_qty = child[n := prev], ac_remaining = rem\<rparr>"
    unfolding AlmgrenChriss_new_def k using ok loop [unfolded denom_def lin_def] len
    by (cases "d_less fp (d_lit fp (1 / 10 ^ 9)) (d_mul fp kappa (ac_horizon p))") (simp_all add: st Let_def n)
  ultimately show ?thesis using tab(4) by (simp add: ac_complete_def)
qed

section \<open>Correctness\<close>

text \<open>C24: an Almgren-Chriss schedule closes out. Whatever the floating point computes (rounding,
  overflow, NaN), the constructor called within its assertions returns a schedule whose children sum
  exactly to the parent, whose remaining inventory starts at the parent, never rises and ends at
  zero, and whose steps, driven one after the other, submit on the parent's side exactly the parent's
  quantity.\<close>

theorem AC_closes_out:
  assumes "1 \<le> ac_num_steps p" "d_less fp (d_lit fp 0) (ac_horizon p)" "d_less fp (d_lit fp 0) (ac_eta p)"
  shows "\<exists>S qs rs L. AlmgrenChriss_new fp p = Some S
    \<and> map (ChildQuantity AC_strategy S) [0..<ac_num_steps p] = map Some qs
    \<and> map (RemainingAfterStep AC_strategy S) [0..<ac_num_steps p + 1] = map Some rs
    \<and> (\<Sum>q \<leftarrow> qs. unat q) = unat (ac_parent_qty p)
    \<and> hd rs = ac_parent_qty p \<and> last rs = 0 \<and> sorted_wrt (\<ge>) rs
    \<and> submit_all AC_strategy note_order order S [] = Some L
    \<and> (\<forall>(_, s, _, q) \<in> set L. s = ac_parent_side p \<and> q \<noteq> 0)
    \<and> (\<Sum>(_, _, _, q) \<leftarrow> L. unat q) = unat (ac_parent_qty p)"
proof -
  obtain kappa where k: "ComputeKappa fp (ac_lambda p) (ac_sigma p) (ac_eta p) = Some kappa"
    using assms(3) unfolding ComputeKappa_def Let_def by (metis (full_types))
  obtain S where S: "AlmgrenChriss_new fp p = Some S" "ac_params S = p" "ac_complete S"
    using AlmgrenChriss_new_table [OF assms(1,2) k, of "\<lambda>_ _. True"] by blast
  have "num_steps AC_strategy S = ac_num_steps p" "parent_qty AC_strategy S = ac_parent_qty p"
    "side AC_strategy S = ac_parent_side p"
    using S(2) by (simp_all add: num_steps_def parent_qty_def side_def AC_strategy_def)
  then show ?thesis using ac.runs_down [OF S(3)] ac.submits_parent [OF S(3), of order] S(1) by auto
qed

definition sample_ac :: "real AC_Params" where
  "sample_ac = \<lparr>ac_parent_qty = 1000, ac_parent_side = kSell, ac_num_steps = 4, ac_horizon = 1,
     ac_lambda = 1, ac_sigma = 2, ac_eta = 1\<rparr>"

theorem AC_closes_out_witness:
  "\<exists>S qs rs L. AlmgrenChriss_new exact sample_ac = Some S
    \<and> map (ChildQuantity AC_strategy S) [0..<ac_num_steps sample_ac] = map Some qs
    \<and> map (RemainingAfterStep AC_strategy S) [0..<ac_num_steps sample_ac + 1] = map Some rs
    \<and> (\<Sum>q \<leftarrow> qs. unat q) = unat (ac_parent_qty sample_ac)
    \<and> hd rs = ac_parent_qty sample_ac \<and> last rs = 0 \<and> sorted_wrt (\<ge>) rs
    \<and> submit_all AC_strategy note_order (\<lambda>j. (of_nat j, 100)) S [] = Some L
    \<and> (\<forall>(_, s, _, q) \<in> set L. s = ac_parent_side sample_ac \<and> q \<noteq> 0)
    \<and> (\<Sum>(_, _, _, q) \<leftarrow> L. unat q) = unat (ac_parent_qty sample_ac)"
  by (rule AC_closes_out) (simp_all add: sample_ac_def)

text \<open>The continuous curve, as a share of the parent, at step \<open>j\<close> of \<open>N\<close>.\<close>

definition ac_kappa_of :: "real \<Rightarrow> real \<Rightarrow> real \<Rightarrow> real" where
  "ac_kappa_of lambda sigma eta = (if lambda * sigma ^ 2 \<le> 0 then 0 else sqrt (lambda * sigma ^ 2 / eta))"

definition ac_curve :: "real \<Rightarrow> real \<Rightarrow> nat \<Rightarrow> nat \<Rightarrow> real" where
  "ac_curve kappa T N j = (let t = real j * T / real N in
     if kappa * T \<le> 1 / 10 ^ 9 then (T - t) / T else sinh (kappa * (T - t)) / sinh (kappa * T))"

lemma ac_curve_0: "0 < T \<Longrightarrow> ac_curve kappa T N 0 = 1"
  by (auto simp: ac_curve_def Let_def)

lemma ac_curve_N: "0 < T \<Longrightarrow> 0 < N \<Longrightarrow> ac_curve kappa T N N = 0"
  by (simp add: ac_curve_def Let_def)

lemma ac_curve_antimono:
  assumes "0 < T" "0 \<le> kappa" "0 < N" "i \<le> j"
  shows "ac_curve kappa T N j \<le> ac_curve kappa T N i"
proof -
  have t: "real i * T / real N \<le> real j * T / real N"
    using assms by (intro divide_right_mono mult_right_mono) auto
  then have "kappa * (T - real j * T / real N) \<le> kappa * (T - real i * T / real N)"
    using assms(2) by (intro mult_left_mono) auto
  then have "\<not> kappa * T \<le> 1 / 10 ^ 9 \<Longrightarrow>
      sinh (kappa * (T - real j * T / real N)) / sinh (kappa * T) \<le> sinh (kappa * (T - real i * T / real N)) / sinh (kappa * T)"
    by (intro divide_right_mono) auto
  moreover have "(T - real j * T / real N) / T \<le> (T - real i * T / real N) / T"
    using t assms(1) by (intro divide_right_mono) auto
  ultimately show ?thesis by (simp add: ac_curve_def Let_def)
qed

lemma ac_curve_unit:
  assumes "0 < T" "0 \<le> kappa" "0 < N" "j \<le> N"
  shows "0 \<le> ac_curve kappa T N j" "ac_curve kappa T N j \<le> 1"
  using ac_curve_antimono [OF assms] ac_curve_antimono [OF assms(1-3), of 0 j] ac_curve_0 [OF assms(1)] ac_curve_N [OF assms(1,3)]
  by auto

lemma ac_frac_exact:
  assumes "0 < T" "0 \<le> kappa" "0 < N" "j \<le> N" "N < 2 ^ 64"
    and "lin = (\<not> d_less exact (d_lit exact (1 / 10 ^ 9)) (d_mul exact kappa T))"
    and "denom = (if lin then d_lit exact 0 else d_sinh exact (d_mul exact kappa T))"
  shows "ac_frac exact N T kappa lin denom j = ac_curve kappa T N j"
proof -
  have "unat (of_nat j :: u64) = j" "unat (of_nat N :: u64) = N"
    using assms(4,5) by (simp_all add: unat_of_nat64)
  then have r: "real (unat (of_nat j :: u64)) = real j" "real (unat (of_nat N :: u64)) = real N" by simp_all
  show ?thesis
    using ac_curve_unit [OF assms(1-4)] unfolding assms(6,7) ac_frac_def exact_simps r
    by (auto simp: Let_def ac_curve_def of_rat_divide of_rat_power not_le)
qed

lemma ComputeKappa_exact:
  assumes "0 < eta"
  shows "ComputeKappa exact lambda sigma eta = Some (ac_kappa_of lambda sigma eta)"
  using assms by (simp add: ComputeKappa_def ac_kappa_of_def Let_def power2_eq_square mult.assoc)

lemma ac_kappa_nonneg: "0 < eta \<Longrightarrow> 0 \<le> ac_kappa_of lambda sigma eta"
  by (simp add: ac_kappa_of_def)

text \<open>C25: in exact arithmetic, and for a parent below \<open>2 ^ 63\<close> (the range of
  \<^verbatim>\<open>llround\<close>), the discretised schedule tracks the Almgren-Chriss curve: the
  inventory after step \<open>j\<close> is within half a unit of \<open>Q sinh(kappa (T - t_j)) / sinh(kappa T)\<close>
  (of the straight line in the TWAP limit), so neither clamp ever changes an entry by more than its
  rounding.\<close>

theorem AC_tracks_curve:
  assumes "1 \<le> ac_num_steps p" "ac_num_steps p < 2 ^ 64" "0 < ac_horizon p" "0 < ac_eta p" "j \<le> ac_num_steps p"
    and Q: "unat (ac_parent_qty p) < 2 ^ 63"
  shows "\<exists>S r. AlmgrenChriss_new exact p = Some S \<and> RemainingAfterStep AC_strategy S j = Some r
    \<and> \<bar>real (unat r) - real (unat (ac_parent_qty p)) *
         ac_curve (ac_kappa_of (ac_lambda p) (ac_sigma p) (ac_eta p)) (ac_horizon p) (ac_num_steps p) j\<bar> \<le> 1 / 2"
proof -
  let ?Q = "ac_parent_qty p" and ?N = "ac_num_steps p"
  let ?k = "ac_kappa_of (ac_lambda p) (ac_sigma p) (ac_eta p)"
  let ?c = "ac_curve ?k (ac_horizon p) ?N"
  have k: "0 \<le> ?k" using ac_kappa_nonneg [OF assms(4)] .
  have N: "0 < ?N" using assms(1) by simp
  note unit = ac_curve_unit [OF assms(3) k N]
  have "on_curve ?Q ?c i (ac_entry exact (d_of_u64 exact ?Q) (ac_frac exact ?N (ac_horizon p) ?k lin denom) i (fst st))"
    if lin: "lin = (\<not> d_less exact (d_lit exact (1 / 10 ^ 9)) (d_mul exact ?k (ac_horizon p)))"
      and denom: "denom = (if lin then d_lit exact 0 else d_sinh exact (d_mul exact ?k (ac_horizon p)))"
      and i: "1 \<le> i" "i < ?N" and tab: "ac_table ?Q ?N (on_curve ?Q ?c) i st" for i st lin denom
  proof -
    have c: "ac_frac exact ?N (ac_horizon p) ?k lin denom i = ?c i"
      using ac_frac_exact [OF assms(3) k N _ assms(2) lin denom] i(2) by simp
    have "on_curve ?Q ?c (i - 1) (fst st)" using tab i by (cases st) (auto simp: ac_table_def)
    from on_curve_step [OF this ac_curve_antimono [OF assms(3) k N] unit Q] i(2) show ?thesis
      by (simp add: ac_entry_def c del: real_unat)
  qed
  then obtain S where S: "AlmgrenChriss_new exact p = Some S" "ac_params S = p" "ac_complete S"
    and ent: "\<forall>i < ?N. on_curve ?Q ?c i (ac_remaining S ! i)"
    using AlmgrenChriss_new_table [where P = "on_curve ?Q ?c", OF assms(1) _ ComputeKappa_exact [OF assms(4)]]
      on_curve_start [of ?c] ac_curve_0 [OF assms(3)] assms(3) by auto
  have tab: "length (ac_remaining S) = ?N + 1" "ac_remaining S ! ?N = 0"
    using S(2,3) by (auto simp: ac_complete_def table_complete_def table_upto_def)
  then have "\<bar>real (unat (ac_remaining S ! j)) - real (unat ?Q) * ?c j\<bar> \<le> 1 / 2"
    using ac_curve_N [OF assms(3) N] ent on_curve_error [where c = ?c, OF _ unit [OF assms(5)]] assms(5) by (cases "j = ?N") auto
  then show ?thesis using S(1) tab assms(5) by (auto simp: RemainingAfterStep_def AC_strategy_def)
qed

theorem AC_tracks_curve_witness:
  "\<exists>S r. AlmgrenChriss_new exact sample_ac = Some S \<and> RemainingAfterStep AC_strategy S 2 = Some r
    \<and> \<bar>real (unat r) - real (unat (ac_parent_qty sample_ac)) *
         ac_curve (ac_kappa_of (ac_lambda sample_ac) (ac_sigma sample_ac) (ac_eta sample_ac)) (ac_horizon sample_ac) (ac_num_steps sample_ac) 2\<bar> \<le> 1 / 2"
  by (rule AC_tracks_curve) (simp_all add: sample_ac_def)

end
