(* ===== verification/Vwap.thy ===== *)
theory Vwap imports Strategy Floating begin

text \<open>
  The VWAP schedule of \<^verbatim>\<open>cpp/exec/vwap.hpp\<close> and \<^verbatim>\<open>.cpp\<close>: child sizes
  from the rounded cumulative volume profile, again over an arbitrary floating point \<open>fp\<close>. The
  profile pointer is an option (null) of the array it points to.
\<close>

section \<open>The constructor and the strategy\<close>

record 'd VWAP_Params =
  vp_parent_qty :: Quantity
  vp_parent_side :: Side
  vp_volume_profile :: "'d list option"
  vp_num_steps :: nat

record VwapStrategy =
  vw_side :: Side
  vw_parent_qty :: Quantity
  vw_child_qty :: "Quantity list"
  vw_remaining :: "Quantity list"

text \<open>One round of the loop, on \<open>(cum, sent, child_qty_, remaining_)\<close>.\<close>

definition vwap_target :: "('f, 'd) fpu \<Rightarrow> Quantity \<Rightarrow> 'd \<Rightarrow> 'd \<Rightarrow> Quantity \<Rightarrow> Quantity" where
  "vwap_target fp Q Qf cum sent =
     (let c = cum;
          c = (if d_less fp c (d_lit fp 0) then d_lit fp 0 else c);
          c = (if d_less fp (d_lit fp 1) c then d_lit fp 1 else c);
          target = d_llround fp (d_mul fp Qf c);
          target = (if target > Q then Q else target)
      in if target < sent then sent else target)"

definition vwap_round :: "('f, 'd) fpu \<Rightarrow> Quantity \<Rightarrow> 'd \<Rightarrow> 'd list \<Rightarrow> nat \<Rightarrow> nat
    \<Rightarrow> 'd \<times> Quantity \<times> Quantity list \<times> Quantity list \<Rightarrow> ('d \<times> Quantity \<times> Quantity list \<times> Quantity list) option" where
  "vwap_round fp Q Qf profile N j = (\<lambda>(cum, sent, child, rem). do {
     w \<leftarrow> nth_opt profile j;
     if \<not> d_leq fp (d_lit fp 0) w then None else do {
       let cum1 = d_add fp cum w;
       let target = (if j + 1 = N then Q else vwap_target fp Q Qf cum1 sent);
       child1 \<leftarrow> upd_opt child j (target - sent);
       rem1 \<leftarrow> upd_opt rem (j + 1) (Q - target);
       Some (cum1, target, child1, rem1)
     }
   })"

definition VwapStrategy_new :: "('f, 'd) fpu \<Rightarrow> 'd VWAP_Params \<Rightarrow> VwapStrategy option" where
  "VwapStrategy_new fp p = do {
     let child = replicate (vp_num_steps p) 0;
     let rem = replicate (vp_num_steps p + 1) 0;
     if \<not> vp_num_steps p \<ge> 1 then None else do {
       profile \<leftarrow> vp_volume_profile p;
       let N = vp_num_steps p;
       let Qf = d_of_u64 fp (vp_parent_qty p);
       rem \<leftarrow> upd_opt rem 0 (vp_parent_qty p);
       (cum, sent, child, rem) \<leftarrow>
         for_range 0 N (vwap_round fp (vp_parent_qty p) Qf profile N) (d_lit fp 0, 0, child, rem);
       Some \<lparr>vw_side = vp_parent_side p, vw_parent_qty = vp_parent_qty p, vw_child_qty = child, vw_remaining = rem\<rparr>
     }
   }"

definition VWAP_strategy :: "VwapStrategy strategy" where
  "VWAP_strategy = \<lparr>ChildQuantityImpl = (\<lambda>S j. nth_opt (vw_child_qty S) j),
     RemainingAfterStepImpl = (\<lambda>S j. nth_opt (vw_remaining S) j),
     side_impl = vw_side,
     parent_qty_impl = vw_parent_qty,
     num_steps_impl = (\<lambda>S. length (vw_child_qty S))\<rparr>"

section \<open>The table\<close>

definition vwap_complete :: "VwapStrategy \<Rightarrow> bool" where
  "vwap_complete S \<longleftrightarrow> table_complete (vw_parent_qty S) (length (vw_child_qty S)) (vw_child_qty S) (vw_remaining S)"

interpretation vwap: schedule VWAP_strategy vwap_complete
  by unfold_locales
    (auto simp: VWAP_strategy_def vwap_complete_def RemainingAfterStep_def ChildQuantity_def parent_qty_def
       num_steps_def table_completeD(1,2) dest: table_completeD(3))

text \<open>The loop invariant; \<open>P\<close> relates the accumulated weight and the quantity sent.\<close>

definition vwap_table :: "Quantity \<Rightarrow> nat \<Rightarrow> (nat \<Rightarrow> 'd \<Rightarrow> Quantity \<Rightarrow> bool) \<Rightarrow> nat
    \<Rightarrow> 'd \<times> Quantity \<times> Quantity list \<times> Quantity list \<Rightarrow> bool" where
  "vwap_table Q N P j = (\<lambda>(cum, sent, child, rem).
     table_upto Q N j child rem \<and> sent \<le> Q \<and> rem ! j = Q - sent \<and> (if j < N then P j cum sent else sent = Q)
     \<and> (\<forall>i<j. \<exists>cum. P i cum (Q - rem ! i)))"

lemma vwap_target_bounds: "sent \<le> Q \<Longrightarrow> sent \<le> vwap_target fp Q Qf cum sent" "sent \<le> Q \<Longrightarrow> vwap_target fp Q Qf cum sent \<le> Q"
  by (auto simp: vwap_target_def Let_def not_less)

lemma vwap_round_ok:
  assumes inv: "vwap_table Q N P j st" and j: "j < N" "j < length profile" "d_leq fp (d_lit fp 0) (profile ! j)"
    and P: "Suc j < N \<Longrightarrow> P (Suc j) (d_add fp (fst st) (profile ! j)) (vwap_target fp Q Qf (d_add fp (fst st) (profile ! j)) (fst (snd st)))"
  shows "\<exists>st'. vwap_round fp Q Qf profile N j st = Some st' \<and> vwap_table Q N P (Suc j) st'"
proof -
  obtain cum sent child rem where st: "st = (cum, sent, child, rem)" by (cases st)
  let ?c = "d_add fp cum (profile ! j)"
  let ?t = "if j + 1 = N then Q else vwap_target fp Q Qf ?c sent"
  from inv j(1) have tab: "table_upto Q N j child rem" "sent \<le> Q" "rem ! j = Q - sent" "P j cum sent"
    and old: "\<forall>i<j. \<exists>cum. P i cum (Q - rem ! i)" by (auto simp: vwap_table_def st)
  then have len: "length child = N" "length rem = N + 1" by (simp_all add: table_upto_def)
  have t: "sent \<le> ?t" "?t \<le> Q" using vwap_target_bounds tab(2) by auto
  then have q: "?t - sent \<le> Q - sent" using tab(2) by (simp add: word_le_nat_alt unat_sub)
  have "table_upto Q N (Suc j) (child[j := ?t - sent]) (rem[Suc j := Q - ?t])"
    using table_upto_extend [OF tab(1) j(1), of "?t - sent"] q tab(3) by simp
  moreover have "vwap_round fp Q Qf profile N j st = Some (?c, ?t, child[j := ?t - sent], rem[Suc j := Q - ?t])"
    using j len by (simp add: vwap_round_def st Let_def)
  moreover have "\<exists>cum. P i cum (Q - rem[Suc j := Q - ?t] ! i)" if "i < Suc j" for i
    using that old tab(3,4) by (cases "i = j") auto
  ultimately show ?thesis
    using t P len j(1) by (auto simp: vwap_table_def st)
qed

lemma VwapStrategy_new_table:
  assumes ok: "1 \<le> vp_num_steps p" "vp_volume_profile p = Some profile" "length profile = vp_num_steps p"
    and w: "\<And>w. w \<in> set profile \<Longrightarrow> d_leq fp (d_lit fp 0) w"
    and P0: "P 0 (d_lit fp 0) 0"
    and P: "\<And>j cum sent. Suc j < vp_num_steps p \<Longrightarrow> P j cum sent \<Longrightarrow> sent \<le> vp_parent_qty p
      \<Longrightarrow> P (Suc j) (d_add fp cum (profile ! j)) (vwap_target fp (vp_parent_qty p) (d_of_u64 fp (vp_parent_qty p)) (d_add fp cum (profile ! j)) sent)"
  shows "\<exists>S. VwapStrategy_new fp p = Some S \<and> vwap_complete S \<and> vw_side S = vp_parent_side p
    \<and> vw_parent_qty S = vp_parent_qty p \<and> length (vw_child_qty S) = vp_num_steps p
    \<and> (\<forall>j < vp_num_steps p. \<exists>cum. P j cum (vp_parent_qty p - vw_remaining S ! j))"
proof -
  let ?N = "vp_num_steps p" and ?Q = "vp_parent_qty p"
  let ?Qf = "d_of_u64 fp ?Q" and ?rem = "(replicate (?N + 1) 0)[0 := ?Q]"
  have init: "vwap_table ?Q ?N P 0 (d_lit fp 0, 0, replicate ?N 0, ?rem)"
    using P0 ok(1) by (simp add: vwap_table_def table_upto_def)
  have "\<exists>st. for_range 0 ?N (vwap_round fp ?Q ?Qf profile ?N) (d_lit fp 0, 0, replicate ?N 0, ?rem) = Some st
      \<and> vwap_table ?Q ?N P ?N st"
  proof (rule for_range_invariant [where I = "vwap_table ?Q ?N P", OF le0 init])
    fix j st assume j: "j < ?N" and st: "vwap_table ?Q ?N P j st"
    then have "P j (fst st) (fst (snd st))" "fst (snd st) \<le> ?Q" by (auto simp: vwap_table_def)
    with j w ok(3) show "\<exists>st'. vwap_round fp ?Q ?Qf profile ?N j st = Some st' \<and> vwap_table ?Q ?N P (Suc j) st'"
      by (intro vwap_round_ok [OF st] P) simp_all
  qed
  then obtain cum sent child rem
    where loop: "for_range 0 ?N (vwap_round fp ?Q ?Qf profile ?N) (d_lit fp 0, 0, replicate ?N 0, ?rem) = Some (cum, sent, child, rem)"
    and inv: "vwap_table ?Q ?N P ?N (cum, sent, child, rem)" by (metis prod_cases4)
  have "table_complete ?Q ?N child rem" using inv by (simp add: vwap_table_def table_complete_def)
  moreover from this have "length child = ?N" by (simp add: table_complete_def table_upto_def)
  ultimately show ?thesis
    using inv ok loop by (simp add: VwapStrategy_new_def Let_def vwap_complete_def vwap_table_def)
qed

section \<open>Correctness\<close>

text \<open>C26: a VWAP schedule closes out. Whatever the floating point computes, the constructor called
  with a non-null profile of non-negative weights, one per step, returns a schedule whose children
  sum exactly to the parent, whose remaining inventory starts at the parent, never rises and ends at
  zero, and whose steps submit on the parent's side exactly the parent's quantity, also when the
  profile does not sum to one.\<close>

theorem VWAP_closes_out:
  assumes "1 \<le> vp_num_steps p" "vp_volume_profile p = Some profile" "length profile = vp_num_steps p"
    and "\<And>w. w \<in> set profile \<Longrightarrow> d_leq fp (d_lit fp 0) w"
  shows "\<exists>S qs rs L. VwapStrategy_new fp p = Some S
    \<and> map (ChildQuantity VWAP_strategy S) [0..<vp_num_steps p] = map Some qs
    \<and> map (RemainingAfterStep VWAP_strategy S) [0..<vp_num_steps p + 1] = map Some rs
    \<and> (\<Sum>q \<leftarrow> qs. unat q) = unat (vp_parent_qty p)
    \<and> hd rs = vp_parent_qty p \<and> last rs = 0 \<and> sorted_wrt (\<ge>) rs
    \<and> submit_all VWAP_strategy note_order order S [] = Some L
    \<and> (\<forall>(_, s, _, q) \<in> set L. s = vp_parent_side p \<and> q \<noteq> 0)
    \<and> (\<Sum>(_, _, _, q) \<leftarrow> L. unat q) = unat (vp_parent_qty p)"
proof -
  obtain S where S: "VwapStrategy_new fp p = Some S" "vwap_complete S" "vw_side S = vp_parent_side p"
    "vw_parent_qty S = vp_parent_qty p" "length (vw_child_qty S) = vp_num_steps p"
    using VwapStrategy_new_table [where P = "\<lambda>_ _ _. True", OF assms] by blast
  then have "num_steps VWAP_strategy S = vp_num_steps p" "parent_qty VWAP_strategy S = vp_parent_qty p"
    "side VWAP_strategy S = vp_parent_side p"
    by (simp_all add: num_steps_def parent_qty_def side_def VWAP_strategy_def)
  then show ?thesis using vwap.runs_down [OF S(2)] vwap.submits_parent [OF S(2), of order] S(1) by auto
qed

definition sample_vwap :: "real VWAP_Params" where
  "sample_vwap = \<lparr>vp_parent_qty = 1000, vp_parent_side = kSell, vp_volume_profile = Some [1 / 3, 1 / 6, 1 / 6, 1 / 3], vp_num_steps = 4\<rparr>"

theorem VWAP_closes_out_witness:
  "\<exists>S qs rs L. VwapStrategy_new exact sample_vwap = Some S
    \<and> map (ChildQuantity VWAP_strategy S) [0..<vp_num_steps sample_vwap] = map Some qs
    \<and> map (RemainingAfterStep VWAP_strategy S) [0..<vp_num_steps sample_vwap + 1] = map Some rs
    \<and> (\<Sum>q \<leftarrow> qs. unat q) = unat (vp_parent_qty sample_vwap)
    \<and> hd rs = vp_parent_qty sample_vwap \<and> last rs = 0 \<and> sorted_wrt (\<ge>) rs
    \<and> submit_all VWAP_strategy note_order (\<lambda>j. (of_nat j, 100)) S [] = Some L
    \<and> (\<forall>(_, s, _, q) \<in> set L. s = vp_parent_side sample_vwap \<and> q \<noteq> 0)
    \<and> (\<Sum>(_, _, _, q) \<leftarrow> L. unat q) = unat (vp_parent_qty sample_vwap)"
  by (rule VWAP_closes_out [where profile = "[1 / 3, 1 / 6, 1 / 6, 1 / 3]"]) (auto simp: sample_vwap_def)

text \<open>The share of the parent that the profile asks to have sent after \<open>j\<close> steps.\<close>

definition vwap_curve :: "real list \<Rightarrow> nat \<Rightarrow> real" where
  "vwap_curve profile j = min 1 (sum_list (take j profile))"

lemma sum_take_mono:
  assumes "\<And>w. w \<in> set ws \<Longrightarrow> 0 \<le> w"
  shows "sum_list (take j ws) \<le> sum_list (take (Suc j) (ws :: real list))"
  using assms by (cases "j < length ws") (simp_all add: take_Suc_conv_app_nth)

lemma vwap_curve_props:
  assumes "\<And>w. w \<in> set ws \<Longrightarrow> 0 \<le> w"
  shows "vwap_curve ws 0 = 0" "vwap_curve ws j \<le> vwap_curve ws (Suc j)" "0 \<le> vwap_curve ws j" "vwap_curve ws j \<le> 1"
proof -
  have "0 \<le> sum_list (take j ws)" using assms by (intro sum_list_nonneg) (auto dest: in_set_takeD)
  then show "0 \<le> vwap_curve ws j" by (simp add: vwap_curve_def)
  show "vwap_curve ws j \<le> vwap_curve ws (Suc j)" using sum_take_mono [of ws j] assms by (auto simp: vwap_curve_def)
qed (simp_all add: vwap_curve_def)

lemma vwap_target_exact:
  assumes "on_curve Q (vwap_curve ws) j sent" "\<And>w. w \<in> set ws \<Longrightarrow> 0 \<le> w" "unat Q < 2 ^ 63"
  shows "on_curve Q (vwap_curve ws) (Suc j) (vwap_target exact Q (d_of_u64 exact Q) (sum_list (take (Suc j) ws)) sent)"
proof -
  let ?c = "vwap_curve ws" and ?y = "round_away (real (unat Q) * vwap_curve ws (Suc j))"
  note c = vwap_curve_props [of ws, OF assms(2)]
  let ?w = "llround_s64 (real (unat Q) * ?c (Suc j))"
  have y: "unat ?w = nat ?y" by (rule unat_llround [OF c(3,4) assms(3)])
  have "0 \<le> sum_list (take (Suc j) ws)" using assms(2) by (intro sum_list_nonneg) (auto dest: in_set_takeD)
  then have t: "vwap_target exact Q (d_of_u64 exact Q) (sum_list (take (Suc j) ws)) sent
      = (let t = ?w; t = (if t > Q then Q else t) in if t < sent then sent else t)"
    by (auto simp: vwap_target_def vwap_curve_def Let_def min_def simp del: real_unat)
  have "nat ?y \<le> unat Q" using round_away_fraction(2) [OF c(3,4) [of "Suc j"], of "unat Q"] by (simp del: real_unat)
  moreover have "unat sent \<le> nat ?y"
    using assms(1) c(2) by (auto simp: on_curve_def simp del: real_unat intro!: nat_mono round_away_mono mult_left_mono)
  ultimately show ?thesis unfolding t using y by (simp add: on_curve_def Let_def word_less_nat_alt del: real_unat)
qed

text \<open>C27: in exact arithmetic, and for a parent below \<open>2 ^ 63\<close> (the range of
  \<^verbatim>\<open>llround\<close>), VWAP tracks its profile: after \<open>j\<close> steps, short of the last, the
  quantity sent is within half a unit of the parent times the cumulative weight (capped at one), so
  rounding errors do not accumulate over the steps.\<close>

theorem VWAP_tracks_profile:
  assumes "1 \<le> vp_num_steps p" "vp_volume_profile p = Some profile" "length profile = vp_num_steps p"
    and w: "\<And>w. w \<in> set profile \<Longrightarrow> 0 \<le> w" and "j < vp_num_steps p" and Q: "unat (vp_parent_qty p) < 2 ^ 63"
  shows "\<exists>S r. VwapStrategy_new exact p = Some S \<and> RemainingAfterStep VWAP_strategy S j = Some r
    \<and> \<bar>real (unat (vp_parent_qty p - r)) - real (unat (vp_parent_qty p)) * vwap_curve profile j\<bar> \<le> 1 / 2"
proof -
  let ?Q = "vp_parent_qty p"
  let ?P = "\<lambda>j cum sent. cum = sum_list (take j profile) \<and> on_curve ?Q (vwap_curve profile) j sent"
  note c = vwap_curve_props [of profile, OF w]
  have "round_away 0 = 0" using round_away_nat [of 0] by simp
  then have "?P 0 (d_lit exact 0) 0" using c(1) by (simp add: on_curve_def)
  moreover have "?P (Suc j) (d_add exact cum (profile ! j)) (vwap_target exact ?Q (d_of_u64 exact ?Q) (d_add exact cum (profile ! j)) sent)"
    if "Suc j < vp_num_steps p" "?P j cum sent" for j cum sent
    using that vwap_target_exact [of ?Q profile j sent, OF _ w Q] assms(3) by (simp add: take_Suc_conv_app_nth del: real_unat)
  ultimately obtain S where S: "VwapStrategy_new exact p = Some S" "vwap_complete S" "length (vw_child_qty S) = vp_num_steps p"
    and ent: "\<forall>j < vp_num_steps p. \<exists>cum. ?P j cum (?Q - vw_remaining S ! j)"
    using VwapStrategy_new_table [where P = ?P and fp = exact, OF assms(1-3)] w by auto
  have "length (vw_remaining S) = vp_num_steps p + 1"
    using S(2,3) by (simp add: vwap_complete_def table_complete_def table_upto_def)
  then have "RemainingAfterStep VWAP_strategy S j = Some (vw_remaining S ! j)"
    using assms(5) by (simp add: RemainingAfterStep_def VWAP_strategy_def)
  then show ?thesis
    using S(1) ent assms(5) on_curve_error [where c = "vwap_curve profile" and j = j, OF _ c(3,4)] by blast
qed

theorem VWAP_tracks_profile_witness:
  "\<exists>S r. VwapStrategy_new exact sample_vwap = Some S \<and> RemainingAfterStep VWAP_strategy S 3 = Some r
    \<and> \<bar>real (unat (vp_parent_qty sample_vwap - r)) - real (unat (vp_parent_qty sample_vwap)) * vwap_curve [1 / 3, 1 / 6, 1 / 6, 1 / 3] 3\<bar> \<le> 1 / 2"
  by (rule VWAP_tracks_profile) (auto simp: sample_vwap_def)

end
