(* ===== verification/Rl_Policy.thy ===== *)
theory Rl_Policy imports Strategy Floating begin

text \<open>
  The learned policy of \<^verbatim>\<open>cpp/exec/rl_policy.hpp\<close> and \<^verbatim>\<open>.cpp\<close>.
  TorchScript is not under \<^verbatim>\<open>src/\<close>: loading, \<^verbatim>\<open>eval()\<close>, looking up
  \<^verbatim>\<open>forward\<close> and running it on the interpreter stack are the fields of \<open>tc\<close>. A
  C++ exception is the left of a sum; \<open>None\<close> is a failed assertion or an access out of range.
\<close>

section \<open>State and operations\<close>

text \<open>An entry of the interpreter stack: the module itself, or a contiguous float tensor.\<close>

datatype 'f ivalue = ISelf | ITensor "'f list"

record ('f, 'm) torch =
  tc_load :: "string \<Rightarrow> 'm option"
  tc_eval :: "'m \<Rightarrow> 'm"
  tc_has_forward :: "'m \<Rightarrow> bool"
  tc_run :: "'m \<Rightarrow> 'f ivalue list \<Rightarrow> bool \<times> 'f ivalue list \<times> 'm"

record RL_Params =
  rp_parent_qty :: Quantity
  rp_parent_side :: Side
  rp_num_steps :: nat

record ('f, 'm) RlPolicy =
  rl_params :: RL_Params
  rl_module :: 'm
  rl_input_tensor :: "'f list"
  rl_forward_fn :: bool
  rl_stack :: "'f ivalue list"
  rl_child_qty :: "Quantity list"
  rl_remaining :: "Quantity list"
  rl_current_step :: nat
  rl_last_size_fraction :: 'f
  rl_last_aggression :: 'f

definition kStateDim :: nat where "kStateDim = 8"

definition ClampUnit :: "('f, 'd) fpu \<Rightarrow> 'f \<Rightarrow> 'f" where
  "ClampUnit fp x = (if f_less fp x (f_lit fp 0) then f_lit fp 0
     else if f_less fp (f_lit fp 1) x then f_lit fp 1 else x)"

text \<open>\<open>uninit\<close> is what \<^verbatim>\<open>torch::empty\<close> left in the input tensor.\<close>

definition Init :: "('f, 'd) fpu \<Rightarrow> ('f, 'm) torch \<Rightarrow> ('f, 'm) RlPolicy \<Rightarrow> (unit + ('f, 'm) RlPolicy) option" where
  "Init fp tc S = (if \<not> rp_num_steps (rl_params S) \<ge> 1 then None else do {
     let m = tc_eval tc (rl_module S);
     if \<not> tc_has_forward tc m then Some (Inl ()) else do {
       let N = rp_num_steps (rl_params S);
       rem \<leftarrow> upd_opt (replicate (N + 1) 0) 0 (rp_parent_qty (rl_params S));
       buf \<leftarrow> for_range 0 kStateDim (\<lambda>i buf. upd_opt buf i (f_lit fp 0)) (rl_input_tensor S);
       Some (Inr (S\<lparr>rl_module := m, rl_forward_fn := True, rl_child_qty := replicate N 0,
         rl_remaining := rem, rl_input_tensor := buf\<rparr>))
     }
   })"

definition RlPolicy_of_module :: "('f, 'd) fpu \<Rightarrow> ('f, 'm) torch \<Rightarrow> 'f list \<Rightarrow> 'm \<Rightarrow> RL_Params
    \<Rightarrow> (unit + ('f, 'm) RlPolicy) option" where
  "RlPolicy_of_module fp tc uninit m p =
     Init fp tc \<lparr>rl_params = p, rl_module = m, rl_input_tensor = uninit, rl_forward_fn = False,
       rl_stack = [], rl_child_qty = [], rl_remaining = [], rl_current_step = 0,
       rl_last_size_fraction = f_lit fp 0, rl_last_aggression = f_lit fp 0\<rparr>"

definition RlPolicy_new :: "('f, 'd) fpu \<Rightarrow> ('f, 'm) torch \<Rightarrow> 'f list \<Rightarrow> string \<Rightarrow> RL_Params
    \<Rightarrow> (unit + ('f, 'm) RlPolicy) option" where
  "RlPolicy_new fp tc uninit model_path p =
     (case tc_load tc model_path of None \<Rightarrow> Some (Inl ()) | Some m \<Rightarrow> RlPolicy_of_module fp tc uninit m p)"

definition RL_WriteState :: "'f list \<Rightarrow> ('f, 'm) RlPolicy \<Rightarrow> ('f, 'm) RlPolicy option" where
  "RL_WriteState state S = do {
     dst \<leftarrow> for_range 0 kStateDim (\<lambda>i dst. do { x \<leftarrow> nth_opt state i; upd_opt dst i x }) (rl_input_tensor S);
     Some (S\<lparr>rl_input_tensor := dst\<rparr>)
   }"

text \<open>The child quantity the decoded action asks for.\<close>

definition rl_quantity :: "('f, 'd) fpu \<Rightarrow> bool \<Rightarrow> Quantity \<Rightarrow> 'f \<Rightarrow> Quantity" where
  "rl_quantity fp final remaining_before size_fraction =
     (if final then remaining_before
      else let q = d_llround fp (d_mul fp (d_of_u64 fp remaining_before) (d_of_f fp size_fraction))
        in if q > remaining_before then remaining_before else q)"

definition ComputeNextAction :: "('f, 'd) fpu \<Rightarrow> ('f, 'm) torch \<Rightarrow> ('f, 'm) RlPolicy
    \<Rightarrow> (('f, 'm) RlPolicy + ('f, 'm) RlPolicy) option" where
  "ComputeNextAction fp tc S =
     (if \<not> rl_current_step S < rp_num_steps (rl_params S) \<or> \<not> rl_forward_fn S then None else
      let (ok, stack, m) = tc_run tc (rl_module S) [ISelf, ITensor (rl_input_tensor S)];
          S1 = S\<lparr>rl_stack := stack, rl_module := m\<rparr>
      in if \<not> ok then Some (Inl S1)
      else if stack = [] then None
      else case last stack of
        ISelf \<Rightarrow> Some (Inl S1)
      | ITensor action \<Rightarrow> do {
          a0 \<leftarrow> nth_opt action 0;
          a1 \<leftarrow> nth_opt action 1;
          let size_fraction = ClampUnit fp a0;
          let aggression = ClampUnit fp a1;
          let j = rl_current_step S;
          remaining_before \<leftarrow> nth_opt (rl_remaining S) j;
          let q = rl_quantity fp (j + 1 = rp_num_steps (rl_params S)) remaining_before size_fraction;
          child \<leftarrow> upd_opt (rl_child_qty S) j q;
          rem \<leftarrow> upd_opt (rl_remaining S) (j + 1) (remaining_before - q);
          Some (Inr (S1\<lparr>rl_child_qty := child, rl_remaining := rem,
            rl_last_size_fraction := size_fraction, rl_last_aggression := aggression,
            rl_current_step := j + 1\<rparr>))
        })"

definition RL_strategy :: "('f, 'm) RlPolicy strategy" where
  "RL_strategy = \<lparr>ChildQuantityImpl = (\<lambda>S j. nth_opt (rl_child_qty S) j),
     RemainingAfterStepImpl = (\<lambda>S j. nth_opt (rl_remaining S) j),
     side_impl = (\<lambda>S. rp_parent_side (rl_params S)),
     parent_qty_impl = (\<lambda>S. rp_parent_qty (rl_params S)),
     num_steps_impl = (\<lambda>S. rp_num_steps (rl_params S))\<rparr>"

definition RL_current_step :: "('f, 'm) RlPolicy \<Rightarrow> nat" where
  "RL_current_step S = rl_current_step S"

definition RL_last_size_fraction :: "('f, 'm) RlPolicy \<Rightarrow> 'f" where
  "RL_last_size_fraction S = rl_last_size_fraction S"

definition RL_last_aggression :: "('f, 'm) RlPolicy \<Rightarrow> 'f" where
  "RL_last_aggression S = rl_last_aggression S"

text \<open>An episode of the driver: write an observation, compute, once per step; \<open>Inl\<close> is the
  state at the first exception.\<close>

fun rl_episode :: "('f, 'd) fpu \<Rightarrow> ('f, 'm) torch \<Rightarrow> 'f list list \<Rightarrow> ('f, 'm) RlPolicy
    \<Rightarrow> (('f, 'm) RlPolicy + ('f, 'm) RlPolicy) option" where
  "rl_episode fp tc [] S = Some (Inr S)"
| "rl_episode fp tc (obs # rest) S = do {
     S1 \<leftarrow> RL_WriteState obs S;
     r \<leftarrow> ComputeNextAction fp tc S1;
     case r of Inl S2 \<Rightarrow> Some (Inl S2) | Inr S2 \<Rightarrow> rl_episode fp tc rest S2
   }"

section \<open>The invariant\<close>

definition rl_inv :: "('f, 'm) RlPolicy \<Rightarrow> bool" where
  "rl_inv S \<longleftrightarrow> length (rl_input_tensor S) = kStateDim \<and> rl_forward_fn S \<and> 1 \<le> rp_num_steps (rl_params S)
     \<and> table_upto (rp_parent_qty (rl_params S)) (rp_num_steps (rl_params S)) (rl_current_step S) (rl_child_qty S) (rl_remaining S)
     \<and> (rl_current_step S = rp_num_steps (rl_params S) \<longrightarrow> rl_remaining S ! rl_current_step S = 0)"

definition rl_complete :: "('f, 'm) RlPolicy \<Rightarrow> bool" where
  "rl_complete S \<longleftrightarrow> rl_inv S \<and> rl_current_step S = rp_num_steps (rl_params S)"

lemma rl_complete_table: "rl_complete S \<Longrightarrow>
    table_complete (rp_parent_qty (rl_params S)) (rp_num_steps (rl_params S)) (rl_child_qty S) (rl_remaining S)"
  by (auto simp: rl_complete_def rl_inv_def table_complete_def)

interpretation rl: schedule RL_strategy rl_complete
  by unfold_locales
    (auto simp: RL_strategy_def RemainingAfterStep_def ChildQuantity_def parent_qty_def
       num_steps_def table_completeD(1,2) dest!: rl_complete_table dest: table_completeD(3))

text \<open>The documented contract of a validated actor: it runs, and leaves at least two floats on top.\<close>

definition actor_ok :: "('f, 'm) torch \<Rightarrow> bool" where
  "actor_ok tc \<longleftrightarrow> (\<forall>m x. case tc_run tc m [ISelf, ITensor x] of (ok, stack, _) \<Rightarrow>
     ok \<and> stack \<noteq> [] \<and> (\<exists>a b rest. last stack = ITensor (a # b # rest)))"

lemma fill_loop:
  assumes "n \<le> length xs"
  shows "\<exists>ys. for_range 0 n (\<lambda>i buf. upd_opt buf i (f i)) xs = Some ys \<and> length ys = length xs \<and> (\<forall>i<n. ys ! i = f i)"
proof -
  have "\<exists>ys. for_range 0 n (\<lambda>i buf. upd_opt buf i (f i)) xs = Some ys \<and> (length ys = length xs \<and> (\<forall>i<n. ys ! i = f i))"
    by (rule for_range_invariant [where I = "\<lambda>k ys. length ys = length xs \<and> (\<forall>i<k. ys ! i = f i)"])
      (use assms in \<open>auto simp: nth_list_update less_Suc_eq\<close>)
  then show ?thesis by blast
qed

lemma RL_WriteState_ok:
  assumes "rl_inv S" "length obs = kStateDim"
  shows "RL_WriteState obs S = Some (S\<lparr>rl_input_tensor := obs\<rparr>)"
proof -
  let ?body = "\<lambda>i dst. do { x \<leftarrow> nth_opt obs i; upd_opt dst i x }"
  have "\<exists>ys. for_range 0 kStateDim ?body (rl_input_tensor S) = Some ys
      \<and> (length ys = kStateDim \<and> (\<forall>i<kStateDim. ys ! i = obs ! i))"
    by (rule for_range_invariant [where I = "\<lambda>k ys. length ys = kStateDim \<and> (\<forall>i<k. ys ! i = obs ! i)"])
      (use assms in \<open>auto simp: nth_list_update less_Suc_eq rl_inv_def\<close>)
  then have "for_range 0 kStateDim ?body (rl_input_tensor S) = Some obs"
    using assms(2) by (metis nth_equalityI)
  then show ?thesis by (simp add: RL_WriteState_def)
qed

lemma Init_ok:
  assumes "1 \<le> rp_num_steps p" "tc_has_forward tc (tc_eval tc m)" "length uninit = kStateDim"
  shows "\<exists>S. RlPolicy_of_module fp tc uninit m p = Some (Inr S) \<and> rl_inv S \<and> rl_params S = p \<and> rl_current_step S = 0
    \<and> rl_input_tensor S = replicate kStateDim (f_lit fp 0)"
proof -
  obtain buf where buf: "for_range 0 kStateDim (\<lambda>i buf. upd_opt buf i (f_lit fp 0)) uninit = Some buf"
    "length buf = kStateDim" "\<forall>i<kStateDim. buf ! i = f_lit fp 0"
    using fill_loop [of kStateDim uninit "\<lambda>_. f_lit fp 0"] assms(3) by auto
  then have "buf = replicate kStateDim (f_lit fp 0)" by (simp add: list_eq_iff_nth_eq)
  then show ?thesis using assms buf
    by (auto simp: RlPolicy_of_module_def Init_def rl_inv_def table_upto_def Let_def)
qed

lemma rl_quantity_le: "rl_quantity fp final r x \<le> r"
  by (auto simp: rl_quantity_def Let_def)

text \<open>Whatever the actor does, a computed action keeps the invariant, and an exception leaves
  the schedule as it was.\<close>

lemma ComputeNextAction_inv:
  assumes inv: "rl_inv S" and run: "ComputeNextAction fp tc S = Some r"
  shows "case r of
      Inl S' \<Rightarrow> rl_inv S' \<and> rl_params S' = rl_params S \<and> rl_current_step S' = rl_current_step S
        \<and> rl_child_qty S' = rl_child_qty S \<and> rl_remaining S' = rl_remaining S
    | Inr S' \<Rightarrow> rl_inv S' \<and> rl_params S' = rl_params S \<and> rl_current_step S' = Suc (rl_current_step S)"
proof -
  let ?N = "rp_num_steps (rl_params S)" and ?j = "rl_current_step S"
  obtain ok stack m where t: "tc_run tc (rl_module S) [ISelf, ITensor (rl_input_tensor S)] = (ok, stack, m)"
    by (metis prod_cases3)
  have j: "?j < ?N" using run by (simp add: ComputeNextAction_def split: if_splits)
  have tab: "table_upto (rp_parent_qty (rl_params S)) ?N ?j (rl_child_qty S) (rl_remaining S)" using inv by (simp add: rl_inv_def)
  then have len: "length (rl_child_qty S) = ?N" "length (rl_remaining S) = ?N + 1" by (simp_all add: table_upto_def)
  have "rl_quantity fp True (rl_remaining S ! ?j) x = rl_remaining S ! ?j" for x by (simp add: rl_quantity_def)
  then show ?thesis
    using run inv j len table_upto_extend [OF tab j rl_quantity_le]
    by (auto simp: ComputeNextAction_def t Let_def rl_inv_def nth_opt_eq_Some split: if_splits ivalue.splits bind_splits)
qed

lemma ComputeNextAction_total:
  assumes "rl_inv S" "actor_ok tc" "rl_current_step S < rp_num_steps (rl_params S)"
  shows "\<exists>S'. ComputeNextAction fp tc S = Some (Inr S')"
proof -
  obtain ok stack m where t: "tc_run tc (rl_module S) [ISelf, ITensor (rl_input_tensor S)] = (ok, stack, m)"
    by (metis prod_cases3)
  then obtain a b rest where b: "ok" "stack \<noteq> []" "last stack = ITensor (a # b # rest)"
    using assms(2) [unfolded actor_ok_def, THEN spec, THEN spec, of "rl_module S" "rl_input_tensor S"] by auto
  have "length (rl_child_qty S) = rp_num_steps (rl_params S)" "length (rl_remaining S) = rp_num_steps (rl_params S) + 1"
    using assms(1) by (simp_all add: rl_inv_def table_upto_def)
  then show ?thesis
    using b assms(1,3) by (simp add: ComputeNextAction_def t Let_def rl_inv_def)
qed

lemma rl_episode_ok:
  "rl_inv S \<Longrightarrow> actor_ok tc \<Longrightarrow> \<forall>obs \<in> set os. length obs = kStateDim \<Longrightarrow>
   rl_current_step S + length os \<le> rp_num_steps (rl_params S) \<Longrightarrow>
   \<exists>S'. rl_episode fp tc os S = Some (Inr S') \<and> rl_inv S' \<and> rl_params S' = rl_params S
     \<and> rl_current_step S' = rl_current_step S + length os"
proof (induction os arbitrary: S)
  case (Cons obs os)
  let ?S = "S\<lparr>rl_input_tensor := obs\<rparr>"
  have w: "RL_WriteState obs S = Some ?S" using RL_WriteState_ok [of S obs] Cons.prems by simp
  have inv: "rl_inv ?S" using Cons.prems by (simp add: rl_inv_def)
  obtain S1 where S1: "ComputeNextAction fp tc ?S = Some (Inr S1)"
    using ComputeNextAction_total [OF inv Cons.prems(2)] Cons.prems(4) by auto
  with ComputeNextAction_inv [OF inv S1] have "rl_inv S1" "rl_params S1 = rl_params S" "rl_current_step S1 = Suc (rl_current_step S)"
    by simp_all
  then show ?case using Cons.IH [of S1] Cons.prems w S1 by simp
qed simp

section \<open>Correctness\<close>

text \<open>C28: the learned policy closes out. For any floating point and any actor that runs and returns
  two floats, NaN included, one observation and one call per step from a fresh policy all return; the
  children then sum to the parent, the remaining inventory runs from the parent to zero without rising,
  and driving the steps submits exactly the parent.\<close>

theorem RL_closes_out:
  assumes "1 \<le> rp_num_steps p" "tc_has_forward tc (tc_eval tc m)" "length uninit = kStateDim" "actor_ok tc"
    and "length observations = rp_num_steps p" "\<forall>obs \<in> set observations. length obs = kStateDim"
  shows "\<exists>S0 S qs rs L. RlPolicy_of_module fp tc uninit m p = Some (Inr S0)
    \<and> rl_episode fp tc observations S0 = Some (Inr S)
    \<and> map (ChildQuantity RL_strategy S) [0..<rp_num_steps p] = map Some qs
    \<and> map (RemainingAfterStep RL_strategy S) [0..<rp_num_steps p + 1] = map Some rs
    \<and> (\<Sum>q \<leftarrow> qs. unat q) = unat (rp_parent_qty p)
    \<and> hd rs = rp_parent_qty p \<and> last rs = 0 \<and> sorted_wrt (\<ge>) rs
    \<and> submit_all RL_strategy note_order order S [] = Some L
    \<and> (\<Sum>(_, _, _, q) \<leftarrow> L. unat q) = unat (rp_parent_qty p)"
proof -
  obtain S0 where S0: "RlPolicy_of_module fp tc uninit m p = Some (Inr S0)" "rl_inv S0" "rl_params S0 = p" "rl_current_step S0 = 0"
    using Init_ok [OF assms(1-3)] by blast
  obtain S where S: "rl_episode fp tc observations S0 = Some (Inr S)" "rl_inv S" "rl_params S = p"
    "rl_current_step S = rp_num_steps p"
    using rl_episode_ok [OF S0(2) assms(4,6), of fp] S0(3,4) assms(5) by auto
  then have c: "rl_complete S" by (simp add: rl_complete_def)
  have "num_steps RL_strategy S = rp_num_steps p" "parent_qty RL_strategy S = rp_parent_qty p"
    using S(3) by (simp_all add: num_steps_def parent_qty_def RL_strategy_def)
  then show ?thesis using rl.runs_down [OF c] rl.submits_parent [OF c, of order] S0(1) S(1) by auto
qed

text \<open>An actor for the witnesses: it asks for half of what is left, with full aggression.\<close>

definition half_actor :: "(real, unit) torch" where
  "half_actor = \<lparr>tc_load = (\<lambda>_. Some ()), tc_eval = (\<lambda>m. m), tc_has_forward = (\<lambda>_. True),
     tc_run = (\<lambda>m _. (True, [ITensor [1 / 2, 1]], m))\<rparr>"

lemma half_actor_ok: "actor_ok half_actor"
  unfolding actor_ok_def half_actor_def by simp (rule exI [of _ "1 / 2"], simp)

definition sample_rl :: RL_Params where
  "sample_rl = \<lparr>rp_parent_qty = 1000, rp_parent_side = kSell, rp_num_steps = 3\<rparr>"

theorem RL_closes_out_witness:
  "\<exists>S0 S qs rs L. RlPolicy_of_module exact half_actor (replicate 8 0) () sample_rl = Some (Inr S0)
    \<and> rl_episode exact half_actor (replicate 3 (replicate 8 1)) S0 = Some (Inr S)
    \<and> map (ChildQuantity RL_strategy S) [0..<rp_num_steps sample_rl] = map Some qs
    \<and> map (RemainingAfterStep RL_strategy S) [0..<rp_num_steps sample_rl + 1] = map Some rs
    \<and> (\<Sum>q \<leftarrow> qs. unat q) = unat (rp_parent_qty sample_rl)
    \<and> hd rs = rp_parent_qty sample_rl \<and> last rs = 0 \<and> sorted_wrt (\<ge>) rs
    \<and> submit_all RL_strategy note_order (\<lambda>j. (of_nat j, 100)) S [] = Some L
    \<and> (\<Sum>(_, _, _, q) \<leftarrow> L. unat q) = unat (rp_parent_qty sample_rl)"
  by (rule RL_closes_out [OF _ _ _ half_actor_ok]) (simp_all add: sample_rl_def half_actor_def kStateDim_def)

lemma rl_episode_inv:
  "rl_inv S \<Longrightarrow> \<forall>obs \<in> set os. length obs = kStateDim \<Longrightarrow> rl_episode fp tc os S = Some r \<Longrightarrow>
   (case r of Inl S' \<Rightarrow> rl_inv S' \<and> rl_params S' = rl_params S | Inr S' \<Rightarrow> rl_inv S' \<and> rl_params S' = rl_params S)"
proof (induction os arbitrary: S)
  case (Cons obs os)
  let ?S = "S\<lparr>rl_input_tensor := obs\<rparr>"
  have w: "RL_WriteState obs S = Some ?S" using RL_WriteState_ok [of S obs] Cons.prems by simp
  have inv: "rl_inv ?S" using Cons.prems by (simp add: rl_inv_def)
  obtain r1 where r1: "ComputeNextAction fp tc ?S = Some r1" using Cons.prems(3) w by (auto split: bind_splits)
  show ?case
  proof (cases r1)
    case (Inl S2)
    then show ?thesis using ComputeNextAction_inv [OF inv r1] Cons.prems(3) w r1 by auto
  next
    case (Inr S2)
    then have "rl_inv S2" "rl_params S2 = rl_params S" using ComputeNextAction_inv [OF inv r1] by simp_all
    moreover have "rl_episode fp tc os S2 = Some r" using Cons.prems(3) w r1 Inr by simp
    ultimately show ?thesis using Cons.IH [of S2] Cons.prems(2) by (simp split: sum.splits)
  qed
qed auto

text \<open>C29: the policy never loses inventory, also when the actor fails. For any floating point and
  any actor (one that throws, returns NaN or a wrong shape), whenever an episode from a fresh policy
  returns, normally or with an exception, what the first \<^verbatim>\<open>current_step\<close> children sent
  and what is reported as remaining add up to the parent.\<close>

theorem RL_accounts_for_parent:
  assumes "1 \<le> rp_num_steps p" "length uninit = kStateDim" "\<forall>obs \<in> set observations. length obs = kStateDim"
    and "RlPolicy_of_module fp tc uninit m p = Some (Inr S0)"
    and "rl_episode fp tc observations S0 = Some r"
  shows "let S = (case r of Inl S \<Rightarrow> S | Inr S \<Rightarrow> S); k = rl_current_step S in
    \<exists>qs left. map (ChildQuantity RL_strategy S) [0..<k] = map Some qs
      \<and> RemainingAfterStep RL_strategy S k = Some left
      \<and> (\<Sum>q \<leftarrow> qs. unat q) + unat left = unat (rp_parent_qty p)"
proof -
  define S where "S = (case r of Inl S \<Rightarrow> S | Inr S \<Rightarrow> S)"
  have "tc_has_forward tc (tc_eval tc m)"
    using assms(4) by (auto simp: RlPolicy_of_module_def Init_def Let_def split: if_splits)
  then have S0: "rl_inv S0" "rl_params S0 = p" using Init_ok [OF assms(1) _ assms(2), of tc m fp] assms(4) by auto
  have inv: "rl_inv S" "rl_params S = p"
    using rl_episode_inv [OF S0(1) assms(3,5)] S0(2) by (auto simp: S_def split: sum.splits)
  then have tab: "table_upto (rp_parent_qty p) (rp_num_steps p) (rl_current_step S) (rl_child_qty S) (rl_remaining S)"
    by (simp add: rl_inv_def)
  let ?k = "rl_current_step S"
  let ?qs = "take ?k (rl_child_qty S)"
  have len: "?k \<le> length (rl_child_qty S)" "?k < length (rl_remaining S)" using tab by (auto simp: table_upto_def)
  have "map (ChildQuantity RL_strategy S) [0..<?k] = map Some ?qs"
    using len by (intro nth_equalityI) (auto simp: ChildQuantity_def RL_strategy_def)
  moreover have "(\<Sum>q \<leftarrow> ?qs. unat q) = (\<Sum>j<?k. unat (rl_child_qty S ! j))"
    using len by (simp add: sum_list_sum_nth atLeast0LessThan min_def)
  moreover have "RemainingAfterStep RL_strategy S ?k = Some (rl_remaining S ! ?k)"
    using len by (simp add: RemainingAfterStep_def RL_strategy_def)
  ultimately show ?thesis
    using table_upto_sum [OF tab order_refl] by (auto simp: S_def [symmetric] Let_def)
qed

text \<open>An actor that answers once and then throws.\<close>

definition failing_actor :: "(real, nat) torch" where
  "failing_actor = \<lparr>tc_load = (\<lambda>_. Some 0), tc_eval = (\<lambda>m. m), tc_has_forward = (\<lambda>_. True),
     tc_run = (\<lambda>m _. (m = 0, [ITensor [1 / 2, 1]], m + 1))\<rparr>"

lemma failing_step:
  assumes "rl_inv S" "rl_current_step S < rp_num_steps (rl_params S)"
  shows "\<exists>S'. ComputeNextAction exact failing_actor S = Some (if rl_module S = 0 then Inr S' else Inl S')
    \<and> rl_module S' = rl_module S + 1"
proof -
  have "length (rl_child_qty S) = rp_num_steps (rl_params S)" "length (rl_remaining S) = rp_num_steps (rl_params S) + 1"
    using assms(1) by (simp_all add: rl_inv_def table_upto_def)
  then show ?thesis using assms by (simp add: ComputeNextAction_def failing_actor_def Let_def rl_inv_def)
qed

lemma failing_episode:
  assumes "rl_inv S" "rl_module S = 0" "rl_current_step S + 2 \<le> rp_num_steps (rl_params S)" "length a = kStateDim" "length b = kStateDim"
  shows "\<exists>S'. rl_episode exact failing_actor [a, b] S = Some (Inl S') \<and> rl_current_step S' = rl_current_step S + 1"
proof -
  let ?S = "S\<lparr>rl_input_tensor := a\<rparr>"
  have inv: "rl_inv ?S" using assms(1,4) by (simp add: rl_inv_def)
  obtain S1 where S1: "ComputeNextAction exact failing_actor ?S = Some (Inr S1)" "rl_module S1 = 1"
    using failing_step [OF inv] assms(2,3) by auto
  then have i1: "rl_inv S1" "rl_params S1 = rl_params S" "rl_current_step S1 = Suc (rl_current_step S)"
    using ComputeNextAction_inv [OF inv S1(1)] by simp_all
  let ?S1 = "S1\<lparr>rl_input_tensor := b\<rparr>"
  have inv1: "rl_inv ?S1" using i1(1) assms(5) by (simp add: rl_inv_def)
  obtain S2 where S2: "ComputeNextAction exact failing_actor ?S1 = Some (Inl S2)"
    using failing_step [OF inv1] S1(2) i1(2,3) assms(3) by auto
  then have "rl_current_step S2 = Suc (rl_current_step S)" using ComputeNextAction_inv [OF inv1 S2] i1(3) by simp
  then show ?thesis
    using RL_WriteState_ok [OF assms(1,4)] S1(1) RL_WriteState_ok [OF i1(1) assms(5)] S2 by simp
qed

theorem RL_accounts_for_parent_witness:
  "\<exists>S0 S. RlPolicy_of_module exact failing_actor (replicate 8 0) 0 sample_rl = Some (Inr S0)
    \<and> rl_episode exact failing_actor [replicate 8 1, replicate 8 1] S0 = Some (Inl S) \<and> rl_current_step S = 1
    \<and> (\<exists>qs left. map (ChildQuantity RL_strategy S) [0..<1] = map Some qs
          \<and> RemainingAfterStep RL_strategy S 1 = Some left \<and> (\<Sum>q \<leftarrow> qs. unat q) + unat left = 1000)"
proof -
  have d: "1 \<le> rp_num_steps sample_rl" "length (replicate 8 (0 :: real)) = kStateDim" "length (replicate 8 (1 :: real)) = kStateDim"
    by (simp_all add: sample_rl_def kStateDim_def)
  obtain S0 where S0: "RlPolicy_of_module exact failing_actor (replicate 8 0) 0 sample_rl = Some (Inr S0)" "rl_inv S0"
    "rl_params S0 = sample_rl" "rl_current_step S0 = 0"
    using Init_ok [OF d(1) _ d(2), of failing_actor 0 exact] by (auto simp: failing_actor_def)
  have "rl_module S0 = 0"
    using S0(1) by (auto simp: RlPolicy_of_module_def Init_def failing_actor_def Let_def split: bind_splits if_splits)
  then obtain S where S: "rl_episode exact failing_actor [replicate 8 1, replicate 8 1] S0 = Some (Inl S)" "rl_current_step S = 1"
    using failing_episode [OF S0(2) _ _ d(3,3)] S0(3,4) by (auto simp: sample_rl_def)
  have "\<forall>obs \<in> set [replicate 8 (1 :: real), replicate 8 1]. length obs = kStateDim" using d(3) by simp
  from RL_accounts_for_parent [OF d(1,2) this S0(1) S(1)]
  have "\<exists>qs left. map (ChildQuantity RL_strategy S) [0..<1] = map Some qs
      \<and> RemainingAfterStep RL_strategy S 1 = Some left \<and> (\<Sum>q \<leftarrow> qs. unat q) + unat left = unat (rp_parent_qty sample_rl)"
    unfolding Let_def sum.case S(2) .
  moreover have "unat (rp_parent_qty sample_rl) = 1000" by (simp add: sample_rl_def)
  ultimately have "\<exists>qs left. map (ChildQuantity RL_strategy S) [0..<1] = map Some qs
      \<and> RemainingAfterStep RL_strategy S 1 = Some left \<and> (\<Sum>q \<leftarrow> qs. unat q) + unat left = 1000" by (simp only:)
  with S0(1) S show ?thesis by blast
qed

end
