(* ===== verification/Tsc_Clock.thy ===== *)
theory Tsc_Clock imports Floating begin

text \<open>
  The time stamp clock of \<^verbatim>\<open>cpp/core/tsc_clock.hpp\<close>, in both its builds: with the
  \<^verbatim>\<open>rdtscp\<close> instruction, whose cycles are calibrated against the steady clock, and without, where
  the counter is the steady clock itself and the ratio one. The build is the flag \<open>rdtsc\<close> of the
  definitions (\<^verbatim>\<open>OEP_CORE_HAVE_RDTSC\<close>). The machine is a parameter: a state, an instruction
  \<open>rdtscp\<close> that reads the cycle counter and a call \<open>steady_now\<close> that reads the steady clock in
  nanoseconds. What is assumed of it is stated against the true time: \<open>steady_laws\<close> and \<open>tsc_laws\<close>.
\<close>

section \<open>Calibration\<close>

definition ReadCycleCounter :: "bool \<Rightarrow> ('h \<Rightarrow> int \<times> 'h) \<Rightarrow> ('h \<Rightarrow> u64 \<times> 'h) \<Rightarrow> 'h \<Rightarrow> u64 \<times> 'h" where
  "ReadCycleCounter rdtsc steady_now rdtscp h =
     (if rdtsc then rdtscp h else let (now, h1) = steady_now h in (word_of_int now, h1))"

definition kCalibrationNs :: int where "kCalibrationNs = 50000000"

text \<open>The busy loop; \<open>None\<close> if the steady clock stands still.\<close>

partial_function (option) calibrate :: "bool \<Rightarrow> ('h \<Rightarrow> int \<times> 'h) \<Rightarrow> ('h \<Rightarrow> u64 \<times> 'h) \<Rightarrow> int \<Rightarrow> 'h \<Rightarrow> 'h option" where
  "calibrate rdtsc steady_now rdtscp wall_start h =
     (let (now, h1) = steady_now h in
      if now - wall_start < kCalibrationNs
      then calibrate rdtsc steady_now rdtscp wall_start (snd (ReadCycleCounter rdtsc steady_now rdtscp h1))
      else Some h1)"

definition NanosPerCycle_init :: "('f, 'd) fpu \<Rightarrow> bool \<Rightarrow> ('h \<Rightarrow> int \<times> 'h) \<Rightarrow> ('h \<Rightarrow> u64 \<times> 'h) \<Rightarrow> 'h \<Rightarrow> ('d \<times> 'h) option" where
  "NanosPerCycle_init fp rdtsc steady_now rdtscp h =
     (if rdtsc then do {
        let (wall_start, h1) = steady_now h;
        let (tsc_start, h2) = ReadCycleCounter rdtsc steady_now rdtscp h1;
        h3 \<leftarrow> calibrate rdtsc steady_now rdtscp wall_start h2;
        let (tsc_end, h4) = ReadCycleCounter rdtsc steady_now rdtscp h3;
        let (wall_end, h5) = steady_now h4;
        let ns = d_of_s64 fp (wall_end - wall_start);
        let cycles = d_of_u64 fp (tsc_end - tsc_start);
        Some (d_div fp ns cycles, h5)
      } else Some (d_lit fp 1, h))"

text \<open>The function-local static: \<open>cached\<close> is its value once initialised.\<close>

definition NanosPerCycle :: "('f, 'd) fpu \<Rightarrow> bool \<Rightarrow> ('h \<Rightarrow> int \<times> 'h) \<Rightarrow> ('h \<Rightarrow> u64 \<times> 'h) \<Rightarrow> 'd option \<Rightarrow> 'h
    \<Rightarrow> ('d \<times> 'd option \<times> 'h) option" where
  "NanosPerCycle fp rdtsc steady_now rdtscp cached h =
     (case cached of
        Some c \<Rightarrow> Some (c, cached, h)
      | None \<Rightarrow> do { (c, h1) \<leftarrow> NanosPerCycle_init fp rdtsc steady_now rdtscp h; Some (c, Some c, h1) })"

section \<open>The clock\<close>

record 'd TscNanoClock =
  tc_ns_per_cycle :: 'd
  tc_base_cycles :: u64

definition TscNanoClock_new :: "('f, 'd) fpu \<Rightarrow> bool \<Rightarrow> ('h \<Rightarrow> int \<times> 'h) \<Rightarrow> ('h \<Rightarrow> u64 \<times> 'h) \<Rightarrow> 'd option \<Rightarrow> 'h
    \<Rightarrow> ('d TscNanoClock \<times> 'd option \<times> 'h) option" where
  "TscNanoClock_new fp rdtsc steady_now rdtscp cached h = do {
     (ns_per_cycle, cached1, h1) \<leftarrow> NanosPerCycle fp rdtsc steady_now rdtscp cached h;
     let (base, h2) = ReadCycleCounter rdtsc steady_now rdtscp h1;
     Some (\<lparr>tc_ns_per_cycle = ns_per_cycle, tc_base_cycles = base\<rparr>, cached1, h2)
   }"

definition tsc_call :: "('f, 'd) fpu \<Rightarrow> bool \<Rightarrow> ('h \<Rightarrow> int \<times> 'h) \<Rightarrow> ('h \<Rightarrow> u64 \<times> 'h) \<Rightarrow> 'd TscNanoClock \<Rightarrow> 'h
    \<Rightarrow> (u64 \<times> 'h) option" where
  "tsc_call fp rdtsc steady_now rdtscp C h = do {
     let (now, h1) = ReadCycleCounter rdtsc steady_now rdtscp h;
     let delta = now - tc_base_cycles C;
     ns \<leftarrow> d_to_u64 fp (d_mul fp (d_of_u64 fp delta) (tc_ns_per_cycle C));
     Some (ns, h1)
   }"

section \<open>The machine\<close>

text \<open>
  \<open>now h\<close> is the true time of state \<open>h\<close>, in nanoseconds. Every reading takes some time and at most
  \<open>lat\<close>. The steady clock, with epoch \<open>ep\<close>, shows an instant of the call to within its resolution
  \<open>res\<close>, and never goes back. The counter counts, modulo \<open>2 ^ 64\<close>, the cycles of \<open>rho\<close> nanoseconds that
  are complete at an instant of the call.
\<close>

definition takes_time :: "('h \<Rightarrow> real) \<Rightarrow> real \<Rightarrow> ('h \<Rightarrow> 'h) \<Rightarrow> bool" where
  "takes_time now lat step \<longleftrightarrow> (\<exists>d>0. \<forall>h. now h + d \<le> now (step h) \<and> now (step h) \<le> now h + lat)"

definition steady_laws :: "('h \<Rightarrow> real) \<Rightarrow> real \<Rightarrow> real \<Rightarrow> real \<Rightarrow> ('h \<Rightarrow> int \<times> 'h) \<Rightarrow> bool" where
  "steady_laws now ep res lat steady_now \<longleftrightarrow> 0 \<le> res \<and> takes_time now lat (snd \<circ> steady_now)
     \<and> (\<forall>h. now h - res \<le> real_of_int (fst (steady_now h)) + ep
          \<and> real_of_int (fst (steady_now h)) + ep \<le> now (snd (steady_now h)))
     \<and> (\<forall>h h'. now (snd (steady_now h)) \<le> now h' \<longrightarrow> fst (steady_now h) \<le> fst (steady_now h'))"

definition tsc_laws :: "('h \<Rightarrow> real) \<Rightarrow> real \<Rightarrow> real \<Rightarrow> ('h \<Rightarrow> u64 \<times> 'h) \<Rightarrow> bool" where
  "tsc_laws now rho lat rdtscp \<longleftrightarrow> 0 < rho \<and> takes_time now lat (snd \<circ> rdtscp)
     \<and> (\<forall>h. \<exists>c :: int. fst (rdtscp h) = word_of_int c \<and> now h - rho < rho * real_of_int c
          \<and> rho * real_of_int c \<le> now (snd (rdtscp h)))"

lemma takes_timeD: "takes_time now lat step \<Longrightarrow> now h < now (step h) \<and> now (step h) \<le> now h + lat"
  unfolding takes_time_def by (metis less_add_same_cancel1 less_le_trans)

lemma steady_lawsD:
  assumes "steady_laws now ep res lat steady_now" "steady_now h = (w, h1)"
  shows "0 \<le> res" "now h < now h1" "now h1 \<le> now h + lat"
    "now h - res \<le> real_of_int w + ep" "real_of_int w + ep \<le> now h1"
  using assms takes_timeD [of now lat "snd \<circ> steady_now" h]
  by (auto simp: steady_laws_def dest!: spec [where x = h])

lemma tsc_lawsE:
  assumes "tsc_laws now rho lat rdtscp"
  obtains c h1 where "rdtscp h = (word_of_int c, h1)" "0 < rho" "now h < now h1" "now h1 \<le> now h + lat"
    "now h - rho < rho * real_of_int c" "rho * real_of_int c \<le> now h1"
  using assms takes_timeD [of now lat "snd \<circ> rdtscp" h] that
  unfolding tsc_laws_def by (metis comp_apply prod.collapse)

section \<open>The calibrated ratio\<close>

text \<open>The loop ends, no earlier than its window and not much later.\<close>

lemma calibrate_returns:
  assumes S: "steady_laws now ep res lat steady_now" and T: "tsc_laws now rho lat rdtscp"
  shows "\<exists>h'. calibrate True steady_now rdtscp w h = Some h' \<and> real_of_int (w + kCalibrationNs) + ep \<le> now h'
    \<and> now h' \<le> max (now h) (real_of_int (w + kCalibrationNs) + ep + res + 2 * lat) + lat"
proof -
  let ?X = "real_of_int (w + kCalibrationNs) + ep"
  obtain d where d: "0 < d" "\<And>h. now h + d \<le> now (snd (steady_now h))"
    using S by (auto simp: steady_laws_def takes_time_def)
  show ?thesis
  proof (induction "nat \<lceil>(?X + res - now h) / d\<rceil>" arbitrary: h rule: less_induct)
    case less
    obtain v h1 where r: "steady_now h = (v, h1)" by fastforce
    note D = steady_lawsD [OF S r]
    show ?case
    proof (cases "v - w < kCalibrationNs")
      case False
      then have "?X \<le> now h1" using D(5) by linarith
      moreover have "calibrate True steady_now rdtscp w h = Some h1"
        using r False by (simp add: calibrate.simps [of True steady_now rdtscp w h])
      ultimately show ?thesis using D(3) by auto
    next
      case True
      obtain c h2 where r2: "rdtscp h1 = (word_of_int c, h2)" "now h1 < now h2" "now h2 \<le> now h1 + lat"
        using tsc_lawsE [OF T, of h1] by metis
      have early: "now h < ?X + res" using True D(4) by linarith
      have e: "calibrate True steady_now rdtscp w h = calibrate True steady_now rdtscp w h2"
        using True r r2(1) by (simp add: calibrate.simps [of True steady_now rdtscp w h] ReadCycleCounter_def)
      have "now h + d \<le> now h2" using d(2) [of h] r r2(2) by simp
      then have "(?X + res - now h2) / d \<le> (?X + res - now h - d) / d"
        using d(1) by (intro divide_right_mono) linarith+
      also have "\<dots> = (?X + res - now h) / d - 1" using d(1) by (simp add: diff_divide_distrib)
      finally have "\<lceil>(?X + res - now h2) / d\<rceil> \<le> \<lceil>(?X + res - now h) / d\<rceil> - 1" by linarith
      moreover have "0 < \<lceil>(?X + res - now h) / d\<rceil>" using early d(1) by simp
      ultimately have m: "nat \<lceil>(?X + res - now h2) / d\<rceil> < nat \<lceil>(?X + res - now h) / d\<rceil>" by linarith
      have "max (now h2) (?X + res + 2 * lat) \<le> max (now h) (?X + res + 2 * lat)"
        using early D(3) r2(3) by linarith
      with less.hyps [OF m] show ?thesis unfolding e by (meson add_right_mono order_trans)
    qed
  qed
qed

lemma of_int_less_pow: "real_of_int i < 2 ^ n \<Longrightarrow> i < 2 ^ n"
  using of_int_less_iff [of i "2 ^ n", where 'a = real] by simp

lemma elapsed_word:
  assumes "b \<le> c" "c - b < 2 ^ 64"
  shows "unat (word_of_int c - word_of_int b :: u64) = nat (c - b)"
proof -
  have "(word_of_int c - word_of_int b :: u64) = word_of_int (c - b)" by simp
  moreover have "take_bit 64 (c - b) = c - b" using assms by (intro take_bit_int_eq_self) simp_all
  ultimately show ?thesis by (simp only: unat_eq_nat_uint uint_word_of_int_eq) simp
qed

text \<open>A quotient of two nearby numbers, the second of them a multiple of \<open>rho\<close>.\<close>

lemma ratio_close:
  assumes "\<bar>W - rho * k\<bar> \<le> e" "0 < D" "D \<le> rho * k" "0 < rho"
  shows "\<bar>W / k - rho\<bar> \<le> rho * (e / (D :: real))"
proof -
  have k: "0 < k" using assms(2-4) by (smt (verit) zero_less_mult_pos)
  have e: "0 \<le> e" using assms(1) by linarith
  have "W / k - rho = (W - rho * k) / k" using k by (simp add: field_simps)
  then have "\<bar>W / k - rho\<bar> \<le> e / k" using assms(1) k by (simp add: divide_right_mono)
  also have "\<dots> = rho * (e / (rho * k))" using assms(4) k by simp
  also have "\<dots> \<le> rho * (e / D)" using assms e by (intro mult_left_mono divide_left_mono) auto
  finally show ?thesis .
qed

definition ratio_error :: "bool \<Rightarrow> real \<Rightarrow> real \<Rightarrow> real \<Rightarrow> real" where
  "ratio_error rdtsc rho res lat = (if rdtsc then (4 * lat + res + rho) / (5 * 10 ^ 7 - 2 * lat - res - rho) else 0)"

text \<open>Calibration window long against the latencies, counter slow enough not to lap in it.\<close>

definition calibratable :: "real \<Rightarrow> real \<Rightarrow> real \<Rightarrow> bool" where
  "calibratable rho res lat \<longleftrightarrow> 6 * lat + 2 * res + 2 * rho \<le> 5 * 10 ^ 7 \<and> 10 ^ 8 \<le> 2 ^ 64 * rho"

lemma NanosPerCycle_init_ok:
  assumes S: "steady_laws now ep res lat steady_now" and T: "tsc_laws now rho lat rdtscp" and fit: "calibratable rho res lat"
  shows "\<exists>r h'. NanosPerCycle_init exact True steady_now rdtscp h = Some (r, h') \<and> \<bar>r - rho\<bar> \<le> rho * ratio_error True rho res lat"
proof -
  obtain ws h1 where s1: "steady_now h = (ws, h1)" by fastforce
  note S1 = steady_lawsD [OF S s1]
  obtain ks h2 where t1: "rdtscp h1 = (word_of_int ks, h2)" "0 < rho" "now h1 < now h2" "now h2 \<le> now h1 + lat"
    "now h1 - rho < rho * real_of_int ks" "rho * real_of_int ks \<le> now h2" by (rule tsc_lawsE [OF T, of h1])
  obtain h3 where c: "calibrate True steady_now rdtscp ws h2 = Some h3" "real_of_int (ws + kCalibrationNs) + ep \<le> now h3"
    "now h3 \<le> max (now h2) (real_of_int (ws + kCalibrationNs) + ep + res + 2 * lat) + lat"
    using calibrate_returns [OF S T] by blast
  obtain ke h4 where t2: "rdtscp h3 = (word_of_int ke, h4)" "0 < rho" "now h3 < now h4" "now h4 \<le> now h3 + lat"
    "now h3 - rho < rho * real_of_int ke" "rho * real_of_int ke \<le> now h4" by (rule tsc_lawsE [OF T, of h3])
  obtain we h5 where s2: "steady_now h4 = (we, h5)" by fastforce
  note S2 = steady_lawsD [OF S s2]
  let ?k = "real_of_int (ke - ks)" and ?D = "5 * 10 ^ 7 - 2 * lat - res - rho"
  have fit': "6 * lat + 2 * res + 2 * rho \<le> 5 * 10 ^ 7" "10 ^ 8 \<le> 2 ^ 64 * rho" using fit by (auto simp: calibratable_def)
  have D: "0 < ?D" using fit'(1) t1(2) S1 by linarith
  have k: "rho * ?k = rho * real_of_int ke - rho * real_of_int ks" by (simp add: right_diff_distrib)
  have cal: "real_of_int (ws + kCalibrationNs) = real_of_int ws + 5 * 10 ^ 7" by (simp add: kCalibrationNs_def)
  have low: "?D \<le> rho * ?k" unfolding k using S1 t1 c(2) [unfolded cal] t2 by linarith
  have "now h2 \<le> real_of_int ws + 5 * 10 ^ 7 + ep + res + 2 * lat" using S1 t1 fit'(1) by linarith
  then have "now h3 \<le> real_of_int ws + 5 * 10 ^ 7 + ep + res + 3 * lat" using c(3) [unfolded cal] by linarith
  then have "rho * ?k < 5 * 10 ^ 7 + res + 4 * lat + rho" unfolding k using S1 t1 t2 by linarith
  then have high: "rho * ?k < 10 ^ 8" using fit'(1) S1 t1(2) by simp
  have "0 < ?k" using D low t1(2) by (smt (verit) mult_nonneg_nonpos)
  moreover have "rho * ?k < rho * 2 ^ 64" using less_le_trans [OF high fit'(2)] by (simp only: mult.commute [of rho "2 ^ 64"])
  then have "?k < 2 ^ 64" by (rule mult_left_less_imp_less) (use t1(2) in simp)
  then have "ke - ks < 2 ^ 64" by (rule of_int_less_pow)
  ultimately have w: "real (unat (word_of_int ke - word_of_int ks :: u64)) = ?k"
    using elapsed_word [of ks ke] by (simp del: of_nat_unat)
  have "NanosPerCycle_init exact True steady_now rdtscp h = Some (real_of_int (we - ws) / ?k, h5)"
    using s1 t1(1) c(1) t2(1) s2 w by (simp add: NanosPerCycle_init_def ReadCycleCounter_def del: of_nat_unat)
  moreover have "\<bar>real_of_int (we - ws) - rho * ?k\<bar> \<le> 4 * lat + res + rho"
    unfolding k using S1 S2 t1 t2 by simp
  from ratio_close [OF this D low t1(2)] have "\<bar>real_of_int (we - ws) / ?k - rho\<bar> \<le> rho * ratio_error True rho res lat"
    by (simp only: ratio_error_def simp_thms if_True)
  ultimately show ?thesis by blast
qed

section \<open>Reading the clock\<close>

text \<open>What both builds have in common: a counter of ticks of \<open>len\<close> nanoseconds, shown modulo \<open>2 ^ 64\<close>,
  with its reading at most \<open>q\<close> behind.\<close>

definition tick_len :: "bool \<Rightarrow> real \<Rightarrow> real" where
  "tick_len rdtsc rho = (if rdtsc then rho else 1)"

definition jitter :: "bool \<Rightarrow> real \<Rightarrow> real \<Rightarrow> real \<Rightarrow> real" where
  "jitter rdtsc rho res lat = 2 * lat + (if rdtsc then rho else res)"

definition ticks :: "('h \<Rightarrow> real) \<Rightarrow> real \<Rightarrow> real \<Rightarrow> ('h \<Rightarrow> u64 \<times> 'h) \<Rightarrow> ('h \<Rightarrow> int) \<Rightarrow> bool" where
  "ticks now len J read cyc \<longleftrightarrow> 0 < len
     \<and> (\<forall>h. fst (read h) = word_of_int (cyc h))
     \<and> (\<forall>h h'. now (snd (read h)) \<le> now h' \<longrightarrow> cyc h \<le> cyc h'
          \<and> \<bar>len * real_of_int (cyc h' - cyc h) - (now h' - now (snd (read h)))\<bar> \<le> J)"

lemma ticksI:
  assumes "0 < len" "\<And>h. fst (read h) = word_of_int (cyc h)" "\<And>h h'. now (snd (read h)) \<le> now h' \<Longrightarrow> cyc h \<le> cyc h'"
    and "\<And>h. now h - q \<le> len * real_of_int (cyc h) + off" "\<And>h. len * real_of_int (cyc h) + off \<le> now (snd (read h))"
    and "\<And>h. now h < now (snd (read h)) \<and> now (snd (read h)) \<le> now h + lat"
  shows "ticks now len (2 * lat + q) read cyc"
proof -
  have "\<bar>len * real_of_int (cyc h' - cyc h) - (now h' - now (snd (read h)))\<bar> \<le> 2 * lat + q"
    if "now (snd (read h)) \<le> now h'" for h h'
  proof -
    have "len * real_of_int (cyc h' - cyc h) = len * real_of_int (cyc h') - len * real_of_int (cyc h)"
      by (simp add: right_diff_distrib)
    then show ?thesis using assms(4-6) [of h] assms(4-6) [of h'] by linarith
  qed
  then show ?thesis using assms(1-3) by (simp add: ticks_def)
qed

lemma ReadCycleCounter_ticks:
  assumes S: "steady_laws now ep res lat steady_now" and T: "rdtsc \<Longrightarrow> tsc_laws now rho lat rdtscp"
  shows "\<exists>cyc. ticks now (tick_len rdtsc rho) (jitter rdtsc rho res lat) (ReadCycleCounter rdtsc steady_now rdtscp) cyc"
proof (cases rdtsc)
  case True
  note T = T [OF True]
  have "\<forall>h. \<exists>c :: int. fst (rdtscp h) = word_of_int c \<and> now h - rho < rho * real_of_int c
      \<and> rho * real_of_int c \<le> now (snd (rdtscp h))" using T by (simp add: tsc_laws_def)
  then obtain cyc where c: "\<And>h. fst (rdtscp h) = word_of_int (cyc h)" "\<And>h. now h - rho < rho * real_of_int (cyc h)"
    "\<And>h. rho * real_of_int (cyc h) \<le> now (snd (rdtscp h))" using choice by metis
  have rho: "0 < rho" using T by (simp add: tsc_laws_def)
  have t: "now h < now (snd (rdtscp h)) \<and> now (snd (rdtscp h)) \<le> now h + lat" for h
    using takes_timeD [of now lat "snd \<circ> rdtscp" h] T by (simp add: tsc_laws_def)
  have "cyc h \<le> cyc h'" if "now (snd (rdtscp h)) \<le> now h'" for h h'
  proof -
    have "rho * real_of_int (cyc h) < rho * (real_of_int (cyc h') + 1)"
      using c(3) [of h] c(2) [of h'] that by (simp add: distrib_left)
    then have "real_of_int (cyc h) < real_of_int (cyc h') + 1" by (rule mult_left_less_imp_less) (use rho in simp)
    then show ?thesis by linarith
  qed
  then have "ticks now rho (2 * lat + rho) rdtscp cyc"
    using rho c t by (intro ticksI [where off = 0]) (auto intro: less_imp_le)
  moreover have "ReadCycleCounter rdtsc steady_now rdtscp = rdtscp" using True by (simp add: ReadCycleCounter_def fun_eq_iff)
  ultimately show ?thesis using True by (auto simp: tick_len_def jitter_def)
next
  case False
  let ?read = "ReadCycleCounter rdtsc steady_now rdtscp"
  have r: "fst (?read h) = word_of_int (fst (steady_now h))" "snd (?read h) = snd (steady_now h)" for h
    using False by (simp_all add: ReadCycleCounter_def case_prod_beta)
  have "now h - res \<le> 1 * real_of_int (fst (steady_now h)) + ep" "1 * real_of_int (fst (steady_now h)) + ep \<le> now (snd (?read h))"
    "now h < now (snd (?read h)) \<and> now (snd (?read h)) \<le> now h + lat" for h
    using steady_lawsD [OF S, of h "fst (steady_now h)" "snd (steady_now h)"] by (simp_all add: r)
  then have "ticks now 1 (2 * lat + res) ?read (\<lambda>h. fst (steady_now h))"
    using S by (intro ticksI [where off = ep]) (auto simp: r steady_laws_def)
  then show ?thesis using False by (auto simp: tick_len_def jitter_def)
qed

text \<open>The range in which neither the elapsed ticks nor the time stamp outgrow 64 bits: \<open>e\<close> nanoseconds
  since the base reading.\<close>

definition in_range :: "real \<Rightarrow> real \<Rightarrow> real \<Rightarrow> bool" where
  "in_range len J e \<longleftrightarrow> e + J < 2 ^ 63 \<and> e + J < 2 ^ 64 * len"

lemma tsc_call_ticks:
  assumes K: "ticks now len J (ReadCycleCounter rdtsc steady_now rdtscp) cyc"
    and C: "tc_base_cycles C = word_of_int (cyc hb)" "\<bar>tc_ns_per_cycle C - len\<bar> \<le> len * eps" "0 \<le> eps" "eps \<le> 1"
    and h: "now (snd (ReadCycleCounter rdtsc steady_now rdtscp hb)) \<le> now h"
    and e: "e = now h - now (snd (ReadCycleCounter rdtsc steady_now rdtscp hb))" "in_range len J e"
  shows "\<exists>t. tsc_call exact rdtsc steady_now rdtscp C h = Some (t, snd (ReadCycleCounter rdtsc steady_now rdtscp h))
    \<and> unat t = nat \<lfloor>real_of_int (cyc h - cyc hb) * tc_ns_per_cycle C\<rfloor>
    \<and> \<bar>real (unat t) - e\<bar> \<le> eps * (e + J) + J + 1"
proof -
  let ?read = "ReadCycleCounter rdtsc steady_now rdtscp"
  define n where "n = real_of_int (cyc h - cyc hb)"
  define r where "r = tc_ns_per_cycle C"
  have len: "0 < len" and w: "\<And>h. fst (?read h) = word_of_int (cyc h)" and nn: "cyc hb \<le> cyc h" and d: "\<bar>len * n - e\<bar> \<le> J"
    using K h unfolding ticks_def e(1) n_def by blast+
  have le: "len * n \<le> e + J" using d by linarith
  have "len * n < len * 2 ^ 64" using le e(2) by (simp add: in_range_def mult.commute)
  then have "n < 2 ^ 64" by (rule mult_left_less_imp_less) (use len in simp)
  then have "cyc h - cyc hb < 2 ^ 64" unfolding n_def by (rule of_int_less_pow)
  from elapsed_word [OF nn this] have u: "real (unat (fst (?read h) - tc_base_cycles C)) = n"
    using nn by (simp add: w C(1) n_def del: of_nat_unat)
  have n0: "0 \<le> n" using nn by (simp add: n_def)
  note C2 = C(2) [folded r_def]
  have r0: "0 \<le> r" using C2 mult_left_mono [OF C(4), of len] len by linarith
  have "n * r - len * n = n * (r - len)" by (simp only: right_diff_distrib mult.commute [of len])
  then have "\<bar>n * r - len * n\<bar> = n * \<bar>r - len\<bar>" using n0 by (simp only: abs_mult abs_of_nonneg)
  also have "\<dots> \<le> n * (len * eps)" using C2 n0 by (rule mult_left_mono)
  also have "\<dots> = eps * (len * n)" by (simp add: algebra_simps)
  also have "\<dots> \<le> eps * (e + J)" using le C(3) by (rule mult_left_mono)
  finally have off: "\<bar>n * r - len * n\<bar> \<le> eps * (e + J)" .
  have pos: "0 \<le> e + J" using le mult_nonneg_nonneg [OF less_imp_le [OF len] n0] by linarith
  have "eps * (e + J) \<le> e + J" using mult_right_mono [OF C(4) pos] by simp
  from add_mono [OF order_trans [OF abs_le_D1 [OF off] this] le] have "n * r \<le> 2 * (e + J)" by simp
  moreover have "2 * (e + J) < 2 * 2 ^ 63" using e(2) by (simp add: in_range_def)
  ultimately have fit: "0 \<le> n * r" "n * r < 2 ^ 64" using n0 r0 by simp_all
  from truncate_u64_nat [OF this] obtain t where t: "truncate_u64 (n * r) = Some t" "unat t = nat \<lfloor>n * r\<rfloor>" by blast
  have "tsc_call exact rdtsc steady_now rdtscp C h = Some (t, snd (?read h))"
    using t(1) u by (simp add: tsc_call_def r_def case_prod_beta del: of_nat_unat)
  moreover have "real (unat t) = real_of_int \<lfloor>n * r\<rfloor>" using t(2) fit(1) by (simp add: of_nat_nat del: of_nat_unat)
  then have "\<bar>real (unat t) - n * r\<bar> \<le> 1" by linarith
  then have "\<bar>real (unat t) - e\<bar> \<le> eps * (e + J) + J + 1" using off d by linarith
  ultimately show ?thesis using t(2) unfolding n_def r_def by blast
qed

lemma read_takes_time:
  assumes "steady_laws now ep res lat steady_now" "rdtsc \<Longrightarrow> tsc_laws now rho lat rdtscp"
  shows "now h < now (snd (ReadCycleCounter rdtsc steady_now rdtscp h))"
  using assms takes_timeD [of now lat "snd \<circ> steady_now" h] takes_timeD [of now lat "snd \<circ> rdtscp" h]
  by (auto simp: ReadCycleCounter_def steady_laws_def tsc_laws_def case_prod_beta)

section \<open>Correctness\<close>

lemma ratio_error_unit: "calibratable rho res lat \<Longrightarrow> 0 < rho \<Longrightarrow> 0 \<le> res \<Longrightarrow> 0 \<le> lat \<Longrightarrow>
    0 \<le> ratio_error True rho res lat \<and> ratio_error True rho res lat \<le> 1"
  by (simp add: ratio_error_def calibratable_def)

lemma TscNanoClock_new_ok:
  assumes S: "steady_laws now ep res lat steady_now"
    and T: "rdtsc \<Longrightarrow> tsc_laws now rho lat rdtscp \<and> calibratable rho res lat"
  obtains C hb where
    "TscNanoClock_new exact rdtsc steady_now rdtscp None h0
       = Some (C, Some (tc_ns_per_cycle C), snd (ReadCycleCounter rdtsc steady_now rdtscp hb))"
    "tc_base_cycles C = fst (ReadCycleCounter rdtsc steady_now rdtscp hb)"
    "\<bar>tc_ns_per_cycle C - tick_len rdtsc rho\<bar> \<le> tick_len rdtsc rho * ratio_error rdtsc rho res lat"
proof -
  obtain r hb where r: "NanosPerCycle_init exact rdtsc steady_now rdtscp h0 = Some (r, hb)"
    "\<bar>r - tick_len rdtsc rho\<bar> \<le> tick_len rdtsc rho * ratio_error rdtsc rho res lat"
  proof (cases rdtsc)
    case True
    then show ?thesis using NanosPerCycle_init_ok [OF S, of rho rdtscp h0] T that by (auto simp: tick_len_def)
  next
    case False
    then show ?thesis using that by (simp add: NanosPerCycle_init_def tick_len_def ratio_error_def)
  qed
  let ?C = "\<lparr>tc_ns_per_cycle = r, tc_base_cycles = fst (ReadCycleCounter rdtsc steady_now rdtscp hb)\<rparr>"
  have "TscNanoClock_new exact rdtsc steady_now rdtscp None h0
      = Some (?C, Some r, snd (ReadCycleCounter rdtsc steady_now rdtscp hb))"
    using r(1) by (simp add: TscNanoClock_new_def NanosPerCycle_def case_prod_beta)
  with r(2) show ?thesis using that [of ?C hb] by simp
qed

text \<open>C40: the clock tells the time, computed in exact arithmetic. In either build, on a machine with a
  steady clock of resolution \<open>res\<close> and, with \<^verbatim>\<open>rdtscp\<close>, a counter of cycles of \<open>rho\<close> nanoseconds, where
  a reading takes at most \<open>lat\<close> and the calibration window is long against these: construction returns,
  with the ratio of nanoseconds to a cycle known up to the relative \<open>ratio_error\<close> (none without
  \<^verbatim>\<open>rdtscp\<close>), and it is never calibrated again. Of any later call, as long as the elapsed time is in
  range, and also when the 64-bit counter wraps around in between, the time stamp is the true time since
  construction up to that relative error and the latencies; and of two calls of which the second starts
  after the first has ended, the second's time stamp is not smaller.\<close>

theorem tsc_clock_tracks_time:
  assumes "steady_laws now ep res lat steady_now"
    and "rdtsc \<Longrightarrow> tsc_laws now rho lat rdtscp" "rdtsc \<Longrightarrow> calibratable rho res lat"
  shows "\<exists>C cached h1. TscNanoClock_new exact rdtsc steady_now rdtscp None h0 = Some (C, cached, h1)
    \<and> (\<forall>h. NanosPerCycle exact rdtsc steady_now rdtscp cached h = Some (tc_ns_per_cycle C, cached, h))
    \<and> \<bar>tc_ns_per_cycle C - tick_len rdtsc rho\<bar> \<le> tick_len rdtsc rho * ratio_error rdtsc rho res lat
    \<and> (\<forall>h e. now h1 \<le> now h \<longrightarrow> e = now h - now h1 \<longrightarrow> in_range (tick_len rdtsc rho) (jitter rdtsc rho res lat) e \<longrightarrow>
         (\<exists>t h2. tsc_call exact rdtsc steady_now rdtscp C h = Some (t, h2)
            \<and> \<bar>real (unat t) - e\<bar> \<le> ratio_error rdtsc rho res lat * (e + jitter rdtsc rho res lat) + jitter rdtsc rho res lat + 1
            \<and> (\<forall>h'. now h2 \<le> now h' \<longrightarrow> in_range (tick_len rdtsc rho) (jitter rdtsc rho res lat) (now h' - now h1) \<longrightarrow>
                 (\<exists>t' h3. tsc_call exact rdtsc steady_now rdtscp C h' = Some (t', h3) \<and> t \<le> t'))))"
proof -
  let ?read = "ReadCycleCounter rdtsc steady_now rdtscp" and ?len = "tick_len rdtsc rho"
  let ?J = "jitter rdtsc rho res lat" and ?eps = "ratio_error rdtsc rho res lat"
  obtain C hb where C: "TscNanoClock_new exact rdtsc steady_now rdtscp None h0 = Some (C, Some (tc_ns_per_cycle C), snd (?read hb))"
    "tc_base_cycles C = fst (?read hb)" "\<bar>tc_ns_per_cycle C - ?len\<bar> \<le> ?len * ?eps"
    by (rule TscNanoClock_new_ok [of now ep res lat steady_now rdtsc rho rdtscp h0]) (use assms in auto)
  obtain cyc where K: "ticks now ?len ?J ?read cyc" using ReadCycleCounter_ticks [OF assms(1,2)] by blast
  have base: "tc_base_cycles C = word_of_int (cyc hb)" using C(2) K by (simp add: ticks_def)
  have res: "0 \<le> res" and lat: "0 \<le> lat"
    using steady_lawsD(1-3) [OF assms(1), of h0 "fst (steady_now h0)" "snd (steady_now h0)"] by auto
  have eps: "0 \<le> ?eps" "?eps \<le> 1"
    using ratio_error_unit [OF assms(3) _ res lat] assms(2) by (cases rdtsc; simp add: ratio_error_def tsc_laws_def)+
  note call = tsc_call_ticks [OF K base C(3) eps]
  have r0: "0 \<le> tc_ns_per_cycle C"
    using C(3) K mult_left_mono [OF eps(2), of ?len] unfolding ticks_def by linarith
  have later: "\<exists>t' h3. tsc_call exact rdtsc steady_now rdtscp C h' = Some (t', h3) \<and> t \<le> t'"
    if t: "unat t = nat \<lfloor>real_of_int (cyc h - cyc hb) * tc_ns_per_cycle C\<rfloor>" and h: "now (snd (?read hb)) \<le> now h"
      and h': "now (snd (?read h)) \<le> now h'" "in_range ?len ?J (now h' - now (snd (?read hb)))" for t h h'
  proof -
    have "now h < now (snd (?read h))" by (rule read_takes_time [OF assms(1,2)])
    with h h'(1) have "now (snd (?read hb)) \<le> now h'" by linarith
    from call [OF this refl h'(2)] obtain t' where t': "tsc_call exact rdtsc steady_now rdtscp C h' = Some (t', snd (?read h'))"
      "unat t' = nat \<lfloor>real_of_int (cyc h' - cyc hb) * tc_ns_per_cycle C\<rfloor>" by blast
    have "cyc h \<le> cyc h'" using K h'(1) by (simp add: ticks_def)
    then have "unat t \<le> unat t'" unfolding t t'(2) using r0 by (intro nat_mono floor_mono mult_right_mono) simp_all
    with t'(1) show ?thesis by (auto simp: word_le_nat_alt)
  qed
  show ?thesis
  proof (rule exI [of _ C], rule exI [of _ "Some (tc_ns_per_cycle C)"], rule exI [of _ "snd (?read hb)"], intro conjI allI impI)
    show "TscNanoClock_new exact rdtsc steady_now rdtscp None h0 = Some (C, Some (tc_ns_per_cycle C), snd (?read hb))" by (rule C(1))
    show "\<bar>tc_ns_per_cycle C - ?len\<bar> \<le> ?len * ?eps" by (rule C(3))
    fix h
    show "NanosPerCycle exact rdtsc steady_now rdtscp (Some (tc_ns_per_cycle C)) h = Some (tc_ns_per_cycle C, Some (tc_ns_per_cycle C), h)"
      by (simp add: NanosPerCycle_def)
    fix e assume h: "now (snd (?read hb)) \<le> now h" "e = now h - now (snd (?read hb))" "in_range ?len ?J e"
    from call [OF h] obtain t where t: "tsc_call exact rdtsc steady_now rdtscp C h = Some (t, snd (?read h))"
      "unat t = nat \<lfloor>real_of_int (cyc h - cyc hb) * tc_ns_per_cycle C\<rfloor>" "\<bar>real (unat t) - e\<bar> \<le> ?eps * (e + ?J) + ?J + 1" by blast
    show "\<exists>t h2. tsc_call exact rdtsc steady_now rdtscp C h = Some (t, h2) \<and> \<bar>real (unat t) - e\<bar> \<le> ?eps * (e + ?J) + ?J + 1
        \<and> (\<forall>h'. now h2 \<le> now h' \<longrightarrow> in_range ?len ?J (now h' - now (snd (?read hb))) \<longrightarrow>
             (\<exists>t' h3. tsc_call exact rdtsc steady_now rdtscp C h' = Some (t', h3) \<and> t \<le> t'))"
      using t(1,3) later [OF t(2) h(1)] by blast
  qed
qed

text \<open>A machine with a counter of two cycles to the nanosecond on which a reading takes a millisecond.\<close>

theorem tsc_clock_tracks_time_witness:
  "\<exists>C cached h1. TscNanoClock_new exact True (\<lambda>h. (int h * 10 ^ 6, h + 1)) (\<lambda>h. (of_nat (h * (2 * 10 ^ 6)), h + 1)) None 0
       = Some (C, cached, h1)
     \<and> \<bar>tc_ns_per_cycle C - 1 / 2\<bar> \<le> 1 / 20"
proof -
  let ?now = "\<lambda>h. real h * 10 ^ 6"
  let ?st = "\<lambda>h. (int h * 10 ^ 6, h + 1)" and ?rd = "\<lambda>h. (of_nat (h * (2 * 10 ^ 6)) :: u64, h + 1)"
  have tt: "takes_time ?now (10 ^ 6) (\<lambda>h. h + 1)"
    unfolding takes_time_def by (rule exI [of _ 1]) (simp add: distrib_right)
  have S: "steady_laws ?now 0 0 (10 ^ 6) ?st"
    using tt by (simp add: steady_laws_def o_def distrib_right)
  have T: "tsc_laws ?now (1 / 2) (10 ^ 6) ?rd"
    using tt by (auto simp: tsc_laws_def o_def distrib_right intro!: exI [of _ "int (_ * (2 * 10 ^ 6))"])
  have "calibratable (1 / 2) 0 (10 ^ 6)" by (simp add: calibratable_def)
  from tsc_clock_tracks_time [OF S T this, of True 0] obtain C cached h1 where
    "TscNanoClock_new exact True ?st ?rd None 0 = Some (C, cached, h1)"
    "\<bar>tc_ns_per_cycle C - tick_len True (1 / 2)\<bar> \<le> tick_len True (1 / 2) * ratio_error True (1 / 2) 0 (10 ^ 6)"
    by metis
  then show ?thesis by (intro exI [of _ C] exI [of _ cached] exI [of _ h1]) (simp add: tick_len_def ratio_error_def)
qed

end
