(* ===== verification/Spec2Isabelle.thy ===== *)
theory Spec2Isabelle imports
  Sim_Threads Sim_Env_Theorems Almgren_Chriss Vwap Rl_Policy Tsc_Clock
begin

text \<open>
  A verification development for the C++ engine of the optimal execution platform, the code under
  \<^verbatim>\<open>src/cpp\<close>. Paths below are relative to that directory.

  \<^bold>\<open>The program.\<close> An order comes in from a driver: the simulation
  (\<^verbatim>\<open>main/sim_runner.cpp\<close>) or the training environment for reinforcement learning
  (\<^verbatim>\<open>bindings/py_module.cpp\<close>). The driver calls the telemetry publisher
  (\<^verbatim>\<open>exec/telemetry_publisher.hpp\<close>), which calls the limit order book
  (\<^verbatim>\<open>core/order_book.hpp\<close>) with callbacks that are inlined into the matching loop. The book
  keeps its orders in a slab allocator (\<^verbatim>\<open>core/slab_allocator.hpp\<close>), in an intrusive list
  per price level, on a ladder of levels per side, and finds them by id in an open-addressing hash
  index. Every fill, cancel and acknowledgement becomes an event in a single-producer
  single-consumer ring (\<^verbatim>\<open>core/spsc_ring.hpp\<close>), stamped by a cycle-counter clock
  (\<^verbatim>\<open>core/tsc_clock.hpp\<close>). A relay thread (\<^verbatim>\<open>external/event_relay.hpp\<close>) drains
  the ring into a logger (\<^verbatim>\<open>external/kdb_logger.hpp\<close>, \<^verbatim>\<open>external/ipc_kdb_logger.*\<close>).
  The execution strategies (\<^verbatim>\<open>exec/strategy.hpp\<close>, \<^verbatim>\<open>almgren_chriss.*\<close>,
  \<^verbatim>\<open>vwap.*\<close>, \<^verbatim>\<open>rl_policy.*\<close>) slice a parent order into children.

  \<^bold>\<open>Conventions of the model.\<close>

  \<^item> Ids, quantities, sequence numbers and ring indices are 64-bit words, level counts 32-bit
    words, all with the wrap-around of the code. Prices are \<^verbatim>\<open>std::int64_t\<close> in the code and
    \<open>int\<close> here; where the code does signed arithmetic that can overflow (the environment's
    account) the result is checked by \<open>s64\<close>.
  \<^item> \<open>None\<close> is undefined behaviour, a failed \<^verbatim>\<open>assert\<close>, or a loop that does not return (such
    loops are \<open>partial_function (option)\<close>). Every theorem that says \<open>= Some\<close> therefore proves memory
    safety, absence of assertion failures and termination. Exceptions and process exits are the
    left of a sum; an exit carries its status and what was written to the standard streams.
  \<^item> A pointer is the number of a slot in the slab, whose contents are typed: reading a free slot as
    an order, or an order as a link, is \<open>None\<close>.
  \<^item> A callback is a function on a state threaded through the call. Template parameters and virtual
    calls (ring, clock, logger, \<^verbatim>\<open>Derived\<close>) are arguments of the definitions.
  \<^item> Code outside the repository is a parameter: the cycle counter and the steady clock (two state
    transformers), the kdb+ client (handles and replies are arguments), TorchScript (the record
    \<open>torch\<close>), and floating point with \<^verbatim>\<open>sinh\<close>, \<^verbatim>\<open>sqrt\<close> and \<^verbatim>\<open>llround\<close> (the record
    \<open>fpu\<close>, arbitrary unless a theorem names \<open>exact\<close>, its instance in the reals).
    \<^verbatim>\<open>llround\<close> returns the 64 bits of a \<^verbatim>\<open>long long\<close>, unspecified outside its range.
  \<^item> Two threads are either a step relation over all interleavings (ring, relay) or, in the whole
    programs, a \<open>schedule\<close>: how many steps the consumer makes after each push. Theorems hold for
    every schedule. Acquire loads may return any value stored since the last one they saw.

  \<^bold>\<open>The theories, from the bottom up.\<close>

  \<^item> \<open>Prelude\<close>: the machine types, checked access to lists (\<open>nth_opt\<close>, \<open>upd_opt\<close>), counted loops
    (\<open>for_range\<close>), lemmas on words and options.
  \<^item> \<open>Slab_Allocator\<close>: \<^verbatim>\<open>SlabAllocator<T>\<close>. The free list is threaded through the free slots. The
    invariant says it is acyclic and complementary to the live slots; \<open>Allocate\<close> and \<open>Deallocate\<close>
    keep it (interface \<open>allocator\<close>, \<open>object_pool\<close>). The constructor computes the size of its buffer in
    64 bits and is \<open>None\<close> where that wraps around. Addresses are treated apart: \<open>Owns\<close> equals
    membership in the list of slot addresses.
  \<^item> \<open>Id_Index\<close>: the hash index of the book: Fibonacci hashing, linear probing, backward-shift
    deletion. The invariant says every entry is reachable from its home slot; insert and erase
    then implement a finite map (interface \<open>id_map\<close>). \<open>RoundUpPow2\<close> with its non-termination.
  \<^item> \<open>Level_Fifo\<close>: \<^verbatim>\<open>Order\<close>, \<^verbatim>\<open>LevelFIFO\<close> and the three list operations, against a predicate
    \<open>fifo\<close> that a level links exactly a given list of nodes.
  \<^item> \<open>Order_Book\<close>: the class, every private helper and public operation.
  \<^item> \<open>Book_Spec\<close>: what the book promises, as a function from sides and prices to queues; matching
    is a sweep over the crossing prices. Price-time priority, conservation and uncrossedness are
    proved here, on the specification.
  \<^item> \<open>Book_Invariant\<close>, \<open>Book_Steps\<close>, \<open>Book_Matching\<close>, \<open>Book_Correct\<close>: the invariant of the book (slab,
    levels, ladder, touch prices, live-level counts and index agree), each helper against it, the
    matching loops against the sweep, the operations against the specification.
  \<^item> \<open>Book_Theorems\<close>: the properties of the book, over the invariant and the abstraction only, and
    of every book reachable by a script of operations.
  \<^item> \<open>Spsc_Ring\<close>: the ring as whole calls (interfaces \<open>event_queue\<close>, \<open>bounded_queue\<close>) and as a step
    relation, one access to shared memory at a time, with stale loads: order, absence of data races,
    and wait-freedom. Capacities are those its static assertions admit (\<open>capacity_ok\<close>). The layout of
    the members: no cache line is written by both threads.
  \<^item> \<open>Telemetry\<close>: events, CSV rows, the in-memory and the IPC logger (interface \<open>kdb_logger\<close>). Every call
    the latter makes of \<^verbatim>\<open>k()\<close> is recorded with the answer (\<open>ip_wire\<close>); \<open>delivered\<close> are the rows of
    those not answered with an error object, whatever the code made of the answer.
  \<^item> \<open>Event_Relay\<close>: \<^verbatim>\<open>EventRelay\<close>; the thread is a program counter, and the steps of producer,
    consumer and callers of \<^verbatim>\<open>Start\<close> and \<^verbatim>\<open>Stop\<close> interleave freely (interface \<open>event_relay\<close>,
    the sum of a bounded queue and a logger). Here a call of the ring is one step.
  \<^item> \<open>Relay_Concurrent\<close>: the same relay over the ring in mid-call, every step an access to shared
    memory, with stale loads of the indices and of the stop flag: the tape is complete when
    \<^verbatim>\<open>Stop\<close> returns, and \<^verbatim>\<open>Stop\<close> returns.
  \<^item> \<open>Relay_Refinement\<close>: that relay refines the one with atomic ring calls, by a simulation in which the
    latter pops no more than the producer has seen. The simulation is proved over any set of runs
    that whole calls extend (locales \<open>call_pops\<close>, \<open>call_runs\<close>).
  \<^item> \<open>Order_Gateway\<close>: what a driver relies on, adding and cancelling against \<open>Book_Spec\<close> (interface
    \<open>order_gateway\<close>). The bare book provides it, and so does whatever keeps a book and adds and cancels
    as specified (\<open>book_keeper_gateway\<close>). Also the prewarming of the levels.
  \<^item> \<open>Telemetry_Publisher\<close>: the publisher over any ring (interface \<open>telemetry_ring\<close>); it is a gateway.
  \<^item> \<open>Fused_Handlers\<close>: two runs of the book with related handlers run in lockstep, hence the publisher
    does not influence the book.
  \<^item> \<open>Tape_Replay\<close>: the published events as an audit trail. Replaying them from empty queues gives the
    queues of the book, and every event is well formed where it stands. The trades an order made as the
    taker are read off the fill events (\<open>trades_of\<close>).
  \<^item> \<open>Telemetry_Pipeline\<close>: publisher, ring and relay together under a schedule (interfaces
    \<open>recorded_ring\<close>, \<open>relayed_logger\<close>), and \<^verbatim>\<open>Stop\<close> with its join.
  \<^item> \<open>Relay_Schedules\<close>: the same simulation, over the runs of a schedule: the schedules of whole calls,
    under which the drivers are verified, cover the two threads, with \<^verbatim>\<open>Start\<close> and \<^verbatim>\<open>Stop\<close>.
  \<^item> \<open>Xorshift\<close>, \<open>Sim_Config\<close>, \<open>Sim_Runner\<close>: the generator, the command line and the choice of the
    logger, the workload loop over any gateway, and \<^verbatim>\<open>main\<close> for both builds, from the arguments of
    the command line to the exit status and the printed summary (\<open>sim_runner_memory\<close>,
    \<open>sim_runner_kdb\<close>): the work up to \<^verbatim>\<open>Stop\<close> (\<open>sim_work\<close>), then the flush and the
    destructors of the relay and of the logger (\<open>sim_main\<close>). With a live connection and no refusal
    every accepted row has been delivered when the program ends.
  \<^item> \<open>Sim_Threads\<close>: what the simulation publishes does not depend on the ring or the relay, so the whole
    program as two threads, one memory access at a time, ends as \<^verbatim>\<open>main\<close> does under some schedule.
  \<^item> \<open>Sim_Env\<close>, \<open>Sim_Env_Correct\<close>, \<open>Sim_Env_Theorems\<close>: class \<^verbatim>\<open>SimEnv\<close> with the module's default
    arguments and the destructor. The invariants of its market and of its account are proved over any
    ring that records what it is given (\<open>recorded_ring\<close>); the observer it fuses into the matching of a
    child order is the publisher's handler plus the cash, so that its events are audited like any
    other. Its account is compared with the trades of its children on the tape (\<open>child_trades\<close>): it moves
    by those in which a child was the taker. Then its properties with the relay it owns, for every
    state a client can reach.
  \<^item> \<open>Floating\<close>, \<open>Tsc_Clock\<close>, \<open>Strategy\<close>, \<open>Almgren_Chriss\<close>, \<open>Vwap\<close>, \<open>Rl_Policy\<close>: floating point, the
    clock in its builds with and without the cycle counter (its time stamps against the true time), the
    strategy interface (locale \<open>schedule\<close>) and its three implementations.

  \<^bold>\<open>Where interfaces are discharged.\<close> Every locale is interpreted on the model's own definitions:
  \<open>pool\<close> (slab), \<open>ids\<close> (index), \<open>rq\<close> and \<open>spsc\<close> (ring), \<open>tape\<close> (a ring that records), \<open>memory_sink\<close> and \<open>ipc_sink\<close> (loggers),
  \<open>memory_relay\<close> and \<open>ipc_relay\<close>, \<open>book_gate\<close>, \<open>pub_gate\<close> and \<open>tape_gate\<close> (gateways),
  \<open>memory_pipe\<close>, \<open>ipc_pipe\<close> and \<open>env_ring\<close> (rings with a running consumer), \<open>memory_log\<close>,
  \<open>ipc_log\<close> and \<open>ipc_session\<close> (a relay with its logger, from end to end), \<open>calls\<close>, \<open>steps\<close> and
  \<open>scheduled\<close> (the runs of the relay by whole calls), \<open>ac\<close>, \<open>vwap\<close> and \<open>rl\<close> (strategies).

  \<^bold>\<open>Hypotheses and bounds.\<close> The book's operations ask for what the code's comments ask for: a
  positive quantity and an id that is not resting. A book exists for capacities below 2^58, where its
  slab's size fits 64 bits. The simulation's theorems bound \<^verbatim>\<open>--ops\<close> by
  2^60 - 16: above, \<^verbatim>\<open>reserve\<close> throws (\<open>sim_reserve_throws\<close>); below, ids and sequence numbers do not
  wrap. The accuracy of a schedule is proved for parents below 2^63, the range of
  \<^verbatim>\<open>llround\<close>; that of the clock for readings short against the calibration window of 50 ms, and
  elapsed times whose ticks and nanoseconds fit 64 bits. The environment's bound the horizon by 2^30
  and the arrival mid by 2^62 in absolute value: its book has 8192 slots, its synthetic orders at most 49 units and its band
  ends at 16383, so neither the cash of an episode nor its walk leaves the signed 64-bit range. No fuel
  is used anywhere: loops either recurse structurally, carry a measure, or are partial functions
  whose termination is part of the theorems.

  \<^bold>\<open>Not modelled.\<close>

  \<^item> \<^verbatim>\<open>operator new\<close>, cache behaviour and prefetching: only speed depends on them.
  \<^item> The kdb+ client (\<^verbatim>\<open>external/kdb/k.h\<close> is vendored): what it returns is an argument. That an
    answer other than an error object means acceptance is the reading of the code's comments.
  \<^item> pybind11's registrations, the docstrings, the numpy view of the observation, the release of the interpreter
    lock, and the raw pointer \<^verbatim>\<open>RlPolicy::state_ptr\<close>: glue between languages.
  \<^item> The wall clock of the drivers: the elapsed time that \<^verbatim>\<open>main\<close> prints is an argument.
  \<^item> Memory orderings other than acquire and release; the relaxed counters are read only when the
    other thread is quiet.
  \<^item> \<^verbatim>\<open>benchmarks\<close>, \<^verbatim>\<open>tests\<close> and the Python tooling, which are not part of the engine.
\<close>

end
